(* ===== verification/Nya_Prelude.thy ===== *)
theory Nya_Prelude
  imports Main "HOL-Library.Word"
begin

unbundle bit_operations_syntax

section \<open>Shared vocabulary of the NyaOS development\<close>

text \<open>
  This theory holds what every component uses: the fixed-width integer types of the C
  sources, the faults a memory access can end in, the sequencing of fallible steps, and
  the library lemmas on words, lists and bounded loops.

  Every result of a component that dereferences memory is a \<open>res\<close>: \<open>Inr\<close> the value,
  or \<open>Inl\<close> the reason why the C code has no defined behaviour from that point on (an
  array access outside the object, a dereference of \<open>NULL\<close>, falling off the end of a
  non-void function).
\<close>

subsection \<open>Types\<close>

type_synonym u8 = "8 word"
type_synonym u16 = "16 word"
type_synonym u32 = "32 word"
type_synonym u64 = "64 word"

datatype fault =
    OutOfBounds   \<comment> \<open>an access past the end of the object\<close>
  | NullDeref     \<comment> \<open>an access through a null pointer\<close>
  | DivideByZero  \<comment> \<open>an integer division or remainder by zero\<close>
  | BadArgument   \<comment> \<open>a variable argument that is missing or of another type\<close>
  | NoReturn      \<comment> \<open>a non-void function that ends without a \<open>return\<close>\<close>

type_synonym 'a res = "fault + 'a"

definition bindR :: "'a res \<Rightarrow> ('a \<Rightarrow> 'b res) \<Rightarrow> 'b res" where
  "bindR m f = (case m of Inl e \<Rightarrow> Inl e | Inr x \<Rightarrow> f x)"

text \<open>
  \<open>for_range f lo n s\<close> is the C loop \<open>for (i = lo; i < lo + n; ++i) s = f(i, s)\<close> that
  stops at the first fault of its body.
\<close>

fun for_range :: "(nat \<Rightarrow> 's \<Rightarrow> 's res) \<Rightarrow> nat \<Rightarrow> nat \<Rightarrow> 's \<Rightarrow> 's res" where
  "for_range f lo 0 s = Inr s"
| "for_range f lo (Suc n) s = bindR (f lo s) (for_range f (Suc lo) n)"

text \<open>
  \<open>find_range f lo n s\<close> is the same loop with a body that may \<open>return\<close> a value from
  inside it.
\<close>

fun find_range :: "(nat \<Rightarrow> 's \<Rightarrow> ('a option \<times> 's) res) \<Rightarrow> nat \<Rightarrow> nat \<Rightarrow> 's \<Rightarrow> ('a option \<times> 's) res"
where
  "find_range f lo 0 s = Inr (None, s)"
| "find_range f lo (Suc n) s =
     bindR (f lo s) (\<lambda>(r, s'). case r of Some x \<Rightarrow> Inr (Some x, s')
                                       | None \<Rightarrow> find_range f (Suc lo) n s')"

text \<open>
  A run that need not end is a \<open>res option\<close>: \<open>None\<close> is a call that does not return.
\<close>

abbreviation bindX :: "'a res option \<Rightarrow> ('a \<Rightarrow> 'b res option) \<Rightarrow> 'b res option" where
  "bindX m f \<equiv> Option.bind m (\<lambda>r. case r of Inl e \<Rightarrow> Some (Inl e) | Inr x \<Rightarrow> f x)"

abbreviation bindS :: "'a res \<Rightarrow> ('a \<Rightarrow> 'b res option) \<Rightarrow> 'b res option" where
  "bindS m f \<equiv> bindX (Some m) f"

subsection \<open>Collections of rewrite rules\<close>

named_theorems res_simps \<open>sequencing of fallible steps\<close>
named_theorems word_bits \<open>bits of the words the kernel builds\<close>

lemma bindR_Inl [simp, res_simps]: "bindR (Inl e) f = Inl e"
  by (simp add: bindR_def)

lemma bindR_Inr [simp, res_simps]: "bindR (Inr x) f = f x"
  by (simp add: bindR_def)

lemma bindR_assoc: "bindR (bindR m f) g = bindR m (\<lambda>x. bindR (f x) g)"
  by (simp add: bindR_def split: sum.split)

lemma bindR_eq_InrE:
  assumes "bindR m f = Inr y"
  obtains x where "m = Inr x" "f x = Inr y"
  using assms by (auto simp: bindR_def split: sum.splits)

lemma bindR_eq_Inr_iff: "bindR m f = Inr y \<longleftrightarrow> (\<exists>x. m = Inr x \<and> f x = Inr y)"
  by (auto simp: bindR_def split: sum.splits)

text \<open>A loop keeps what its body keeps.\<close>

lemma for_range_invariant:
  assumes "for_range f lo n s = Inr t" and "P lo s"
    and "\<And>i s t. lo \<le> i \<Longrightarrow> i < lo + n \<Longrightarrow> P i s \<Longrightarrow> f i s = Inr t \<Longrightarrow> P (Suc i) t"
  shows "P (lo + n) t"
  using assms
proof (induction n arbitrary: lo s)
  case 0
  then show ?case by simp
next
  case (Suc n)
  from Suc.prems(1) obtain s' where s': "f lo s = Inr s'" and
    rest: "for_range f (Suc lo) n s' = Inr t"
    by (auto elim: bindR_eq_InrE)
  have "P (Suc lo) s'" using Suc.prems(3)[OF _ _ Suc.prems(2) s'] by simp
  from Suc.IH[OF rest this] Suc.prems(3) have "P (Suc lo + n) t" by force
  then show ?case by simp
qed

text \<open>A loop whose body never faults under an invariant never faults.\<close>

lemma for_range_total:
  assumes "P lo s"
    and "\<And>i s. lo \<le> i \<Longrightarrow> i < lo + n \<Longrightarrow> P i s \<Longrightarrow> \<exists>t. f i s = Inr t \<and> P (Suc i) t"
  shows "\<exists>t. for_range f lo n s = Inr t \<and> P (lo + n) t"
  using assms
proof (induction n arbitrary: lo s)
  case 0
  then show ?case by simp
next
  case (Suc n)
  from Suc.prems(2)[OF _ _ Suc.prems(1)] obtain s' where
    s': "f lo s = Inr s'" "P (Suc lo) s'" by auto
  have "\<exists>t. for_range f (Suc lo) n s' = Inr t \<and> P (Suc lo + n) t"
    using Suc.prems(2) by (intro Suc.IH s') auto
  with s' show ?case by simp
qed

text \<open>A loop that returns from inside returns from one of its iterations.\<close>

lemma find_range_Some:
  assumes "find_range f lo n s = Inr (Some x, t)" and "P s"
    and "\<And>i s t. lo \<le> i \<Longrightarrow> i < lo + n \<Longrightarrow> P s \<Longrightarrow> f i s = Inr (None, t) \<Longrightarrow> P t"
  shows "\<exists>i u. lo \<le> i \<and> i < lo + n \<and> P u \<and> f i u = Inr (Some x, t)"
  using assms
proof (induction n arbitrary: lo s)
  case 0
  then show ?case by simp
next
  case (Suc n)
  have keep: "P t'" if "Suc lo \<le> i" "i < Suc lo + n" "P s''" "f i s'' = Inr (None, t')" for i s'' t'
    using that by (intro Suc.prems(3)[of i s'' t']) auto
  from Suc.prems(1) obtain r s' where step: "f lo s = Inr (r, s')"
    "(case r of Some x \<Rightarrow> Inr (Some x, s') | None \<Rightarrow> find_range f (Suc lo) n s') = Inr (Some x, t)"
    by (auto elim!: bindR_eq_InrE)
  show ?case
  proof (cases r)
    case None
    then have "f lo s = Inr (None, s')" using step(1) by simp
    then have "P s'" using Suc.prems(3)[of lo s s'] Suc.prems(2) by simp
    then have "\<exists>i u. Suc lo \<le> i \<and> i < Suc lo + n \<and> P u \<and> f i u = Inr (Some x, t)"
      using step(2) None keep by (intro Suc.IH[of "Suc lo" s']) auto
    then show ?thesis by (metis Suc_leD add_Suc_right add_Suc)
  next
    case (Some y)
    with step Suc.prems(2) show ?thesis by auto
  qed
qed

text \<open>A loop that does not return from inside keeps what its iterations keep.\<close>

lemma find_range_None:
  assumes "find_range f lo n s = Inr (None, t)" and "P s"
    and "\<And>i s t. lo \<le> i \<Longrightarrow> i < lo + n \<Longrightarrow> P s \<Longrightarrow> f i s = Inr (None, t) \<Longrightarrow> P t"
  shows "P t"
  using assms
proof (induction n arbitrary: lo s)
  case 0
  then show ?case by simp
next
  case (Suc n)
  have keep: "P t'" if "Suc lo \<le> i" "i < Suc lo + n" "P s''" "f i s'' = Inr (None, t')" for i s'' t'
    using that by (intro Suc.prems(3)[of i s'' t']) auto
  from Suc.prems(1) obtain s' where step: "f lo s = Inr (None, s')" "find_range f (Suc lo) n s' = Inr (None, t)"
    by (auto elim!: bindR_eq_InrE split: option.splits)
  have "P s'" using Suc.prems(3)[OF _ _ Suc.prems(2) step(1)] by simp
  then show ?case using step(2) keep by (intro Suc.IH[of "Suc lo" s']) auto
qed

subsection \<open>Words\<close>

text \<open>The simplifier writes \<open>1 << k\<close> as a power of two; these are the bits of the masks.\<close>

lemma bit_two_power [word_bits]: "bit (2 ^ k :: 'a::len word) n \<longleftrightarrow> n = k \<and> n < LENGTH('a)"
  by (auto simp: bit_exp_iff)

lemma bit_ones_from [word_bits]: "bit (NOT (mask k) :: 'a::len word) n \<longleftrightarrow> k \<le> n \<and> n < LENGTH('a)"
  by (auto simp: bit_not_iff bit_mask_iff)

lemma bit_low_mask [word_bits]: "bit (2 ^ k - 1 :: 'a::len word) n \<longleftrightarrow> n < k \<and> n < LENGTH('a)"
  by (auto simp: bit_mask_iff simp flip: mask_eq_exp_minus_1)

lemma word_eq_bits: "(v :: 'a::len word) = w \<longleftrightarrow> (\<forall>n < LENGTH('a). bit v n = bit w n)"
  by (auto simp: bit_word_eqI)

lemma unat_take_bit: "unat (take_bit k (w :: 'a::len word)) = unat w mod 2 ^ k"
  by (metis take_bit_eq_mod unsigned_take_bit_eq)

lemma and_31_eq_mod: "unat (w AND 31 :: 'a::len word) = unat w mod 32"
  using unat_take_bit[of 5 w] by (simp add: take_bit_eq_mask mask_eq_exp_minus_1)

lemma unat_shift_right: "unat (drop_bit k (w :: 'a::len word)) = unat w div 2 ^ k"
  by (subst unat_drop_bit_eq) (simp add: drop_bit_eq_div)

lemma unat_ucast_down: "unat (w :: u64) < 2 ^ 32 \<Longrightarrow> unat (ucast w :: u32) = unat w"
  by (simp add: unsigned_ucast_eq take_bit_nat_eq_self)

lemma unat_ucast_up: "unat (ucast (w :: u32) :: u64) = unat w"
  by (simp add: unsigned_ucast_eq take_bit_nat_eq_self unsigned_less order_less_trans[OF unsigned_less])

lemma word_of_int_take64: "(word_of_int (take_bit 64 z) :: u32) = word_of_int z"
  by (simp add: word_of_int_eq_iff)

lemma ucast_diff_down: "(ucast (x - y :: u64) :: u32) = ucast x - ucast y"
proof -
  have "(ucast (x - y :: u64) :: u32) = word_of_int (take_bit 64 (uint x - uint y))"
    unfolding ucast_eq uint_word_arith_bintrs(2) by simp
  also have "\<dots> = word_of_int (uint x) - word_of_int (uint y)" unfolding word_of_int_take64 by (rule of_int_diff)
  finally show ?thesis unfolding ucast_eq .
qed

lemma ucast_of_nat_down: "(ucast (of_nat n :: u64) :: u32) = of_nat n"
proof -
  have "(ucast (of_nat n :: u64) :: u32) = word_of_int (take_bit 64 (int n))"
    unfolding ucast_eq by (simp add: unsigned_of_nat of_nat_take_bit)
  then show ?thesis unfolding word_of_int_take64 by simp
qed

lemma scast_of_nat32:
  assumes "n < 2 ^ 31"
  shows "scast (of_nat n :: u32) = (of_nat n :: u64)"
proof -
  have "sint (of_nat n :: u32) = int n"
    using assms by (simp add: sint_uint signed_take_bit_int_eq_self take_bit_nat_eq_self unsigned_of_nat)
  then show ?thesis by (simp add: scast_eq)
qed

lemma of_nat_word_eq_0: "n < 2 ^ LENGTH('a) \<Longrightarrow> (of_nat n :: 'a::len word) = 0 \<longleftrightarrow> n = 0"
  by (simp add: word_unat_eq_iff unat_of_nat)

lemma mod_mod_small: "0 < c \<Longrightarrow> c \<le> m \<Longrightarrow> x mod c mod m = x mod (c :: nat)"
  by (metis mod_less mod_less_divisor order_less_le_trans)

end
