(* ===== verification/Nya_Pfa.thy ===== *)
theory Nya_Pfa
  imports Nya_Prelude
begin

unbundle bit_operations_syntax

section \<open>The page frame allocator\<close>

text \<open>
  The model of \<open>kernel/arch/x86_64/pfa.c\<close>. Its static variables are the record \<open>pfa\<close>:
  the bitmap is the array of \<open>uint32_t\<close> that \<open>pfa_init\<close> places in usable memory, one
  bit per 4 KiB frame (1 = in use); \<open>allocate\<close> and \<open>pframe\<close> are the static locals of
  \<open>kalloc_frame\<close>; \<open>console\<close> holds the strings given to \<open>printf\<close>. An access outside the
  bitmap is \<open>Inl OutOfBounds\<close>.
\<close>

subsection \<open>State and memory map\<close>

record pfa =
  npages :: u32
  bitmap :: "u32 list"
  bitmap_ptr :: u64
  bm_paddr :: u64
  pre_frames :: "u64 list"
  allocate :: u8
  pframe :: u8
  console :: "string list"

record limine_memmap_entry =
  me_base :: u64
  me_length :: u64
  me_type :: u64

abbreviation (input) PAGE_SIZE :: u64 where "PAGE_SIZE \<equiv> 0x1000"
abbreviation (input) LIMINE_MEMMAP_USABLE :: u64 where "LIMINE_MEMMAP_USABLE \<equiv> 0"

definition pfa_boot :: pfa where
  "pfa_boot = \<lparr>npages = 0, bitmap = [], bitmap_ptr = 0, bm_paddr = 0,
     pre_frames = replicate 20 0, allocate = 1, pframe = 0, console = []\<rparr>"

definition pfa_print :: "string \<Rightarrow> pfa \<Rightarrow> pfa" where
  "pfa_print msg s = s\<lparr>console := console s @ [msg]\<rparr>"

subsection \<open>Single bits of the bitmap\<close>

definition bm_word :: "pfa \<Rightarrow> nat \<Rightarrow> u32 res" where
  "bm_word s k = (if k < length (bitmap s) then Inr (bitmap s ! k) else Inl OutOfBounds)"

definition bm_store :: "nat \<Rightarrow> u32 \<Rightarrow> pfa \<Rightarrow> pfa res" where
  "bm_store k w s =
     (if k < length (bitmap s) then Inr (s\<lparr>bitmap := (bitmap s)[k := w]\<rparr>) else Inl OutOfBounds)"

definition bm_set :: "u32 \<Rightarrow> pfa \<Rightarrow> pfa res" where
  "bm_set i s =
     bindR (bm_word s (unat (drop_bit 5 i))) (\<lambda>w.
       bm_store (unat (drop_bit 5 i)) (w OR push_bit (unat (i AND 0b11111)) 1) s)"

definition bm_clear :: "u32 \<Rightarrow> pfa \<Rightarrow> pfa res" where
  "bm_clear i s =
     bindR (bm_word s (unat (drop_bit 5 i))) (\<lambda>w.
       bm_store (unat (drop_bit 5 i)) (w AND NOT (push_bit (unat (i AND 0b11111)) 1)) s)"

definition bm_test :: "u32 \<Rightarrow> pfa \<Rightarrow> bool res" where
  "bm_test i s =
     bindR (bm_word s (unat (drop_bit 5 i))) (\<lambda>w.
       Inr (w AND push_bit (unat (i AND 0b11111)) 1 \<noteq> 0))"

subsection \<open>Boot: reading the memory map\<close>

fun mem_high_loop :: "limine_memmap_entry list \<Rightarrow> u32 \<Rightarrow> u32" where
  "mem_high_loop [] high = high"
| "mem_high_loop (e # es) high =
     mem_high_loop es
       (if me_type e = LIMINE_MEMMAP_USABLE \<and> me_base e + me_length e > ucast high
        then ucast (me_base e + me_length e) else high)"

definition mem_high :: "limine_memmap_entry list \<Rightarrow> u64" where
  "mem_high mmap = ucast (mem_high_loop mmap 0)"

text \<open>
  The inner loop of \<open>free_available_memory\<close> adds the page size to a 64-bit cursor. A region
  that ends in the last page of the address space makes it wrap and run forever, so the
  loop is a partial function: \<open>None\<close> is a run that does not end.
\<close>

partial_function (option) free_region :: "u64 \<Rightarrow> u64 \<Rightarrow> pfa \<Rightarrow> pfa res option" where
  "free_region m lim s =
     (if m + PAGE_SIZE < lim
      then (case bm_clear (ucast (m div PAGE_SIZE)) s of
              Inl e \<Rightarrow> Some (Inl e)
            | Inr s' \<Rightarrow> free_region (m + PAGE_SIZE) lim s')
      else Some (Inr s))"

declare free_region.simps [code]

fun free_available_memory :: "limine_memmap_entry list \<Rightarrow> pfa \<Rightarrow> pfa res option" where
  "free_available_memory [] s = Some (Inr s)"
| "free_available_memory (e # es) s =
     (if me_type e = LIMINE_MEMMAP_USABLE
      then (case free_region (me_base e) (me_base e + me_length e) s of
              None \<Rightarrow> None
            | Some (Inl f) \<Rightarrow> Some (Inl f)
            | Some (Inr s') \<Rightarrow> free_available_memory es s')
      else free_available_memory es s)"

text \<open>When no region is large enough \<open>bitmap_addr\<close> ends without a \<open>return\<close>.\<close>

fun bitmap_addr :: "u64 \<Rightarrow> limine_memmap_entry list \<Rightarrow> u64 \<Rightarrow> pfa \<Rightarrow> (u64 \<times> pfa) res" where
  "bitmap_addr offset [] bitmap_size s = Inl NoReturn"
| "bitmap_addr offset (e # es) bitmap_size s =
     (if me_type e = LIMINE_MEMMAP_USABLE \<and> me_length e > bitmap_size
      then Inr (me_base e + offset, s\<lparr>bm_paddr := me_base e\<rparr>)
      else bitmap_addr offset es bitmap_size s)"

definition bitmap_words :: "u32 \<Rightarrow> u32" where
  "bitmap_words n = drop_bit 5 (n + 31)"

definition pfa_reserve :: "u64 \<Rightarrow> pfa \<Rightarrow> pfa res" where
  "pfa_reserve bitmap_size s =
     (let first = bm_paddr s div PAGE_SIZE;
          count = (bitmap_size + PAGE_SIZE - 1) div PAGE_SIZE
      in bindR (for_range (\<lambda>i. bm_set (of_nat i)) (unat first) (unat count) s) (bm_set 0))"

definition pfa_init :: "u64 \<Rightarrow> limine_memmap_entry list \<Rightarrow> pfa \<Rightarrow> pfa res option" where
  "pfa_init offset mmap s =
     (let np = ucast (mem_high mmap div PAGE_SIZE) :: u32;
          bitmap_size = ucast ((np + 31) div 32) * 4 :: u64
      in case bitmap_addr offset mmap bitmap_size (s\<lparr>npages := np\<rparr>) of
           Inl e \<Rightarrow> Some (Inl e)
         | Inr (p, s1) \<Rightarrow>
             let s2 = s1\<lparr>bitmap_ptr := p, bitmap := replicate (unat (bitmap_words np)) 0xffffffff\<rparr>
             in case free_available_memory mmap s2 of
                  None \<Rightarrow> None
                | Some r \<Rightarrow> Some (bindR r (pfa_reserve bitmap_size)))"

subsection \<open>Ranges of bits\<close>

text \<open>The scan of the words after the first: \<open>n\<close> words lie between \<open>ptr\<close> and \<open>end\<close>.\<close>

fun test_words :: "nat \<Rightarrow> nat \<Rightarrow> pfa \<Rightarrow> bool res" where
  "test_words ptr 0 s = Inr True"
| "test_words ptr (Suc n) s =
     bindR (bm_word s (Suc ptr)) (\<lambda>w.
       if w \<noteq> 0 \<and> n \<noteq> 0 then Inr False else test_words (Suc ptr) n s)"

definition test_range :: "nat \<Rightarrow> nat \<Rightarrow> u32 \<Rightarrow> u32 \<Rightarrow> pfa \<Rightarrow> (bool \<times> pfa) res" where
  "test_range start stop s_bit e_bit s0 =
     (let s = pfa_print ''invalid start and end for test_range\<newline>'' s0;
          low = NOT (push_bit (unat s_bit) 1 - 1) :: u32;
          high = push_bit (unat e_bit) 1 - 1 :: u32
      in bindR (bm_word s start) (\<lambda>w.
           if start = stop then Inr (w AND (low AND high) = 0, s)
           else if w AND low \<noteq> 0 then Inr (False, s)
           else bindR (test_words start (stop - start) s) (\<lambda>ok.
             if \<not> ok then Inr (False, s)
             else bindR (bm_word s stop) (\<lambda>w'. Inr (w' AND high = 0, s)))))"

definition clear_range :: "u64 \<Rightarrow> u64 \<Rightarrow> pfa \<Rightarrow> pfa res" where
  "clear_range start stop s =
     (if start > stop then Inr s
      else
        let start_word = drop_bit 5 start; start_bit = start AND 0x1f;
            end_word = drop_bit 5 stop; end_bit = stop AND 0x1f;
            from_start = push_bit (unat start_bit) (- 1) :: u64;
            upto_end = drop_bit (unat (31 - end_bit)) (- 1) :: u64
        in if start_word = end_word
           then let mask = ucast (from_start AND upto_end) :: u32
                in bindR (bm_word s (unat start_word)) (\<lambda>w.
                     bm_store (unat start_word) (w AND NOT mask) s)
           else
             bindR (bm_word s (unat start_word)) (\<lambda>w.
             bindR (bm_store (unat start_word) (ucast (ucast w AND NOT from_start)) s) (\<lambda>s.
             bindR (for_range (\<lambda>k. bm_store k 0) (unat start_word + 1)
                      (unat end_word - unat start_word - 1) s) (\<lambda>s.
             bindR (bm_word s (unat end_word)) (\<lambda>w.
               bm_store (unat end_word) (ucast (ucast w AND NOT upto_end)) s)))))"

definition set_range :: "u64 \<Rightarrow> u64 \<Rightarrow> pfa \<Rightarrow> pfa res" where
  "set_range start stop s =
     (if start > stop then Inr s
      else
        let start_word = drop_bit 5 start; start_bit = start AND 0x1f;
            end_word = drop_bit 5 stop; end_bit = stop AND 0x1f;
            from_start = push_bit (unat start_bit) (- 1) :: u64;
            upto_end = drop_bit (unat (31 - end_bit)) (- 1) :: u64
        in if start_word = end_word
           then let mask = ucast (from_start AND upto_end) :: u32
                in bindR (bm_word s (unat start_word)) (\<lambda>w.
                     bm_store (unat start_word) (w OR mask) s)
           else
             bindR (bm_word s (unat start_word)) (\<lambda>w.
             bindR (bm_store (unat start_word) (ucast (ucast w OR from_start)) s) (\<lambda>s.
             bindR (for_range (\<lambda>k. bm_store k 0xffffffff) (unat start_word + 1)
                      (unat end_word - unat start_word - 1) s) (\<lambda>s.
             bindR (bm_word s (unat end_word)) (\<lambda>w.
               bm_store (unat end_word) (ucast (ucast w OR upto_end)) s)))))"

subsection \<open>Allocation and release\<close>

definition kalloc_frames_bit :: "u64 \<Rightarrow> nat \<Rightarrow> nat \<Rightarrow> pfa \<Rightarrow> (u64 option \<times> pfa) res" where
  "kalloc_frames_bit frames i j s =
     (let end_bit = ucast ((frames - (32 - of_nat j)) mod 32) :: u32
      in bindR (test_range i (i + unat (drop_bit 5 frames)) (of_nat j) end_bit s) (\<lambda>(ok, s).
           if ok
           then let s_idx = ucast (push_bit 5 (of_nat i :: u32) OR of_nat j) :: u64;
                    e_idx = s_idx + frames
                in bindR (set_range s_idx e_idx s) (\<lambda>s. Inr (Some (s_idx * PAGE_SIZE), s))
           else Inr (None, s)))"

definition kalloc_frames_word :: "u64 \<Rightarrow> nat \<Rightarrow> pfa \<Rightarrow> (u64 option \<times> pfa) res" where
  "kalloc_frames_word frames i s =
     bindR (bm_word s i) (\<lambda>w.
       if w = 0xffffffff then Inr (None, s)
       else find_range (kalloc_frames_bit frames i) 0 32 s)"

definition kalloc_frames :: "u64 \<Rightarrow> pfa \<Rightarrow> (u64 \<times> pfa) res" where
  "kalloc_frames frames s =
     bindR (find_range (kalloc_frames_word frames) 0 (unat (bitmap_words (npages s))) s)
       (\<lambda>(r, s). Inr (case r of Some a \<Rightarrow> a | None \<Rightarrow> 0, s))"

definition kalloc_frame_bit :: "nat \<Rightarrow> nat \<Rightarrow> pfa \<Rightarrow> (u64 option \<times> pfa) res" where
  "kalloc_frame_bit i j s =
     (let idx = ucast (push_bit 5 (of_nat i :: u32) OR of_nat j) :: u64
      in bindR (bm_test (ucast idx) s) (\<lambda>used.
           if \<not> used then bindR (bm_set (ucast idx) s) (\<lambda>s. Inr (Some (idx * PAGE_SIZE), s))
           else Inr (None, s)))"

definition kalloc_frame_word :: "nat \<Rightarrow> pfa \<Rightarrow> (u64 option \<times> pfa) res" where
  "kalloc_frame_word i s =
     bindR (bm_word s i) (\<lambda>w.
       if w = 0xffffffff then Inr (None, s) else find_range (kalloc_frame_bit i) 0 32 s)"

definition kalloc_frame_int :: "pfa \<Rightarrow> (u64 \<times> pfa) res" where
  "kalloc_frame_int s =
     bindR (find_range kalloc_frame_word 0 (unat (bitmap_words (npages s))) s)
       (\<lambda>(r, s). Inr (case r of Some a \<Rightarrow> a | None \<Rightarrow> 0, s))"

text \<open>The refill loop of \<open>kalloc_frame\<close>; it returns \<open>Some\<close> when a frame is missing.\<close>

definition refill_slot :: "nat \<Rightarrow> pfa \<Rightarrow> (unit option \<times> pfa) res" where
  "refill_slot i s =
     bindR (kalloc_frame_int s) (\<lambda>(f, s).
       let s = s\<lparr>pre_frames := (pre_frames s)[i := f]\<rparr>
       in if f = 0 then Inr (Some (), pfa_print ''out of frames'' s) else Inr (None, s))"

definition take_pre_frame :: "pfa \<Rightarrow> (u64 \<times> pfa) res" where
  "take_pre_frame s =
     (if unat (pframe s) < length (pre_frames s)
      then Inr (pre_frames s ! unat (pframe s), s\<lparr>pframe := pframe s + 1\<rparr>)
      else Inl OutOfBounds)"

definition kalloc_frame :: "pfa \<Rightarrow> (u64 \<times> pfa) res" where
  "kalloc_frame s0 =
     (let s = (if pframe s0 = 20 then s0\<lparr>allocate := 1\<rparr> else s0)
      in if allocate s = 1
         then bindR (find_range refill_slot 0 20 s) (\<lambda>(missing, s).
                case missing of
                  Some _ \<Rightarrow> Inr (0, s)
                | None \<Rightarrow> take_pre_frame (s\<lparr>pframe := 0, allocate := 0\<rparr>))
         else take_pre_frame s)"

definition kfree_frame :: "u64 \<Rightarrow> pfa \<Rightarrow> pfa res" where
  "kfree_frame a s = bm_clear (ucast (a div PAGE_SIZE)) s"

definition kfree_frames :: "u64 \<Rightarrow> u64 \<Rightarrow> pfa \<Rightarrow> pfa res" where
  "kfree_frames a frames s =
     (let idx = ucast (a div PAGE_SIZE) :: u32
      in clear_range (scast idx) (scast idx + frames) s)"

subsection \<open>Abstraction: the set of free frames\<close>

definition bit_at :: "u32 list \<Rightarrow> nat \<Rightarrow> bool" where
  "bit_at bm n = bit (bm ! (n div 32)) (n mod 32)"

definition free_frames :: "pfa \<Rightarrow> nat set" where
  "free_frames s = {n. n < 32 * length (bitmap s) \<and> \<not> bit_at (bitmap s) n}"

definition only_bitmap :: "pfa \<Rightarrow> pfa \<Rightarrow> bool" where
  "only_bitmap s t \<longleftrightarrow> t = s\<lparr>bitmap := bitmap t\<rparr> \<and> length (bitmap t) = length (bitmap s)"

lemma only_bitmap_refl [simp]: "only_bitmap s s"
  by (simp add: only_bitmap_def)

lemma only_bitmap_trans: "only_bitmap s t \<Longrightarrow> only_bitmap t u \<Longrightarrow> only_bitmap s u"
  unfolding only_bitmap_def
  by (metis pfa.surjective pfa.update_convs(2) pfa.select_convs)

lemma only_bitmapD [dest]:
  assumes "only_bitmap s t"
  shows "npages t = npages s" "length (bitmap t) = length (bitmap s)" "pre_frames t = pre_frames s"
    "allocate t = allocate s" "pframe t = pframe s" "bm_paddr t = bm_paddr s"
  using assms unfolding only_bitmap_def
  by (metis pfa.select_convs pfa.surjective pfa.update_convs(2))+

lemma bit_at_update:
  assumes "k < length bm"
  shows "bit_at (bm[k := w]) n = (if n div 32 = k then bit w (n mod 32) else bit_at bm n)"
  using assms by (simp add: bit_at_def nth_list_update)

lemma bm_word_ok [simp]: "k < length (bitmap s) \<Longrightarrow> bm_word s k = Inr (bitmap s ! k)"
  by (simp add: bm_word_def)

lemma bm_word_bad [simp]: "\<not> k < length (bitmap s) \<Longrightarrow> bm_word s k = Inl OutOfBounds"
  by (simp add: bm_word_def)

lemma bm_store_ok [simp]:
  "k < length (bitmap s) \<Longrightarrow> bm_store k w s = Inr (s\<lparr>bitmap := (bitmap s)[k := w]\<rparr>)"
  by (simp add: bm_store_def)

lemma frame_word_bound: "n div 32 < m \<longleftrightarrow> n < 32 * (m :: nat)"
  by (simp add: less_mult_imp_div_less div_less_iff_less_mult mult.commute)

text \<open>
  Storing a word that sets (clears) exactly the bits of the frames \<open>A\<close> of word \<open>k\<close> takes
  these frames from (adds them to) the free set.
\<close>

lemma free_frames_store_or:
  assumes "k < length (bitmap s)" and "A \<subseteq> {n. n div 32 = k}"
    and "\<And>n. n div 32 = k \<Longrightarrow> bit w (n mod 32) = (bit_at (bitmap s) n \<or> n \<in> A)"
  shows "free_frames (s\<lparr>bitmap := (bitmap s)[k := w]\<rparr>) = free_frames s - A"
  using assms by (auto simp: free_frames_def bit_at_update)

lemma free_frames_store_and:
  assumes "k < length (bitmap s)" and "A \<subseteq> {n. n div 32 = k}"
    and "\<And>n. n div 32 = k \<Longrightarrow> bit w (n mod 32) = (bit_at (bitmap s) n \<and> n \<notin> A)"
  shows "free_frames (s\<lparr>bitmap := (bitmap s)[k := w]\<rparr>) = free_frames s \<union> A"
  using assms by (auto simp: free_frames_def bit_at_update simp flip: frame_word_bound)

lemma only_bitmap_store [simp]: "only_bitmap s (s\<lparr>bitmap := (bitmap s)[k := w]\<rparr>)"
  by (simp add: only_bitmap_def)

lemma word_index_u32: "unat (drop_bit 5 (i :: u32)) = unat i div 32"
  using unat_shift_right[of 5 i] by simp

lemma mod32_lt [simp]: "n mod 32 < LENGTH(32)"
  by simp

lemma same_frame: "n div 32 = m div 32 \<Longrightarrow> n mod 32 = m mod 32 \<longleftrightarrow> n = (m :: nat)"
  by (metis div_mod_decomp)

lemma bm_set_ok:
  assumes "unat i < 32 * length (bitmap s)"
  shows "\<exists>t. bm_set i s = Inr t \<and> only_bitmap s t \<and> free_frames t = free_frames s - {unat i}"
proof -
  let ?k = "unat i div 32"
  let ?w = "bitmap s ! ?k OR push_bit (unat (i AND 0b11111)) 1"
  have k: "?k < length (bitmap s)" using assms by (simp add: frame_word_bound)
  then have "bm_set i s = Inr (s\<lparr>bitmap := (bitmap s)[?k := ?w]\<rparr>)"
    by (simp add: bm_set_def word_index_u32)
  moreover have "free_frames (s\<lparr>bitmap := (bitmap s)[?k := ?w]\<rparr>) = free_frames s - {unat i}"
    using k by (intro free_frames_store_or)
      (auto simp: bit_at_def bit_or_iff word_bits and_31_eq_mod same_frame)
  ultimately show ?thesis by simp
qed

lemma bm_clear_ok:
  assumes "unat i < 32 * length (bitmap s)"
  shows "\<exists>t. bm_clear i s = Inr t \<and> only_bitmap s t \<and> free_frames t = insert (unat i) (free_frames s)"
proof -
  let ?k = "unat i div 32"
  let ?w = "bitmap s ! ?k AND NOT (push_bit (unat (i AND 0b11111)) 1)"
  have k: "?k < length (bitmap s)" using assms by (simp add: frame_word_bound)
  then have "bm_clear i s = Inr (s\<lparr>bitmap := (bitmap s)[?k := ?w]\<rparr>)"
    by (simp add: bm_clear_def word_index_u32)
  moreover have "free_frames (s\<lparr>bitmap := (bitmap s)[?k := ?w]\<rparr>) = free_frames s \<union> {unat i}"
    using k by (intro free_frames_store_and)
      (auto simp: bit_at_def bit_and_iff bit_not_iff word_bits and_31_eq_mod same_frame)
  ultimately show ?thesis by simp
qed

lemma and_bit_eq_0: "(w AND push_bit k 1 = (0 :: 'a::len word)) \<longleftrightarrow> \<not> bit w k"
  by (metis and_exp_eq_0_iff_not_bit push_bit_of_1)

lemma bm_test_ok:
  assumes "unat i < 32 * length (bitmap s)"
  shows "bm_test i s = Inr (unat i \<notin> free_frames s)"
proof -
  have k: "unat i div 32 < length (bitmap s)" using assms by (simp add: frame_word_bound)
  with assms show ?thesis
    by (simp add: bm_test_def word_index_u32 and_bit_eq_0 and_31_eq_mod free_frames_def bit_at_def
        del: push_bit_of_1)
qed

lemma bm_out_of_bounds:
  assumes "\<not> unat i < 32 * length (bitmap s)"
  shows "bm_set i s = Inl OutOfBounds" "bm_clear i s = Inl OutOfBounds" "bm_test i s = Inl OutOfBounds"
proof -
  have "\<not> unat i div 32 < length (bitmap s)" using assms by (simp add: frame_word_bound)
  then show "bm_set i s = Inl OutOfBounds" "bm_clear i s = Inl OutOfBounds"
      "bm_test i s = Inl OutOfBounds"
    by (simp_all add: bm_set_def bm_clear_def bm_test_def word_index_u32)
qed

subsection \<open>First-fit search\<close>

definition frame_addr :: "nat \<Rightarrow> u64" where
  "frame_addr n = of_nat n * PAGE_SIZE"

text \<open>
  \<open>alloc_first s A r\<close>: the step \<open>r\<close> from state \<open>s\<close> takes the least free frame of \<open>A\<close>,
  or changes nothing when \<open>A\<close> has no free frame.
\<close>

definition alloc_first :: "pfa \<Rightarrow> nat set \<Rightarrow> (u64 option \<times> pfa) res \<Rightarrow> bool" where
  "alloc_first s A r \<longleftrightarrow>
     (if free_frames s \<inter> A = {} then r = Inr (None, s)
      else \<exists>t. r = Inr (Some (frame_addr (Min (free_frames s \<inter> A))), t) \<and> only_bitmap s t \<and>
               free_frames t = free_frames s - {Min (free_frames s \<inter> A)})"

lemma finite_free_frames [simp]: "finite (free_frames s)"
  by (simp add: free_frames_def)

lemma alloc_first_miss: "free_frames s \<inter> A = {} \<Longrightarrow> alloc_first s A (Inr (None, s))"
  by (simp add: alloc_first_def)

lemma alloc_first_cong:
  "free_frames s \<inter> A = free_frames s \<inter> B \<Longrightarrow> alloc_first s A r = alloc_first s B r"
  by (simp add: alloc_first_def)

text \<open>A loop over the parts of an ordered partition takes the least free frame of the union.\<close>

lemma alloc_first_loop:
  assumes "\<And>i. lo \<le> i \<Longrightarrow> i < lo + n \<Longrightarrow> alloc_first s (A i) (f i s)"
    and "\<And>i j x y. i < j \<Longrightarrow> x \<in> A i \<Longrightarrow> y \<in> A j \<Longrightarrow> x < y"
  shows "alloc_first s (\<Union>i\<in>{lo..<lo + n}. A i) (find_range f lo n s)"
  using assms(1)
proof (induction n arbitrary: lo)
  case 0
  then show ?case by (simp add: alloc_first_def)
next
  case (Suc n)
  let ?F = "free_frames s" and ?rest = "\<Union>i\<in>{Suc lo..<Suc lo + n}. A i"
  have "{lo..<lo + Suc n} = insert lo {Suc lo..<Suc lo + n}" by auto
  then have split: "(\<Union>i\<in>{lo..<lo + Suc n}. A i) = A lo \<union> ?rest" by simp
  have here: "alloc_first s (A lo) (f lo s)" using Suc.prems by simp
  show ?case
  proof (cases "?F \<inter> A lo = {}")
    case True
    then have "find_range f lo (Suc n) s = find_range f (Suc lo) n s"
      using here by (simp add: alloc_first_def)
    moreover have "alloc_first s ?rest (find_range f (Suc lo) n s)"
      using Suc.prems by (intro Suc.IH) auto
    moreover have "?F \<inter> (A lo \<union> ?rest) = ?F \<inter> ?rest" using True by blast
    ultimately show ?thesis unfolding split by (simp add: alloc_first_def)
  next
    case False
    have "Min (?F \<inter> (A lo \<union> ?rest)) = Min (?F \<inter> A lo)"
    proof (rule Min_eqI)
      fix y assume y: "y \<in> ?F \<inter> (A lo \<union> ?rest)"
      show "Min (?F \<inter> A lo) \<le> y"
      proof (cases "y \<in> A lo")
        case True with y show ?thesis by simp
      next
        case no: False
        have "Min (?F \<inter> A lo) \<in> A lo" using Min_in[OF _ False] by simp
        moreover obtain i where "lo < i" "y \<in> A i" using y no by (auto simp: Suc_le_eq)
        ultimately show ?thesis using assms(2) less_imp_le by blast
      qed
    qed (use False Min_in[OF _ False] in auto)
    with False here show ?thesis unfolding split
      by (auto simp: alloc_first_def)
  qed
qed

lemma bitmap_words_bound: "unat (bitmap_words n) < 2 ^ 27"
proof -
  have "unat (n + 31) < 2 ^ 32" using unsigned_less[of "n + 31"] by simp
  then show ?thesis unfolding bitmap_words_def unat_shift_right by simp
qed

lemma frame_index:
  assumes "i < 2 ^ 27" "j < 32"
  shows "push_bit 5 (of_nat i) OR of_nat j = (of_nat (32 * i + j) :: u32)"
proof -
  have "(of_nat j :: u32) = take_bit 5 (of_nat j)"
    using assms(2) by (simp add: take_bit_of_nat take_bit_nat_eq_self)
  moreover have "push_bit 5 (of_nat i :: u32) AND take_bit 5 (of_nat j) = 0"
    by (rule bit_word_eqI) (auto simp: bit_and_iff bit_push_bit_iff bit_take_bit_iff)
  ultimately show ?thesis
    using disjunctive_add_eq_or[of "push_bit 5 (of_nat i :: u32)" "of_nat j"]
    by (simp add: push_bit_eq_mult mult.commute)
qed

lemma unat_frame_index:
  assumes "i < 2 ^ 27" "j < 32"
  shows "unat (of_nat (32 * i + j) :: u32) = 32 * i + j"
proof -
  have "32 * i + j < 2 ^ 32" using assms by simp
  then show ?thesis by (simp add: unat_of_nat del: of_nat_add of_nat_mult)
qed

lemma ucast_frame_index:
  assumes "n < 2 ^ 32"
  shows "ucast (of_nat n :: u32) = (of_nat n :: u64)" "ucast (of_nat n :: u64) = (of_nat n :: u32)"
  using assms by (simp_all add: unsigned_of_nat take_bit_nat_eq_self)

lemma kalloc_frame_bit_first:
  assumes "i < length (bitmap s)" "i < 2 ^ 27" "j < 32"
  shows "alloc_first s {32 * i + j} (kalloc_frame_bit i j s)"
proof -
  let ?n = "32 * i + j"
  have n: "unat (of_nat ?n :: u32) = ?n" by (rule unat_frame_index[OF assms(2,3)])
  have bound: "?n < 32 * length (bitmap s)" using assms(1,3) by simp
  have small: "?n < 2 ^ 32" using assms(2,3) by simp
  have idx: "kalloc_frame_bit i j s =
      bindR (bm_test (of_nat ?n) s) (\<lambda>used.
        if \<not> used then bindR (bm_set (of_nat ?n) s) (\<lambda>s. Inr (Some (frame_addr ?n), s))
        else Inr (None, s))"
    unfolding kalloc_frame_bit_def frame_index[OF assms(2,3)] Let_def ucast_frame_index[OF small]
      frame_addr_def ..
  show ?thesis
    using bm_set_ok[of "of_nat ?n" s] bm_test_ok[of "of_nat ?n" s] bound
    unfolding idx n by (auto simp: alloc_first_def)
qed

lemma bit_ones: "m < 32 \<Longrightarrow> bit (0xffffffff :: u32) m"
proof -
  assume m: "m < 32"
  have e: "(0xffffffff :: u32) = - 1" by simp
  show ?thesis unfolding e using m by (simp only: bit_minus_1_iff possible_bit_word) simp
qed

text \<open>The simplifier reads the bits of a word numeral as bits of the integer numeral.\<close>

lemma bit_ones_mod [simp]: "bit (0xffffffff :: int) (n mod 32)"
  using bit_ones[of "n mod 32"] by simp

lemma full_word_no_free:
  assumes "i < length (bitmap s)" "bitmap s ! i = 0xffffffff"
  shows "free_frames s \<inter> {32 * i..<32 * i + 32} = {}"
  using assms by (auto simp: free_frames_def bit_at_def div_nat_eqI)

lemma kalloc_frame_word_first:
  assumes "i < length (bitmap s)" "i < 2 ^ 27"
  shows "alloc_first s {32 * i..<32 * i + 32} (kalloc_frame_word i s)"
proof (cases "bitmap s ! i = 0xffffffff")
  case True
  with assms full_word_no_free show ?thesis
    by (auto simp: kalloc_frame_word_def intro!: alloc_first_miss)
next
  case False
  have "alloc_first s (\<Union>j\<in>{0..<0 + 32}. {32 * i + j}) (find_range (kalloc_frame_bit i) 0 32 s)"
    using assms by (intro alloc_first_loop kalloc_frame_bit_first) auto
  moreover have "(\<Union>j\<in>{0..<0 + 32::nat}. {32 * i + j}) = {32 * i..<32 * i + 32}"
    using image_add_atLeastLessThan[of "32 * i" 0 32] by (simp add: UNION_singleton_eq_range add.commute)
  ultimately show ?thesis using assms False by (simp add: kalloc_frame_word_def)
qed

definition pfa_wf :: "pfa \<Rightarrow> bool" where
  "pfa_wf s \<longleftrightarrow> length (bitmap s) = unat (bitmap_words (npages s)) \<and> length (pre_frames s) = 20"

lemma pfa_wf_only_bitmap: "only_bitmap s t \<Longrightarrow> pfa_wf t = pfa_wf s"
  using only_bitmapD[of s t] by (simp add: pfa_wf_def)

lemma free_frames_bound: "pfa_wf s \<Longrightarrow> n \<in> free_frames s \<Longrightarrow> n < 2 ^ 32"
  using bitmap_words_bound[of "npages s"] by (auto simp: pfa_wf_def free_frames_def)

lemma kalloc_frame_int_first:
  assumes "pfa_wf s"
  shows "alloc_first s UNIV (find_range kalloc_frame_word 0 (unat (bitmap_words (npages s))) s)"
proof -
  let ?n = "unat (bitmap_words (npages s))"
  have len: "length (bitmap s) = ?n" using assms by (simp add: pfa_wf_def)
  have "alloc_first s (\<Union>i\<in>{0..<0 + ?n}. {32 * i..<32 * i + 32}) (find_range kalloc_frame_word 0 ?n s)"
    using len bitmap_words_bound[of "npages s"]
    by (intro alloc_first_loop kalloc_frame_word_first) auto
  moreover have "n \<in> (\<Union>i\<in>{0..<0 + ?n}. {32 * i..<32 * i + 32})" if "n \<in> free_frames s" for n
    using that len by (auto simp: free_frames_def intro!: bexI[of _ "n div 32"])
  then have "free_frames s \<inter> (\<Union>i\<in>{0..<0 + ?n}. {32 * i..<32 * i + 32}) = free_frames s \<inter> UNIV"
    by blast
  ultimately show ?thesis using alloc_first_cong by blast
qed

lemma kalloc_frame_int_none:
  assumes "pfa_wf s" "free_frames s = {}"
  shows "kalloc_frame_int s = Inr (0, s)"
  using kalloc_frame_int_first[OF assms(1)] assms(2)
  by (simp add: kalloc_frame_int_def alloc_first_def)

lemma kalloc_frame_int_some:
  assumes "pfa_wf s" "free_frames s \<noteq> {}"
  obtains t where "kalloc_frame_int s = Inr (frame_addr (Min (free_frames s)), t)"
    "only_bitmap s t" "free_frames t = free_frames s - {Min (free_frames s)}"
  using kalloc_frame_int_first[OF assms(1)] assms(2)
  by (auto simp: kalloc_frame_int_def alloc_first_def)

lemma unat_frame_addr:
  assumes "n < 2 ^ 32"
  shows "unat (frame_addr n) = n * 4096"
proof -
  have "frame_addr n = of_nat (n * 4096)" by (simp add: frame_addr_def)
  moreover have "n * 4096 < 2 ^ LENGTH(64)" using assms by simp
  ultimately show ?thesis by (metis unat_of_nat mod_less)
qed

lemma frame_addr_inj: "m < 2 ^ 32 \<Longrightarrow> n < 2 ^ 32 \<Longrightarrow> frame_addr m = frame_addr n \<longleftrightarrow> m = n"
  by (metis unat_frame_addr mult_cancel2 zero_neq_numeral)

lemma frame_addr_eq_0: "n < 2 ^ 32 \<Longrightarrow> frame_addr n = 0 \<longleftrightarrow> n = 0"
  using frame_addr_inj[of n 0] by (simp add: frame_addr_def)

lemma frame_addr_div: "n < 2 ^ 32 \<Longrightarrow> ucast (frame_addr n div PAGE_SIZE) = (of_nat n :: u32)"
proof -
  assume n: "n < 2 ^ 32"
  have "frame_addr n div PAGE_SIZE = of_nat n"
    using unat_frame_addr[OF n] n by (simp add: word_unat_eq_iff unat_div unat_of_nat)
  then show ?thesis by (simp add: ucast_frame_index(2)[OF n])
qed

subsection \<open>The contract of a frame source\<close>

text \<open>
  What the pager and the slab allocator rely on: every frame address handed out is taken
  from the available ones and is available no more, so no address is handed out twice; a
  null result hands out nothing.
\<close>

locale frame_source =
  fixes alloc :: "'s \<Rightarrow> (u64 \<times> 's) res"
    and avail :: "'s \<Rightarrow> u64 set"
    and inv :: "'s \<Rightarrow> bool"
  assumes alloc_total: "inv s \<Longrightarrow> \<exists>a t. alloc s = Inr (a, t) \<and> inv t"
    and alloc_fresh: "inv s \<Longrightarrow> alloc s = Inr (a, t) \<Longrightarrow> a \<noteq> 0 \<Longrightarrow>
      a \<in> avail s \<and> avail t = avail s - {a}"
    and alloc_null: "inv s \<Longrightarrow> alloc s = Inr (0, t) \<Longrightarrow> avail t \<subseteq> avail s"
    and avail_frame: "inv s \<Longrightarrow> a \<in> avail s \<Longrightarrow> a \<noteq> 0 \<and> 4096 dvd unat a \<and> unat a < 2 ^ 44"

fun alloc_n :: "('s \<Rightarrow> (u64 \<times> 's) res) \<Rightarrow> nat \<Rightarrow> 's \<Rightarrow> (u64 list \<times> 's) res" where
  "alloc_n alloc 0 s = Inr ([], s)"
| "alloc_n alloc (Suc n) s =
     bindR (alloc s) (\<lambda>(a, s). bindR (alloc_n alloc n s) (\<lambda>(as, s). Inr (a # as, s)))"

context frame_source begin

lemma alloc_inv: "inv s \<Longrightarrow> alloc s = Inr (a, t) \<Longrightarrow> inv t"
  using alloc_total by fastforce

lemma alloc_mono: "inv s \<Longrightarrow> alloc s = Inr (a, t) \<Longrightarrow> avail t \<subseteq> avail s"
  using alloc_fresh alloc_null by (cases "a = 0") blast+

lemma alloc_n_distinct:
  assumes "inv s" "alloc_n alloc n s = Inr (as, t)" "0 \<notin> set as"
  shows "distinct as \<and> set as \<subseteq> avail s \<and> avail t = avail s - set as \<and> inv t"
  using assms
proof (induction n arbitrary: s as)
  case 0
  then show ?case by simp
next
  case (Suc n)
  from Suc.prems(2) obtain a s' as' where step: "alloc s = Inr (a, s')"
    "alloc_n alloc n s' = Inr (as', t)" "as = a # as'"
    by (auto elim!: bindR_eq_InrE)
  have a: "a \<in> avail s" "avail s' = avail s - {a}"
    using alloc_fresh[OF Suc.prems(1) step(1)] Suc.prems(3) step(3) by auto
  have "distinct as' \<and> set as' \<subseteq> avail s' \<and> avail t = avail s' - set as' \<and> inv t"
    using Suc.prems step alloc_inv by (intro Suc.IH[OF _ step(2)]) auto
  with a step(3) show ?case by auto
qed

lemma alloc_n_total:
  assumes "inv s"
  shows "\<exists>as t. alloc_n alloc n s = Inr (as, t) \<and> inv t \<and> length as = n \<and>
    distinct (filter (\<lambda>a. a \<noteq> 0) as) \<and> set (filter (\<lambda>a. a \<noteq> 0) as) \<subseteq> avail s \<and>
    avail t \<subseteq> avail s - set as"
  using assms
proof (induction n arbitrary: s)
  case 0
  then show ?case by simp
next
  case (Suc n)
  obtain a s' where step: "alloc s = Inr (a, s')" "inv s'" using alloc_total[OF Suc.prems] by blast
  obtain as t where rest: "alloc_n alloc n s' = Inr (as, t)" "inv t" "length as = n"
    "distinct (filter (\<lambda>a. a \<noteq> 0) as)" "set (filter (\<lambda>a. a \<noteq> 0) as) \<subseteq> avail s'" "avail t \<subseteq> avail s' - set as"
    using Suc.IH[OF step(2)] by blast
  have mono: "avail s' \<subseteq> avail s" using alloc_mono[OF Suc.prems step(1)] .
  have "alloc_n alloc (Suc n) s = Inr (a # as, t)" using step rest by simp
  moreover have "distinct (filter (\<lambda>a. a \<noteq> 0) (a # as)) \<and> set (filter (\<lambda>a. a \<noteq> 0) (a # as)) \<subseteq> avail s
      \<and> avail t \<subseteq> avail s - set (a # as)"
  proof (cases "a = 0")
    case True
    moreover have "0 \<notin> avail s" using avail_frame[OF Suc.prems] by blast
    ultimately show ?thesis using rest(4-6) mono by auto
  next
    case False
    then show ?thesis using alloc_fresh[OF Suc.prems step(1) False] rest(4-6) mono by auto
  qed
  ultimately show ?case using rest by auto
qed

end

text \<open>The frame-by-frame allocator \<open>kalloc_frame_int\<close> is a frame source.\<close>

definition int_inv :: "pfa \<Rightarrow> bool" where
  "int_inv s \<longleftrightarrow> pfa_wf s \<and> 0 \<notin> free_frames s"

definition int_avail :: "pfa \<Rightarrow> u64 set" where
  "int_avail s = frame_addr ` free_frames s"

lemma int_inv_bounds: "int_inv s \<Longrightarrow> n \<in> free_frames s \<Longrightarrow> 0 < n \<and> n < 2 ^ 32"
  using free_frames_bound[of s n] by (auto simp: int_inv_def intro: gr0I)

lemma frame_addr_frame:
  "0 < n \<Longrightarrow> n < 2 ^ 32 \<Longrightarrow> frame_addr n \<noteq> 0 \<and> 4096 dvd unat (frame_addr n) \<and> unat (frame_addr n) < 2 ^ 44"
  using unat_frame_addr[of n] frame_addr_eq_0[of n] by simp

lemma frame_addr_inj_on: "int_inv s \<Longrightarrow> inj_on frame_addr (free_frames s)"
  using int_inv_bounds frame_addr_inj by (meson inj_onI)

lemma int_avail_diff:
  assumes "int_inv s" "A \<subseteq> free_frames s"
  shows "frame_addr ` (free_frames s - A) = frame_addr ` free_frames s - frame_addr ` A"
  by (rule inj_on_image_set_diff[OF frame_addr_inj_on[OF assms(1)]]) (use assms in auto)

lemma kalloc_frame_int_cases:
  assumes "int_inv s"
  obtains (none) "free_frames s = {}" "kalloc_frame_int s = Inr (0, s)"
  | (some) m t where "m = Min (free_frames s)" "m \<in> free_frames s"
      "kalloc_frame_int s = Inr (frame_addr m, t)" "only_bitmap s t"
      "free_frames t = free_frames s - {m}" "frame_addr m \<noteq> 0" "int_inv t"
proof (cases "free_frames s = {}")
  case True
  with assms kalloc_frame_int_none none show ?thesis by (simp add: int_inv_def)
next
  case False
  let ?m = "Min (free_frames s)"
  have m: "?m \<in> free_frames s" using False by (intro Min_in) simp_all
  obtain t where t: "kalloc_frame_int s = Inr (frame_addr ?m, t)" "only_bitmap s t"
      "free_frames t = free_frames s - {?m}"
    using kalloc_frame_int_some[of s] assms False unfolding int_inv_def by blast
  have "frame_addr ?m \<noteq> 0" using int_inv_bounds[OF assms m] frame_addr_frame[of ?m] by simp
  moreover have "int_inv t"
    using assms t pfa_wf_only_bitmap[OF t(2)] by (simp add: int_inv_def)
  ultimately show ?thesis using some m t by blast
qed

interpretation kint: frame_source kalloc_frame_int int_avail int_inv
proof
  fix s a t
  assume inv: "int_inv s"
  show "\<exists>a t. kalloc_frame_int s = Inr (a, t) \<and> int_inv t"
    by (cases rule: kalloc_frame_int_cases[OF inv]) (use inv in auto)
  show "a \<in> int_avail s \<and> int_avail t = int_avail s - {a}"
    if "kalloc_frame_int s = Inr (a, t)" "a \<noteq> 0"
    by (cases rule: kalloc_frame_int_cases[OF inv])
      (use that int_avail_diff[OF inv] in \<open>auto simp: int_avail_def\<close>)
  show "int_avail t \<subseteq> int_avail s" if "kalloc_frame_int s = Inr (0, t)"
    by (cases rule: kalloc_frame_int_cases[OF inv]) (use that in \<open>auto simp: int_avail_def\<close>)
  show "a \<noteq> 0 \<and> 4096 dvd unat a \<and> unat a < 2 ^ 44" if "a \<in> int_avail s"
    using that int_inv_bounds[OF inv] frame_addr_frame by (auto simp: int_avail_def)
qed

subsection \<open>The batching allocator\<close>

text \<open>The frames prefetched by \<open>kalloc_frame\<close> and not yet handed out.\<close>

definition pool :: "pfa \<Rightarrow> u64 list" where
  "pool s = (if allocate s = 1 \<or> pframe s = 20 then [] else drop (unat (pframe s)) (pre_frames s))"

definition frame_inv :: "pfa \<Rightarrow> bool" where
  "frame_inv s \<longleftrightarrow> int_inv s \<and> unat (pframe s) \<le> 20 \<and> distinct (pool s) \<and>
     (\<forall>a\<in>set (pool s). \<exists>n. a = frame_addr n \<and> n \<notin> free_frames s \<and> 0 < n \<and> n < 2 ^ 32)"

definition frame_avail :: "pfa \<Rightarrow> u64 set" where
  "frame_avail s = frame_addr ` free_frames s \<union> set (pool s)"

definition refilled :: "pfa \<Rightarrow> nat \<Rightarrow> nat \<Rightarrow> unit option \<Rightarrow> pfa \<Rightarrow> bool" where
  "refilled s lo n r t \<longleftrightarrow> int_inv t \<and> allocate t = allocate s \<and> pframe t = pframe s \<and>
     take lo (pre_frames t) = take lo (pre_frames s) \<and>
     (case r of
        None \<Rightarrow> \<exists>ns. length ns = n \<and> distinct ns \<and> set ns \<subseteq> free_frames s \<and>
                  free_frames t = free_frames s - set ns \<and>
                  take n (drop lo (pre_frames t)) = map frame_addr ns
      | Some _ \<Rightarrow> free_frames t = {} \<and> card (free_frames s) < n)"

lemma free_frames_pre_frames [simp]:
  "free_frames (s\<lparr>pre_frames := p\<rparr>) = free_frames s" "free_frames (s\<lparr>console := c\<rparr>) = free_frames s"
  "free_frames (s\<lparr>pframe := w, allocate := v\<rparr>) = free_frames s" "free_frames (s\<lparr>pframe := w\<rparr>) = free_frames s"
  "free_frames (s\<lparr>allocate := v\<rparr>) = free_frames s"
  by (simp_all add: free_frames_def)

lemma int_inv_pre_frames [simp]:
  "length p = 20 \<Longrightarrow> int_inv s \<Longrightarrow> int_inv (s\<lparr>pre_frames := p\<rparr>)"
  "int_inv (s\<lparr>console := c\<rparr>) = int_inv s" "int_inv (s\<lparr>pframe := w\<rparr>) = int_inv s"
  "int_inv (s\<lparr>allocate := v\<rparr>) = int_inv s" "int_inv (s\<lparr>pframe := w, allocate := v\<rparr>) = int_inv s"
  by (simp_all add: int_inv_def pfa_wf_def)

lemma int_inv_length: "int_inv s \<Longrightarrow> length (pre_frames s) = 20"
  by (simp add: int_inv_def pfa_wf_def)

lemma refill_loop:
  assumes "int_inv s" "lo + n \<le> 20"
  shows "\<exists>r t. find_range refill_slot lo n s = Inr (r, t) \<and> refilled s lo n r t"
  using assms
proof (induction n arbitrary: lo s)
  case 0
  then show ?case by (simp add: refilled_def)
next
  case (Suc n)
  from Suc.prems(1) show ?case
  proof (cases rule: kalloc_frame_int_cases)
    case none
    then have "find_range refill_slot lo (Suc n) s =
        Inr (Some (), pfa_print ''out of frames'' (s\<lparr>pre_frames := (pre_frames s)[lo := 0]\<rparr>))"
      by (simp add: refill_slot_def)
    then show ?thesis using none Suc.prems int_inv_length[OF Suc.prems(1)]
      by (simp add: refilled_def pfa_print_def)
  next
    case (some m t)
    let ?s = "t\<lparr>pre_frames := (pre_frames t)[lo := frame_addr m]\<rparr>"
    note keep = only_bitmapD[OF some(4)]
    have step: "find_range refill_slot lo (Suc n) s = find_range refill_slot (Suc lo) n ?s"
      using some by (simp add: refill_slot_def)
    have inv: "int_inv ?s" using some int_inv_length[OF some(7)] by simp
    then obtain r u where u: "find_range refill_slot (Suc lo) n ?s = Inr (r, u)" "refilled ?s (Suc lo) n r u"
      using Suc.IH[of ?s "Suc lo"] Suc.prems(2) by auto
    have len: "lo < length (pre_frames u)" "lo < length (pre_frames t)"
      using u(2) int_inv_length[of u] int_inv_length[OF some(7)] Suc.prems(2) by (auto simp: refilled_def)
    have tk: "take (Suc lo) (pre_frames u) = take lo (pre_frames s) @ [frame_addr m]"
      using u(2) len keep by (simp add: refilled_def take_Suc_conv_app_nth)
    then have lo: "take lo (pre_frames u) = take lo (pre_frames s)" "pre_frames u ! lo = frame_addr m"
      using len keep by (simp_all add: take_Suc_conv_app_nth)
    have "refilled s lo (Suc n) r u"
    proof (cases r)
      case None
      then obtain ns where ns: "length ns = n" "distinct ns" "set ns \<subseteq> free_frames t"
          "free_frames u = free_frames t - set ns" "take n (drop (Suc lo) (pre_frames u)) = map frame_addr ns"
        using u(2) by (auto simp: refilled_def)
      have "take (Suc n) (drop lo (pre_frames u)) = map frame_addr (m # ns)"
        using ns(5) lo(2) len(1) by (simp flip: Cons_nth_drop_Suc)
      then show ?thesis
        using None ns some u(2) keep lo(1) by (auto simp: refilled_def intro!: exI[of _ "m # ns"])
    next
      case (Some x)
      have "card (free_frames s) = Suc (card (free_frames t))"
        using some by (metis card_Suc_Diff1 finite_free_frames)
      with Some show ?thesis using u(2) some keep lo(1) by (simp add: refilled_def)
    qed
    with step u(1) show ?thesis by auto
  qed
qed

lemma take_pre_frame_ok:
  assumes "int_inv s" "allocate s \<noteq> 1" "unat (pframe s) < 20"
  shows "\<exists>t. take_pre_frame s = Inr (pre_frames s ! unat (pframe s), t) \<and> int_inv t \<and>
    free_frames t = free_frames s \<and> unat (pframe t) \<le> 20 \<and> pool s = pre_frames s ! unat (pframe s) # pool t"
proof -
  have len: "length (pre_frames s) = 20" using assms(1) by (rule int_inv_length)
  have p: "unat (pframe s + 1) = Suc (unat (pframe s))"
    using assms(3) by (simp add: unat_word_ariths)
  have "pframe s \<noteq> 20" using assms(3) by auto
  then have "pool s = pre_frames s ! unat (pframe s) # drop (Suc (unat (pframe s))) (pre_frames s)"
    using assms len by (simp add: pool_def Cons_nth_drop_Suc)
  moreover have "drop (Suc (unat (pframe s))) (pre_frames s) = pool (s\<lparr>pframe := pframe s + 1\<rparr>)"
    using assms(2) len p by (auto simp: pool_def dest: arg_cong[of _ _ unat])
  ultimately show ?thesis using assms len p by (simp add: take_pre_frame_def)
qed

lemma kalloc_frame_cases:
  assumes "frame_inv s"
  obtains (pooled) a t where "kalloc_frame s = Inr (a, t)" "pool s = a # pool t"
      "free_frames t = free_frames s" "frame_inv t"
  | (refill) n ns t where "pool s = []" "20 \<le> card (free_frames s)" "kalloc_frame s = Inr (frame_addr n, t)"
      "distinct (n # ns)" "set (n # ns) \<subseteq> free_frames s" "pool t = map frame_addr ns"
      "free_frames t = free_frames s - set (n # ns)" "frame_inv t" "length ns = 19"
  | (empty) t where "pool s = []" "card (free_frames s) < 20" "kalloc_frame s = Inr (0, t)"
      "free_frames t = {}" "pool t = []" "frame_inv t"
proof (cases "allocate s = 1 \<or> pframe s = 20")
  case False
  have int: "int_inv s" "unat (pframe s) < 20"
    using assms False word_unat_eq_iff[of "pframe s" 20] by (auto simp: frame_inv_def)
  obtain t where t: "take_pre_frame s = Inr (pre_frames s ! unat (pframe s), t)" "int_inv t"
    "free_frames t = free_frames s" "unat (pframe t) \<le> 20" "pool s = pre_frames s ! unat (pframe s) # pool t"
    using take_pre_frame_ok[of s] int False by blast
  have "kalloc_frame s = take_pre_frame s" using False by (simp add: kalloc_frame_def)
  moreover have "frame_inv t" using assms t by (auto simp: frame_inv_def)
  ultimately show ?thesis using pooled t by auto
next
  case True
  let ?s = "if pframe s = 20 then s\<lparr>allocate := 1\<rparr> else s"
  have pool: "pool s = []" using True by (auto simp: pool_def)
  have inv: "int_inv s" "int_inv ?s" using assms by (auto simp: frame_inv_def)
  have all1: "allocate ?s = 1" using True by auto
  obtain r t where t: "find_range refill_slot 0 20 ?s = Inr (r, t)" "refilled ?s 0 20 r t"
    using refill_loop[OF inv(2), of 0 20] by auto
  have kf: "kalloc_frame s = (case r of Some _ \<Rightarrow> Inr (0, t) | None \<Rightarrow> take_pre_frame (t\<lparr>pframe := 0, allocate := 0\<rparr>))"
    using t(1) all1 by (simp add: kalloc_frame_def Let_def split: option.split)
  have fs: "free_frames ?s = free_frames s" by simp
  show ?thesis
  proof (cases r)
    case (Some x)
    then have "pool t = []" "unat (pframe t) \<le> 20" "int_inv t" "free_frames t = {}" "card (free_frames s) < 20"
      using t(2) all1 assms fs by (auto simp: refilled_def pool_def frame_inv_def)
    with Some pool kf empty show ?thesis by (simp add: frame_inv_def)
  next
    case None
    then obtain ns where ns: "length ns = 20" "distinct ns" "set ns \<subseteq> free_frames s"
      "free_frames t = free_frames s - set ns" "take 20 (pre_frames t) = map frame_addr ns" "int_inv t"
      using t(2) fs by (auto simp: refilled_def)
    let ?t = "t\<lparr>pframe := 0, allocate := 0\<rparr>"
    have pre: "pre_frames ?t = map frame_addr ns" using ns int_inv_length by simp
    obtain n ns' where nn: "ns = n # ns'" using ns(1) by (cases ns) auto
    obtain u where u: "take_pre_frame ?t = Inr (pre_frames ?t ! 0, u)" "int_inv u"
      "free_frames u = free_frames t" "unat (pframe u) \<le> 20" "pool ?t = pre_frames ?t ! 0 # pool u"
      using take_pre_frame_ok[of ?t] ns(6) by auto
    have "pool ?t = pre_frames ?t" by (simp add: pool_def)
    then have pu: "pool u = map frame_addr ns'" using u(5) pre nn by simp
    have b: "0 < m \<and> m < 2 ^ 32" if "m \<in> set ns" for m using that ns(3) int_inv_bounds[OF inv(1)] by blast
    have "inj_on frame_addr (set ns)" using frame_addr_inj_on[OF inv(1)] ns(3) by (rule inj_on_subset)
    then have "distinct (map frame_addr ns')" using ns(2) nn by (simp add: distinct_map)
    moreover have "\<forall>a\<in>set (pool u). \<exists>n. a = frame_addr n \<and> n \<notin> free_frames u \<and> 0 < n \<and> n < 2 ^ 32"
      using pu b nn u(3) ns(4) by auto
    ultimately have "frame_inv u" using u pu by (simp add: frame_inv_def)
    moreover have "20 \<le> card (free_frames s)" using ns by (metis card_mono distinct_card finite_free_frames)
    ultimately show ?thesis using refill pool kf None u pre nn ns pu by simp
  qed
qed

interpretation kframe: frame_source kalloc_frame frame_avail frame_inv
proof
  fix s a t
  assume inv: "frame_inv s"
  then have int: "int_inv s" by (simp add: frame_inv_def)
  show "\<exists>a t. kalloc_frame s = Inr (a, t) \<and> frame_inv t"
    by (cases rule: kalloc_frame_cases[OF inv]) auto
  show range: "a \<noteq> 0 \<and> 4096 dvd unat a \<and> unat a < 2 ^ 44" if "a \<in> frame_avail s" for a
    using that inv int_inv_bounds[OF int] frame_addr_frame
    by (auto simp: frame_avail_def frame_inv_def)
  show "a \<in> frame_avail s \<and> frame_avail t = frame_avail s - {a}"
    if ka: "kalloc_frame s = Inr (a, t)" "a \<noteq> 0"
  proof (cases rule: kalloc_frame_cases[OF inv])
    case (1 a' t')
    have "a \<notin> frame_addr ` free_frames s"
      using 1 ka inv int_inv_bounds[OF int] frame_addr_inj by (auto simp: frame_inv_def)
    with 1 ka inv show ?thesis by (auto simp: frame_avail_def frame_inv_def)
  next
    case (2 n ns t')
    then have "frame_addr n \<notin> frame_addr ` set ns"
      using inj_on_image_mem_iff[OF frame_addr_inj_on[OF int], of n "set ns"] by simp
    with 2 ka int_avail_diff[OF int 2(5)] show ?thesis
      by (auto simp: frame_avail_def)
  next
    case 3
    with ka show ?thesis by simp
  qed
  show "frame_avail t \<subseteq> frame_avail s" if "kalloc_frame s = Inr (0, t)"
    using that by (cases rule: kalloc_frame_cases[OF inv]) (auto simp: frame_avail_def)
qed

text \<open>How many more calls of \<open>kalloc_frame\<close> return a frame.\<close>

definition frame_budget :: "pfa \<Rightarrow> nat" where
  "frame_budget s = length (pool s) + 20 * (card (free_frames s) div 20)"

lemma kalloc_frame_budget:
  assumes inv: "frame_inv s" and some: "0 < frame_budget s"
  shows "\<exists>f t. kalloc_frame s = Inr (f, t) \<and> f \<in> frame_avail s \<and> frame_avail t = frame_avail s - {f} \<and>
    frame_inv t \<and> frame_budget s = Suc (frame_budget t)"
proof -
  obtain f t where ft: "kalloc_frame s = Inr (f, t)" "frame_inv t" using kframe.alloc_total[OF inv] by blast
  from inv have "f \<noteq> 0 \<and> frame_budget s = Suc (frame_budget t)"
  proof (cases rule: kalloc_frame_cases)
    case (pooled a t')
    have "a \<in> frame_avail s" using pooled by (simp add: frame_avail_def)
    with pooled ft kframe.avail_frame[OF inv, of a] show ?thesis by (simp add: frame_budget_def)
  next
    case (refill n ns t')
    have "card (set (n # ns)) = 20" using refill(4,9) distinct_card by fastforce
    then have "card (free_frames t) = card (free_frames s) - 20"
      using refill ft card_Diff_subset[of "set (n # ns)" "free_frames s"] by simp
    moreover have "n \<in> free_frames s" using refill by simp
    then have "frame_addr n \<noteq> 0" using int_inv_bounds[of s n] frame_addr_frame[of n] inv
      by (simp add: frame_inv_def)
    moreover have "card (free_frames s) div 20 = Suc ((card (free_frames s) - 20) div 20)"
      using refill(2) by (simp add: le_div_geq)
    ultimately show ?thesis using refill ft by (simp add: frame_budget_def)
  next
    case (empty t')
    with some show ?thesis by (simp add: frame_budget_def)
  qed
  then show ?thesis using ft kframe.alloc_fresh[OF inv ft(1)] by auto
qed

lemma kalloc_frame_null:
  assumes inv: "frame_inv s" and none: "frame_budget s = 0"
  shows "\<exists>t. kalloc_frame s = Inr (0, t) \<and> frame_inv t \<and> frame_budget t = 0"
  using inv
proof (cases rule: kalloc_frame_cases)
  case (pooled a t)
  with none show ?thesis by (simp add: frame_budget_def)
next
  case (refill n ns t)
  with none show ?thesis by (simp add: frame_budget_def)
next
  case (empty t)
  then show ?thesis by (simp add: frame_budget_def)
qed

lemma alloc_n_budget:
  "frame_inv s \<Longrightarrow> alloc_n kalloc_frame n s = Inr (as, t) \<Longrightarrow>
    takeWhile (\<lambda>a. a \<noteq> 0) as = take (frame_budget s) as \<and> set (drop (frame_budget s) as) \<subseteq> {0}"
proof (induction n arbitrary: s as)
  case 0
  then show ?case by simp
next
  case (Suc n)
  then obtain a s' as' where step: "kalloc_frame s = Inr (a, s')"
    "alloc_n kalloc_frame n s' = Inr (as', t)" "as = a # as'"
    by (auto elim!: bindR_eq_InrE)
  have IH: "takeWhile (\<lambda>a. a \<noteq> 0) as' = take (frame_budget s') as'" "set (drop (frame_budget s') as') \<subseteq> {0}"
    using Suc.IH[OF _ step(2)] kframe.alloc_inv[OF Suc.prems(1) step(1)] by auto
  show ?case
  proof (cases "frame_budget s")
    case 0
    with kalloc_frame_null[OF Suc.prems(1)] step(1) have "a = 0" "frame_budget s' = 0" by auto
    with 0 IH step(3) show ?thesis by simp
  next
    case (Suc b)
    with kalloc_frame_budget[OF Suc.prems(1)] step(1) kframe.avail_frame[OF Suc.prems(1), of a]
    have "a \<noteq> 0" "frame_budget s' = b" by auto
    with Suc IH step(3) show ?thesis by simp
  qed
qed

subsection \<open>Properties of the frame allocator\<close>

text \<open>
  An allocator over two bitmap words whose frames 8 to 31 are free, used as the concrete
  input of the witnesses.
\<close>

definition pfa_example :: pfa where
  "pfa_example = pfa_boot\<lparr>npages := 64, bitmap := [0xff, 0xffffffff]\<rparr>"

lemma free_frames_list:
  "free_frames s = set (filter (\<lambda>n. \<not> bit_at (bitmap s) n) [0..<32 * length (bitmap s)])"
  by (auto simp: free_frames_def)

lemma pfa_example_free: "free_frames pfa_example = {8..<32}"
proof -
  have "filter (\<lambda>n. \<not> bit_at [0xff, 0xffffffff] n) [0..<64] = [8..<32]" by code_simp
  then show ?thesis by (simp add: free_frames_list pfa_example_def del: upt_rec_numeral)
qed

lemma pfa_example_inv: "frame_inv pfa_example"
proof -
  have "unat (bitmap_words 64) = 2" by code_simp
  then show ?thesis using pfa_example_free
    by (auto simp: frame_inv_def int_inv_def pfa_wf_def pool_def pfa_example_def pfa_boot_def)
qed

lemma pfa_example_budget: "frame_budget pfa_example = 20"
  by (simp add: frame_budget_def pfa_example_free) (simp add: pool_def pfa_example_def pfa_boot_def)

text \<open>
  C1. However often \<open>kalloc_frame\<close> is called, it returns every time without leaving the
  bitmap, no frame is handed out twice, every frame handed out was available before and is
  available no more, and the results are frames for exactly as many calls as there are
  prefetched frames and full batches of 20 free frames, null pointers afterwards.
\<close>

theorem kalloc_frame_never_twice:
  assumes "frame_inv s"
  shows "\<exists>as t. alloc_n kalloc_frame n s = Inr (as, t) \<and> frame_inv t \<and> length as = n \<and>
    takeWhile (\<lambda>a. a \<noteq> 0) as = take (frame_budget s) as \<and> set (drop (frame_budget s) as) \<subseteq> {0} \<and>
    distinct (take (frame_budget s) as) \<and> set (take (frame_budget s) as) \<subseteq> frame_avail s \<and>
    frame_avail t \<subseteq> frame_avail s - set as"
proof -
  obtain as t where as: "alloc_n kalloc_frame n s = Inr (as, t)" "frame_inv t" "length as = n"
    "distinct (filter (\<lambda>a. a \<noteq> 0) as)" "set (filter (\<lambda>a. a \<noteq> 0) as) \<subseteq> frame_avail s"
    "frame_avail t \<subseteq> frame_avail s - set as" using kframe.alloc_n_total[OF assms] by blast
  note b = alloc_n_budget[OF assms as(1)]
  have "filter (\<lambda>a. a \<noteq> 0) as = filter (\<lambda>a. a \<noteq> 0) (take (frame_budget s) as) @ filter (\<lambda>a. a \<noteq> 0) (drop (frame_budget s) as)"
    by (metis append_take_drop_id filter_append)
  also have "filter (\<lambda>a. a \<noteq> 0) (drop (frame_budget s) as) = []" using b by (auto simp: filter_empty_conv)
  also have "filter (\<lambda>a. a \<noteq> 0) (take (frame_budget s) as) = take (frame_budget s) as"
    by (metis (no_types, lifting) b filter_True set_takeWhileD)
  finally show ?thesis using as b by auto
qed

theorem kalloc_frame_never_twice_witness:
  "\<exists>as t. alloc_n kalloc_frame 25 pfa_example = Inr (as, t) \<and> length as = 25 \<and>
    takeWhile (\<lambda>a. a \<noteq> 0) as = take 20 as \<and> distinct (take 20 as) \<and> set (drop 20 as) \<subseteq> {0}"
  using kalloc_frame_never_twice[OF pfa_example_inv, of 25] unfolding pfa_example_budget by blast

text \<open>
  C9. \<open>kalloc_frame_int\<close> is first fit: it returns the address of the lowest free frame and
  marks exactly that frame used, or returns a null pointer and changes nothing when no
  frame is free.
\<close>

theorem kalloc_frame_int_first_fit:
  assumes "pfa_wf s"
  shows "if free_frames s = {} then kalloc_frame_int s = Inr (0, s)
    else \<exists>t. kalloc_frame_int s = Inr (frame_addr (Min (free_frames s)), t) \<and> only_bitmap s t \<and>
      free_frames t = free_frames s - {Min (free_frames s)}"
  using kalloc_frame_int_none[OF assms] kalloc_frame_int_some[OF assms] by auto

theorem kalloc_frame_int_first_fit_witness:
  "\<exists>t. kalloc_frame_int pfa_example = Inr (0x8000, t) \<and> free_frames t = {9..<32}"
proof -
  have "Min (free_frames pfa_example) = 8" unfolding pfa_example_free by (rule Min_eqI) auto
  moreover have "{8..<32} - {8} = {9..<32::nat}" by auto
  ultimately show ?thesis
    using kalloc_frame_int_first_fit[of pfa_example] pfa_example_free pfa_example_inv
    by (auto simp: frame_inv_def int_inv_def frame_addr_def)
qed

text \<open>
  Freeing the frame that \<open>kalloc_frame_int\<close> has just handed out gives back exactly the
  free frames there were, and a further allocation hands out the same frame again.
\<close>

theorem kfree_frame_roundtrip:
  assumes "int_inv s" "kalloc_frame_int s = Inr (a, t)" "a \<noteq> 0"
  shows "\<exists>u v. kfree_frame a t = Inr u \<and> only_bitmap s u \<and> free_frames u = free_frames s \<and>
    kalloc_frame_int u = Inr (a, v)"
proof -
  from assms(1) obtain m where m: "m = Min (free_frames s)" "m \<in> free_frames s" "a = frame_addr m"
    "only_bitmap s t" "free_frames t = free_frames s - {m}"
    by (cases rule: kalloc_frame_int_cases) (use assms in auto)
  have b: "m < 2 ^ 32" "pfa_wf s" using int_inv_bounds[OF assms(1) m(2)] assms(1) by (auto simp: int_inv_def)
  have um: "unat (of_nat m :: u32) = m" using b(1) by (simp add: unat_of_nat)
  have len: "m < 32 * length (bitmap t)" using m(2) only_bitmapD(2)[OF m(4)] by (simp add: free_frames_def)
  then obtain u where u: "kfree_frame a t = Inr u" "only_bitmap t u" "free_frames u = free_frames t \<union> {m}"
    using bm_clear_ok[of "of_nat m" t] um frame_addr_div[OF b(1)] m(3) by (auto simp: kfree_frame_def)
  have su: "only_bitmap s u" using only_bitmap_trans[OF m(4) u(2)] .
  have fu: "free_frames u = free_frames s" using u(3) m(2,5) by auto
  have "pfa_wf u" "free_frames u \<noteq> {}" using pfa_wf_only_bitmap[OF su] b(2) fu m(2) by auto
  from kalloc_frame_int_some[OF this] obtain v where "kalloc_frame_int u = Inr (a, v)"
    using fu m(1,3) by metis
  with u(1) su fu show ?thesis by blast
qed

theorem kfree_frame_roundtrip_witness:
  "\<exists>t u. kalloc_frame_int pfa_example = Inr (0x8000, t) \<and> kfree_frame 0x8000 t = Inr u \<and>
    free_frames u = {8..<32}"
proof -
  have "kalloc_frame_int pfa_example = Inr (0x8000, pfa_example\<lparr>bitmap := [0x1ff, 0xffffffff]\<rparr>)" by code_simp
  from kfree_frame_roundtrip[OF _ this] this show ?thesis
    using pfa_example_inv by (auto simp: frame_inv_def pfa_example_free)
qed

end
