(* ===== verification/Nya_Pfa_Range.thy ===== *)
theory Nya_Pfa_Range
  imports Nya_Pfa
begin

unbundle bit_operations_syntax

section \<open>The page frame allocator: ranges of frames\<close>

text \<open>
  What \<open>set_range\<close>, \<open>clear_range\<close>, \<open>test_range\<close>, \<open>kalloc_frames\<close> and \<open>kfree_frames\<close>
  of \<open>pfa.c\<close> do to the set of free frames. The masks of the range operations are built
  from 64-bit words of ones and then narrowed to 32 bits, so the end of the range is
  rounded up to the end of its bitmap word (\<open>range_frames\<close>).
\<close>

subsection \<open>Ranges of frames\<close>

text \<open>
  Frames \<open>32 * k + b\<close> to the end of word \<open>k\<close>: what a word with the bits from \<open>b\<close> up
  covers.
\<close>

lemma tail_of_word:
  "n div 32 = k \<Longrightarrow> b \<le> n mod 32 \<longleftrightarrow> n \<in> {32 * k + b..<32 * k + (32 :: nat)}"
proof -
  assume "n div 32 = k"
  then have "n = 32 * k + n mod 32" "n mod 32 < 32" using div_mult_mod_eq[of n 32] by auto
  then show ?thesis unfolding atLeastLessThan_iff by linarith
qed

lemma tail_of_word_sub: "{32 * k + b..<32 * k + 32} \<subseteq> {n. n div 32 = (k :: nat)}"
  by auto

lemma store_or_tail:
  assumes "k < length (bitmap s)" "\<And>n. n < 32 \<Longrightarrow> bit v n \<longleftrightarrow> b \<le> n"
  shows "free_frames (s\<lparr>bitmap := (bitmap s)[k := bitmap s ! k OR v]\<rparr>) =
    free_frames s - {32 * k + b..<32 * k + 32}"
  by (rule free_frames_store_or[OF assms(1) tail_of_word_sub])
    (simp add: assms(2) bit_or_iff bit_at_def tail_of_word)

lemma store_and_tail:
  assumes "k < length (bitmap s)" "\<And>n. n < 32 \<Longrightarrow> bit v n \<longleftrightarrow> b \<le> n"
  shows "free_frames (s\<lparr>bitmap := (bitmap s)[k := bitmap s ! k AND NOT v]\<rparr>) =
    free_frames s \<union> {32 * k + b..<32 * k + 32}"
  by (rule free_frames_store_and[OF assms(1) tail_of_word_sub])
    (simp add: assms(2) bit_and_iff bit_not_iff bit_at_def tail_of_word)

lemma bit_from_start:
  "n < 32 \<Longrightarrow> bit (ucast (push_bit b (- 1 :: u64)) :: u32) n \<longleftrightarrow> b \<le> n"
  by (auto simp: bit_ucast_iff bit_not_iff bit_mask_iff)

text \<open>Shifting a 64-bit word of ones right by at most 31 leaves all 32 low bits set.\<close>

lemma bit_upto_end:
  "n < 32 \<Longrightarrow> k \<le> 31 \<Longrightarrow> bit (ucast (drop_bit k (- 1 :: u64)) :: u32) n"
  by (simp add: bit_ucast_iff bit_drop_bit_eq bit_mask_iff)

lemma end_shift_bound: "unat (31 - (stop AND 0x1f) :: u64) \<le> 31"
proof -
  have "stop AND 0x1f \<le> (31 :: u64)" by (rule word_and_le1)
  then have "31 - (stop AND 0x1f) \<le> (31 :: u64)" by (simp add: word_sub_le_iff)
  then show ?thesis by (simp add: word_le_nat_alt)
qed

lemma narrow_or: "ucast (ucast w OR (x :: u64)) = (w :: u32) OR ucast x"
  by (rule bit_word_eqI) (simp add: bit_or_iff bit_ucast_iff)

lemma narrow_and_not: "ucast (ucast w AND NOT (x :: u64)) = (w :: u32) AND NOT (ucast x)"
  by (rule bit_word_eqI) (simp add: bit_and_iff bit_not_iff bit_ucast_iff)

lemma word_range_Suc:
  "lo \<le> i \<Longrightarrow> {32 * lo..<32 * Suc i} = {32 * lo..<32 * i} \<union> {32 * i..<32 * i + (32 :: nat)}"
  by auto

lemma fill_words:
  assumes "lo + n \<le> length (bitmap s)"
  shows "\<exists>t. for_range (\<lambda>k. bm_store k 0xffffffff) lo n s = Inr t \<and> only_bitmap s t \<and>
    free_frames t = free_frames s - {32 * lo..<32 * (lo + n)}"
proof -
  have "\<exists>t. for_range (\<lambda>k. bm_store k 0xffffffff) lo n s = Inr t \<and>
      (only_bitmap s t \<and> free_frames t = free_frames s - {32 * lo..<32 * (lo + n)})"
  proof (rule for_range_total)
    fix i u
    assume i: "lo \<le> i" "i < lo + n" and u: "only_bitmap s u \<and> free_frames u = free_frames s - {32 * lo..<32 * i}"
    have k: "i < length (bitmap u)" using i u assms only_bitmapD by auto
    have "free_frames (u\<lparr>bitmap := (bitmap u)[i := 0xffffffff]\<rparr>) = free_frames u - {32 * i..<32 * i + 32}"
      by (intro free_frames_store_or[OF k]) auto
    moreover have "only_bitmap s (u\<lparr>bitmap := (bitmap u)[i := 0xffffffff]\<rparr>)"
      using u only_bitmap_trans by auto
    ultimately show "\<exists>t. bm_store i 0xffffffff u = Inr t \<and>
        (only_bitmap s t \<and> free_frames t = free_frames s - {32 * lo..<32 * Suc i})"
      using u k word_range_Suc[OF i(1)] by (simp add: Diff_Un Diff_Int_distrib) blast
  qed auto
  then show ?thesis by auto
qed

lemma clear_words:
  assumes "lo + n \<le> length (bitmap s)"
  shows "\<exists>t. for_range (\<lambda>k. bm_store k 0) lo n s = Inr t \<and> only_bitmap s t \<and>
    free_frames t = free_frames s \<union> {32 * lo..<32 * (lo + n)}"
proof -
  have "\<exists>t. for_range (\<lambda>k. bm_store k 0) lo n s = Inr t \<and>
      (only_bitmap s t \<and> free_frames t = free_frames s \<union> {32 * lo..<32 * (lo + n)})"
  proof (rule for_range_total)
    fix i u
    assume i: "lo \<le> i" "i < lo + n" and u: "only_bitmap s u \<and> free_frames u = free_frames s \<union> {32 * lo..<32 * i}"
    have k: "i < length (bitmap u)" using i u assms only_bitmapD by auto
    have "free_frames (u\<lparr>bitmap := (bitmap u)[i := 0]\<rparr>) = free_frames u \<union> {32 * i..<32 * i + 32}"
      by (intro free_frames_store_and[OF k]) auto
    moreover have "only_bitmap s (u\<lparr>bitmap := (bitmap u)[i := 0]\<rparr>)"
      using u only_bitmap_trans by auto
    ultimately show "\<exists>t. bm_store i 0 u = Inr t \<and>
        (only_bitmap s t \<and> free_frames t = free_frames s \<union> {32 * lo..<32 * Suc i})"
      using u k word_range_Suc[OF i(1)] by (simp add: Un_assoc)
  qed auto
  then show ?thesis by auto
qed

text \<open>
  The frames from \<open>start\<close> to the end of the bitmap word that holds \<open>stop\<close>: what the two
  range operations touch.
\<close>

definition range_frames :: "u64 \<Rightarrow> u64 \<Rightarrow> nat set" where
  "range_frames start stop = {unat start..<32 * (unat stop div 32) + 32}"

lemma range_frames_same_word:
  assumes "unat start div 32 = unat stop div 32"
  shows "range_frames start stop = {32 * (unat start div 32) + unat start mod 32..<32 * (unat start div 32) + 32}"
  unfolding range_frames_def assms[symmetric] by simp

lemma range_frames_split:
  assumes "unat start div 32 < unat stop div 32"
  defines "a \<equiv> unat start div 32" and "b \<equiv> unat stop div 32"
  shows "range_frames start stop =
    {32 * a + unat start mod 32..<32 * a + 32} \<union> {32 * (a + 1)..<32 * (a + 1 + (b - a - 1))} \<union> {32 * b + 0..<32 * b + 32}"
  using assms(1) unfolding range_frames_def a_def b_def by auto

lemma word_index_u64: "unat (drop_bit 5 (i :: u64)) = unat i div 32"
  using unat_shift_right[of 5 i] by simp

lemma same_word_u64: "drop_bit 5 (a :: u64) = drop_bit 5 b \<longleftrightarrow> unat a div 32 = unat b div 32"
  by (metis word_index_u64 word_unat_eq_iff)

lemma set_range_frames:
  assumes "start \<le> stop" "unat stop div 32 < length (bitmap s)"
  shows "\<exists>t. set_range start stop s = Inr t \<and> only_bitmap s t \<and>
    free_frames t = free_frames s - range_frames start stop"
proof -
  let ?a = "unat start div 32" and ?b = "unat stop div 32"
  let ?from = "push_bit (unat (start AND 0x1f)) (- 1) :: u64"
  let ?upto = "drop_bit (unat (31 - (stop AND 0x1f))) (- 1) :: u64"
  have ab: "?a \<le> ?b" using assms(1) by (simp add: word_le_nat_alt div_le_mono)
  have a: "?a < length (bitmap s)" using ab assms(2) by simp
  have from_bits: "bit (ucast ?from :: u32) n \<longleftrightarrow> unat start mod 32 \<le> n" if "n < 32" for n
    using bit_from_start[OF that] by (simp add: and_31_eq_mod)
  have upto_bits: "bit (ucast ?upto :: u32) n" if "n < 32" for n
    by (rule bit_upto_end[OF that end_shift_bound])
  show ?thesis
  proof (cases "?a = ?b")
    case True
    let ?v = "ucast (?from AND ?upto) :: u32"
    have "set_range start stop s = Inr (s\<lparr>bitmap := (bitmap s)[?a := bitmap s ! ?a OR ?v]\<rparr>)"
      using True a assms(1) by (simp add: set_range_def same_word_u64 word_index_u64 not_less)
    moreover have "bit ?v n \<longleftrightarrow> unat start mod 32 \<le> n" if "n < 32" for n
      using that from_bits upto_bits by (simp add: bit_ucast_iff bit_and_iff)
    ultimately show ?thesis
      using store_or_tail[OF a] range_frames_same_word[OF True] by simp
  next
    case False
    let ?s1 = "s\<lparr>bitmap := (bitmap s)[?a := bitmap s ! ?a OR ucast ?from]\<rparr>"
    have f1: "free_frames ?s1 = free_frames s - {32 * ?a + unat start mod 32..<32 * ?a + 32}"
      using store_or_tail[OF a from_bits] by simp
    obtain t where t: "for_range (\<lambda>k. bm_store k 0xffffffff) (?a + 1) (?b - ?a - 1) ?s1 = Inr t"
        "only_bitmap ?s1 t" "free_frames t = free_frames ?s1 - {32 * (?a + 1)..<32 * (?a + 1 + (?b - ?a - 1))}"
      using fill_words[of "?a + 1" "?b - ?a - 1" ?s1] assms(2) ab False by auto
    have b: "?b < length (bitmap t)" using t(2) assms(2) only_bitmapD by auto
    let ?t = "t\<lparr>bitmap := (bitmap t)[?b := bitmap t ! ?b OR ucast ?upto]\<rparr>"
    have f2: "free_frames ?t = free_frames t - {32 * ?b + 0..<32 * ?b + 32}"
      using upto_bits by (intro store_or_tail[OF b]) simp
    have "set_range start stop s = Inr ?t"
      using False a b t(1) assms(1)
      by (simp add: set_range_def same_word_u64 word_index_u64 not_less narrow_or)
    moreover have "only_bitmap s ?t"
      using only_bitmap_trans[OF only_bitmap_trans[OF only_bitmap_store t(2)] only_bitmap_store] .
    moreover have "free_frames ?t = free_frames s - range_frames start stop"
      unfolding f2 t(3) f1 range_frames_split[OF le_neq_implies_less[OF ab False]] by blast
    ultimately show ?thesis by blast
  qed
qed

lemma clear_range_frames:
  assumes "start \<le> stop" "unat stop div 32 < length (bitmap s)"
  shows "\<exists>t. clear_range start stop s = Inr t \<and> only_bitmap s t \<and>
    free_frames t = free_frames s \<union> range_frames start stop"
proof -
  let ?a = "unat start div 32" and ?b = "unat stop div 32"
  let ?from = "push_bit (unat (start AND 0x1f)) (- 1) :: u64"
  let ?upto = "drop_bit (unat (31 - (stop AND 0x1f))) (- 1) :: u64"
  have ab: "?a \<le> ?b" using assms(1) by (simp add: word_le_nat_alt div_le_mono)
  have a: "?a < length (bitmap s)" using ab assms(2) by simp
  have from_bits: "bit (ucast ?from :: u32) n \<longleftrightarrow> unat start mod 32 \<le> n" if "n < 32" for n
    using bit_from_start[OF that] by (simp add: and_31_eq_mod)
  have upto_bits: "bit (ucast ?upto :: u32) n" if "n < 32" for n
    by (rule bit_upto_end[OF that end_shift_bound])
  show ?thesis
  proof (cases "?a = ?b")
    case True
    let ?v = "ucast (?from AND ?upto) :: u32"
    have "clear_range start stop s = Inr (s\<lparr>bitmap := (bitmap s)[?a := bitmap s ! ?a AND NOT ?v]\<rparr>)"
      using True a assms(1) by (simp add: clear_range_def same_word_u64 word_index_u64 not_less)
    moreover have "bit ?v n \<longleftrightarrow> unat start mod 32 \<le> n" if "n < 32" for n
      using that from_bits upto_bits by (simp add: bit_ucast_iff bit_and_iff)
    ultimately show ?thesis
      using store_and_tail[OF a] range_frames_same_word[OF True] by simp
  next
    case False
    let ?s1 = "s\<lparr>bitmap := (bitmap s)[?a := bitmap s ! ?a AND NOT (ucast ?from)]\<rparr>"
    have f1: "free_frames ?s1 = free_frames s \<union> {32 * ?a + unat start mod 32..<32 * ?a + 32}"
      using store_and_tail[OF a from_bits] by simp
    obtain t where t: "for_range (\<lambda>k. bm_store k 0) (?a + 1) (?b - ?a - 1) ?s1 = Inr t"
        "only_bitmap ?s1 t" "free_frames t = free_frames ?s1 \<union> {32 * (?a + 1)..<32 * (?a + 1 + (?b - ?a - 1))}"
      using clear_words[of "?a + 1" "?b - ?a - 1" ?s1] assms(2) ab False by auto
    have b: "?b < length (bitmap t)" using t(2) assms(2) only_bitmapD by auto
    let ?t = "t\<lparr>bitmap := (bitmap t)[?b := bitmap t ! ?b AND NOT (ucast ?upto)]\<rparr>"
    have f2: "free_frames ?t = free_frames t \<union> {32 * ?b + 0..<32 * ?b + 32}"
      using upto_bits by (intro store_and_tail[OF b]) simp
    have "clear_range start stop s = Inr ?t"
      using False a b t(1) assms(1)
      by (simp add: clear_range_def same_word_u64 word_index_u64 not_less narrow_and_not)
    moreover have "only_bitmap s ?t"
      using only_bitmap_trans[OF only_bitmap_trans[OF only_bitmap_store t(2)] only_bitmap_store] .
    moreover have "free_frames ?t = free_frames s \<union> range_frames start stop"
      unfolding f2 t(3) f1 range_frames_split[OF le_neq_implies_less[OF ab False]] by blast
    ultimately show ?thesis by blast
  qed
qed

subsection \<open>Testing a range\<close>

lemma and_eq_0_bits: "(w AND v = 0) \<longleftrightarrow> (\<forall>n < LENGTH('a). bit v n \<longrightarrow> \<not> bit (w :: 'a::len word) n)"
  by (auto simp: word_eq_bits bit_and_iff)

lemma eq_0_bits: "w = 0 \<longleftrightarrow> (\<forall>n < LENGTH('a). \<not> bit (w :: 'a::len word) n)"
  by (auto simp: word_eq_bits)

lemma part_of_word_free:
  assumes "k < length (bitmap s)" "e \<le> 32"
  shows "{32 * k + b..<32 * k + e} \<subseteq> free_frames s \<longleftrightarrow> (\<forall>n < 32. b \<le> n \<and> n < e \<longrightarrow> \<not> bit (bitmap s ! k) n)"
proof
  assume sub: "{32 * k + b..<32 * k + e} \<subseteq> free_frames s"
  show "\<forall>n < 32. b \<le> n \<and> n < e \<longrightarrow> \<not> bit (bitmap s ! k) n"
  proof (intro allI impI)
    fix n assume "n < 32" "b \<le> n \<and> n < e"
    with sub have "32 * k + n \<in> free_frames s" by auto
    with \<open>n < 32\<close> show "\<not> bit (bitmap s ! k) n" by (simp add: free_frames_def bit_at_def)
  qed
next
  assume clear: "\<forall>n < 32. b \<le> n \<and> n < e \<longrightarrow> \<not> bit (bitmap s ! k) n"
  show "{32 * k + b..<32 * k + e} \<subseteq> free_frames s"
  proof
    fix n assume n: "n \<in> {32 * k + b..<32 * k + e}"
    then obtain m where m: "n = 32 * k + m" "b \<le> m" "m < e"
      by (metis add_le_cancel_left atLeastLessThan_iff le_add1 le_trans less_eqE nat_add_left_cancel_less)
    with clear assms show "n \<in> free_frames s" by (auto simp: free_frames_def bit_at_def)
  qed
qed

lemma test_words_ok:
  "ptr + n < length (bitmap s) \<Longrightarrow>
   test_words ptr n s = Inr ({32 * (ptr + 1)..<32 * (ptr + n)} \<subseteq> free_frames s)"
proof (induction n arbitrary: ptr)
  case 0
  then show ?case by simp
next
  case (Suc n)
  have word: "bitmap s ! Suc ptr = 0 \<longleftrightarrow> {32 * Suc ptr..<32 * Suc ptr + 32} \<subseteq> free_frames s"
    using part_of_word_free[of "Suc ptr" s 32 0] Suc.prems by (simp add: eq_0_bits)
  show ?case
  proof (cases "n = 0")
    case True
    then show ?thesis using Suc.prems by simp
  next
    case False
    have "{32 * (ptr + 1)..<32 * (ptr + Suc n)} =
        {32 * Suc ptr..<32 * Suc ptr + 32} \<union> {32 * (Suc ptr + 1)..<32 * (Suc ptr + n)}"
      using False by auto
    then show ?thesis using Suc.prems Suc.IH[of "Suc ptr"] word False by (simp del: mult_Suc_right)
  qed
qed

lemma free_frames_print [simp]: "free_frames (pfa_print m s) = free_frames s"
  and bitmap_print [simp]: "bitmap (pfa_print m s) = bitmap s"
  and npages_print [simp]: "npages (pfa_print m s) = npages s"
  and pre_frames_print [simp]: "pre_frames (pfa_print m s) = pre_frames s"
  by (simp_all add: pfa_print_def)

lemma test_range_ok:
  assumes "start \<le> stop" "stop < length (bitmap s)" "unat s_bit < 32" "unat e_bit < 32"
  shows "test_range start stop s_bit e_bit s =
    Inr ({32 * start + unat s_bit..<32 * stop + unat e_bit} \<subseteq> free_frames s,
         pfa_print ''invalid start and end for test_range\<newline>'' s)"
proof -
  let ?low = "NOT (push_bit (unat s_bit) 1 - 1) :: u32" and ?high = "push_bit (unat e_bit) 1 - 1 :: u32"
  have low: "bit ?low n \<longleftrightarrow> unat s_bit \<le> n" if "n < 32" for n
    using that by (auto simp: bit_not_iff word_bits)
  have high: "bit ?high n \<longleftrightarrow> n < unat e_bit" if "n < 32" for n
    using that by (auto simp: word_bits)
  let ?s = "pfa_print ''invalid start and end for test_range\<newline>'' s"
  have stop: "bitmap s ! stop AND ?high = 0 \<longleftrightarrow> {32 * stop + 0..<32 * stop + unat e_bit} \<subseteq> free_frames s"
    unfolding part_of_word_free[OF assms(2) less_imp_le[OF assms(4)]] and_eq_0_bits using high by simp
  show ?thesis
  proof (cases "start = stop")
    case True
    have "bitmap s ! stop AND (?low AND ?high) = 0 \<longleftrightarrow>
        {32 * stop + unat s_bit..<32 * stop + unat e_bit} \<subseteq> free_frames s"
      unfolding part_of_word_free[OF assms(2) less_imp_le[OF assms(4)]] and_eq_0_bits bit_and_iff
      using low high by simp
    with True assms show ?thesis by (simp add: test_range_def Let_def)
  next
    case False
    have st: "start < length (bitmap s)" using assms by simp
    have first: "bitmap s ! start AND ?low = 0 \<longleftrightarrow>
        {32 * start + unat s_bit..<32 * start + 32} \<subseteq> free_frames s"
      unfolding part_of_word_free[OF st order_refl] and_eq_0_bits using low by simp
    have mid: "test_words start (stop - start) ?s = Inr ({32 * (start + 1)..<32 * stop} \<subseteq> free_frames s)"
      using test_words_ok[of start "stop - start" ?s] assms False by simp
    have "{32 * start + unat s_bit..<32 * stop + unat e_bit} = {32 * start + unat s_bit..<32 * start + 32}
        \<union> {32 * (start + 1)..<32 * stop} \<union> {32 * stop + 0..<32 * stop + unat e_bit}"
      using assms False by auto
    then have "{32 * start + unat s_bit..<32 * stop + unat e_bit} \<subseteq> free_frames s \<longleftrightarrow>
        bitmap s ! start AND ?low = 0 \<and> {32 * (start + 1)..<32 * stop} \<subseteq> free_frames s \<and>
        bitmap s ! stop AND ?high = 0"
      using first stop by simp
    with False st assms mid show ?thesis by (simp add: test_range_def Let_def)
  qed
qed

subsection \<open>Allocating and releasing several frames\<close>

lemma bm_word_bound: "bm_word s k = Inr w \<Longrightarrow> k < length (bitmap s)"
  by (simp add: bm_word_def split: if_splits)

lemma bm_store_length: "bm_store k w s = Inr t \<Longrightarrow> length (bitmap t) = length (bitmap s)"
  by (auto simp: bm_store_def split: if_splits)

lemma for_store_length:
  assumes "for_range (\<lambda>k. bm_store k w) lo n s = Inr t"
  shows "length (bitmap t) = length (bitmap s)"
  using for_range_invariant[where P = "\<lambda>_ u. length (bitmap u) = length (bitmap s)", OF assms refl]
  by (simp add: bm_store_length)

text \<open>A range operation that returns has its whole range inside the bitmap.\<close>

lemma set_range_bound:
  assumes "set_range start stop s = Inr t" "start \<le> stop"
  shows "unat stop div 32 < length (bitmap s)"
proof -
  have "\<not> stop < start" using assms(2) by simp
  with assms(1) show ?thesis
    unfolding set_range_def Let_def same_word_u64 word_index_u64
    by (auto split: if_splits elim!: bindR_eq_InrE
        dest!: bm_word_bound bm_store_length for_store_length)
qed

lemma test_range_bound:
  assumes "test_range start stop s_bit e_bit s = Inr (True, t)"
  shows "stop < length (bitmap s)"
  using assms
  by (auto simp: test_range_def Let_def split: if_splits elim!: bindR_eq_InrE dest!: bm_word_bound)

lemma kalloc_end_bit:
  assumes "j < 32"
  shows "unat (ucast ((frames - (32 - of_nat j)) mod 32 :: u64) :: u32) = (unat frames + j) mod 32"
proof -
  have "frames - (32 - of_nat j) = (word_of_int (uint frames + int j - 32) :: u64)" by simp
  then have "uint (frames - (32 - of_nat j)) = (uint frames + int j - 32) mod 2 ^ LENGTH(64)"
    by (metis uint_word_of_int)
  moreover have "(x - 32) mod 2 ^ LENGTH(64) mod 32 = x mod 32" for x :: int
    by (simp add: mod_mod_cancel)
  ultimately have "uint (frames - (32 - of_nat j)) mod 32 = (uint frames + int j) mod 32" by metis
  then have "uint (ucast ((frames - (32 - of_nat j)) mod 32 :: u64) :: u32) = (uint frames + int j) mod 32"
    by (simp add: uint_mod unsigned_ucast_eq take_bit_eq_mod)
  then have "int (unat (ucast ((frames - (32 - of_nat j)) mod 32 :: u64) :: u32)) = int ((unat frames + j) mod 32)"
    by (simp only: uint_nat of_nat_mod of_nat_add of_nat_numeral)
  then show ?thesis by (simp only: of_nat_eq_iff)
qed

definition same_frames :: "pfa \<Rightarrow> pfa \<Rightarrow> bool" where
  "same_frames s t \<longleftrightarrow> bitmap t = bitmap s \<and> npages t = npages s \<and> pre_frames t = pre_frames s"

lemma same_frames_free: "same_frames s t \<Longrightarrow> free_frames t = free_frames s"
  by (simp add: same_frames_def free_frames_def)

text \<open>What a grant of \<open>frames\<close> frames at frame \<open>n\<close> has done.\<close>

definition granted :: "pfa \<Rightarrow> u64 \<Rightarrow> nat \<Rightarrow> pfa \<Rightarrow> bool" where
  "granted s frames n t \<longleftrightarrow>
     n + unat frames < 32 * length (bitmap s) \<and>
     free_frames t = free_frames s - {n..<32 * ((n + unat frames) div 32) + 32} \<and>
     (n mod 32 + unat frames mod 32 < 32 \<longrightarrow> {n..<n + unat frames} \<subseteq> free_frames s)"

lemma test_range_state:
  "test_range a b c d s = Inr (r, t) \<Longrightarrow> t = pfa_print ''invalid start and end for test_range\<newline>'' s"
  by (auto simp: test_range_def Let_def split: if_splits elim!: bindR_eq_InrE)

lemma kalloc_frames_bit_none:
  "kalloc_frames_bit frames i j s = Inr (None, t) \<Longrightarrow> same_frames s t"
  by (auto simp: kalloc_frames_bit_def Let_def same_frames_def split: if_splits
      elim!: bindR_eq_InrE dest!: test_range_state)

lemma kalloc_frames_bit_some:
  assumes call: "kalloc_frames_bit frames i j s = Inr (Some a, t)"
    and len: "length (bitmap s) < 2 ^ 27" and j: "j < 32"
  shows "a = frame_addr (32 * i + j) \<and> granted s frames (32 * i + j) t"
proof -
  let ?n = "32 * i + j" and ?k = "unat (drop_bit 5 frames)"
  let ?e = "ucast ((frames - (32 - of_nat j)) mod 32) :: u32"
  let ?idx = "ucast (push_bit 5 (of_nat i :: u32) OR of_nat j) :: u64"
  from call obtain u where test: "test_range i (i + ?k) (of_nat j) ?e s = Inr (True, u)"
    and set: "set_range ?idx (?idx + frames) u = Inr t" and a: "a = ?idx * PAGE_SIZE"
    by (auto simp: kalloc_frames_bit_def Let_def split: if_splits elim!: bindR_eq_InrE)
  have in_map: "i + ?k < length (bitmap s)" by (rule test_range_bound[OF test])
  then have i: "i < 2 ^ 27" and fr: "unat frames div 32 < 2 ^ 27" using len word_index_u64[of frames] by auto
  then have frames: "unat frames < 2 ^ 32" by simp
  have u: "bitmap u = bitmap s" "free_frames u = free_frames s" using test_range_state[OF test] by simp_all
  have idx: "?idx = of_nat ?n"
    unfolding frame_index[OF i j] using i j by (intro ucast_frame_index(1)) simp
  have nb: "unat (of_nat ?n :: u64) = ?n" using i j by (subst unat_of_nat) simp
  have sum: "unat (of_nat ?n + frames) = ?n + unat frames"
    using i j frames nb by (simp add: unat_word_ariths del: of_nat_add of_nat_mult)
  have le: "of_nat ?n \<le> of_nat ?n + frames" unfolding word_le_nat_alt sum nb by simp
  have bound: "unat (of_nat ?n + frames) div 32 < length (bitmap u)"
    using set_range_bound[OF set[unfolded idx] le] .
  have fr': "free_frames t = free_frames u - range_frames (of_nat ?n) (of_nat ?n + frames)"
    using set_range_frames[OF le bound] set[unfolded idx] by auto
  have ej: "unat (of_nat j :: u32) = j" "unat (of_nat j :: u32) < 32" using j by (simp_all add: unat_of_nat)
  have "{32 * i + j..<32 * (i + ?k) + (unat frames + j) mod 32} \<subseteq> free_frames s"
    using test test_range_ok[OF le_add1 in_map ej(2), of ?e] kalloc_end_bit[OF j, of frames] ej(1) by simp
  moreover have "32 * (i + ?k) + (unat frames + j) mod 32 = ?n + unat frames" if "j + unat frames mod 32 < 32"
  proof -
    have "(unat frames + j) mod 32 = unat frames mod 32 + j"
      using that mod_add_left_eq[of "unat frames" 32 j] by simp
    moreover have "unat frames = 32 * ?k + unat frames mod 32" using word_index_u64[of frames] by simp
    ultimately show ?thesis by algebra
  qed
  ultimately have "granted s frames ?n t"
    using bound fr' j u sum nb by (auto simp: granted_def range_frames_def simp flip: frame_word_bound)
  then show ?thesis using a idx by (simp add: frame_addr_def del: of_nat_add of_nat_mult)
qed

lemma same_frames_refl: "same_frames s s"
  and same_frames_trans: "same_frames s t \<Longrightarrow> same_frames t u \<Longrightarrow> same_frames s u"
  by (simp_all add: same_frames_def)

lemma kalloc_frames_word_none:
  assumes "kalloc_frames_word frames i s = Inr (None, t)"
  shows "same_frames s t"
proof -
  have "same_frames s t" if "find_range (kalloc_frames_bit frames i) 0 32 s = Inr (None, t)"
    using that same_frames_refl
    by (rule find_range_None) (blast intro: same_frames_trans dest: kalloc_frames_bit_none)
  then show ?thesis using assms
    by (auto simp: kalloc_frames_word_def same_frames_refl split: if_splits elim!: bindR_eq_InrE)
qed

lemma kalloc_frames_some:
  assumes "pfa_wf s" "kalloc_frames frames s = Inr (a, t)" "a \<noteq> 0"
  shows "\<exists>n. a = frame_addr n \<and> granted s frames n t"
proof -
  let ?words = "unat (bitmap_words (npages s))"
  have len: "length (bitmap s) < 2 ^ 27"
    using assms(1) bitmap_words_bound by (simp add: pfa_wf_def)
  from assms(2,3) have "find_range (kalloc_frames_word frames) 0 ?words s = Inr (Some a, t)"
    by (auto simp: kalloc_frames_def elim!: bindR_eq_InrE split: option.splits)
  from find_range_Some[where P = "same_frames s", OF this same_frames_refl]
  obtain i u where u: "same_frames s u" "kalloc_frames_word frames i u = Inr (Some a, t)"
    by (blast intro: same_frames_trans dest: kalloc_frames_word_none)
  then have "find_range (kalloc_frames_bit frames i) 0 32 u = Inr (Some a, t)"
    by (auto simp: kalloc_frames_word_def split: if_splits elim!: bindR_eq_InrE)
  from find_range_Some[where P = "same_frames s", OF this u(1)]
  obtain j v where v: "same_frames s v" "j < 0 + 32" "kalloc_frames_bit frames i j v = Inr (Some a, t)"
    by (blast intro: same_frames_trans dest: kalloc_frames_bit_none)
  have "length (bitmap v) < 2 ^ 27" using len v(1) by (simp add: same_frames_def)
  from kalloc_frames_bit_some[OF v(3) this] v(2) show ?thesis
    using v(1) same_frames_free[OF v(1)] by (auto simp: granted_def same_frames_def)
qed

text \<open>Releasing \<open>frames\<close> frames at frame \<open>n\<close>.\<close>

lemma kfree_frames_free:
  assumes "n < 2 ^ 31" "n + unat frames < 32 * length (bitmap s)" "unat frames < 2 ^ 63"
  shows "\<exists>t. kfree_frames (frame_addr n) frames s = Inr t \<and> only_bitmap s t \<and>
    free_frames t = free_frames s \<union> {n..<32 * ((n + unat frames) div 32) + 32}"
proof -
  have n32: "n < 2 ^ 32" using assms(1) by simp
  have idx: "scast (of_nat n :: u32) = (of_nat n :: u64)" by (rule scast_of_nat32[OF assms(1)])
  have nb: "unat (of_nat n :: u64) = n" using n32 by (simp add: unat_of_nat)
  have sum: "unat (of_nat n + frames) = n + unat frames"
    using assms nb by (simp add: unat_word_ariths)
  have le: "of_nat n \<le> of_nat n + frames" unfolding word_le_nat_alt sum nb by simp
  have "unat (of_nat n + frames) div 32 < length (bitmap s)"
    using assms(2) by (simp add: sum frame_word_bound)
  from clear_range_frames[OF le this] show ?thesis
    by (simp add: kfree_frames_def frame_addr_div[OF n32] idx range_frames_def sum nb)
qed

subsection \<open>Properties of the range operations\<close>

text \<open>
  C36. When \<open>kalloc_frames\<close> returns a run of frames, the run lies inside the bitmap, every
  frame of it is in use afterwards, nothing becomes free, and it also takes every frame up
  to the end of the last bitmap word. When the count crosses no word boundary at the
  position chosen, every frame handed out was free before.
\<close>

theorem kalloc_frames_grant:
  assumes "pfa_wf s" "kalloc_frames frames s = Inr (a, t)" "a \<noteq> 0"
  shows "\<exists>n. a = frame_addr n \<and> n + unat frames < 32 * length (bitmap s) \<and>
    free_frames t = free_frames s - {n..<32 * ((n + unat frames) div 32) + 32} \<and>
    (n mod 32 + unat frames mod 32 < 32 \<longrightarrow> {n..<n + unat frames} \<subseteq> free_frames s)"
  using kalloc_frames_some[OF assms] by (simp add: granted_def)

theorem kalloc_frames_grant_witness:
  "\<exists>t. kalloc_frames 3 pfa_example = Inr (0x8000, t) \<and> free_frames t = {} \<and> {8..<11} \<subseteq> free_frames pfa_example"
proof -
  have call: "kalloc_frames 3 pfa_example = Inr (0x8000, pfa_example\<lparr>bitmap := [0xffffffff, 0xffffffff],
      console := replicate 9 ''invalid start and end for test_range\<newline>''\<rparr>)" (is "_ = Inr (_, ?t)") by code_simp
  have wf: "pfa_wf pfa_example" using pfa_example_inv by (simp add: frame_inv_def int_inv_def)
  obtain n where n: "0x8000 = frame_addr n" "n + 3 < 64" "free_frames ?t = free_frames pfa_example - {n..<32 * ((n + 3) div 32) + 32}"
    "n mod 32 + 3 < 32 \<longrightarrow> {n..<n + 3} \<subseteq> free_frames pfa_example"
    using kalloc_frames_grant[OF wf call] by (auto simp: pfa_example_def)
  have "0x8000 = frame_addr 8" by (simp add: frame_addr_def)
  then have "n = 8" using n(1,2) frame_addr_inj[of n 8] by simp
  with n(3,4) call pfa_example_free show ?thesis by simp
qed

text \<open>
  Across a word boundary \<open>kalloc_frames\<close> hands out frames that are in use: with only
  frame 31 free, a request for two frames is granted at frame 30, which is in use.
\<close>

definition pfa_full :: pfa where
  "pfa_full = pfa_boot\<lparr>npages := 64, bitmap := [0x7fffffff, 0xffffffff]\<rparr>"

theorem kalloc_frames_overlap:
  "bm_test 30 pfa_full = Inr True \<and> map_sum id fst (kalloc_frames 2 pfa_full) = Inr (frame_addr 30)"
  by code_simp

text \<open>
  \<open>test_range\<close> answers exactly whether all frames from the start position up to (not
  including) the end position are free, and prints its error message on every call.
\<close>

theorem test_range_exact:
  assumes "start \<le> stop" "stop < length (bitmap s)" "unat s_bit < 32" "unat e_bit < 32"
  shows "test_range start stop s_bit e_bit s =
    Inr ({32 * start + unat s_bit..<32 * stop + unat e_bit} \<subseteq> free_frames s,
         pfa_print ''invalid start and end for test_range\<newline>'' s)"
  using test_range_ok[OF assms] .

theorem test_range_exact_witness:
  "test_range 0 1 8 0 pfa_example = Inr (True, pfa_print ''invalid start and end for test_range\<newline>'' pfa_example)"
  using test_range_exact[of 0 1 pfa_example 8 0] pfa_example_free by (simp add: pfa_example_def)

text \<open>
  \<open>set_range\<close> marks used every frame from \<open>start\<close> to the end of the bitmap word of
  \<open>stop\<close>, whatever the position of \<open>stop\<close> in that word, and no other frame.
\<close>

theorem set_range_exact:
  assumes "start \<le> stop" "unat stop div 32 < length (bitmap s)"
  shows "\<exists>t. set_range start stop s = Inr t \<and> only_bitmap s t \<and>
    free_frames t = free_frames s - {unat start..<32 * (unat stop div 32) + 32}"
  using set_range_frames[OF assms] by (simp add: range_frames_def)

theorem set_range_exact_witness:
  "\<exists>t. set_range 10 12 pfa_example = Inr t \<and> free_frames t = {8..<10}"
proof -
  have "{8..<32} - {10..<32} = {8..<10::nat}" by auto
  then show ?thesis
    using set_range_exact[of 10 12 pfa_example] pfa_example_free by (auto simp: pfa_example_def)
qed

text \<open>
  C37. \<open>kfree_frames\<close> frees the frames it is asked to free and also every other frame up to
  the end of the last bitmap word, frames of other owners included.
\<close>

theorem kfree_frames_exact:
  assumes "n < 2 ^ 31" "n + unat frames < 32 * length (bitmap s)" "unat frames < 2 ^ 63"
  shows "\<exists>t. kfree_frames (frame_addr n) frames s = Inr t \<and> only_bitmap s t \<and>
    free_frames t = free_frames s \<union> {n..<32 * ((n + unat frames) div 32) + 32}"
  using kfree_frames_free[OF assms] .

theorem kfree_frames_exact_witness:
  "\<exists>t. kfree_frames (frame_addr 34) 2 pfa_example = Inr t \<and> free_frames t = {8..<32} \<union> {34..<64}"
  using kfree_frames_exact[of 34 2 pfa_example] pfa_example_free by (auto simp: pfa_example_def)

end
