(* ===== verification/Nya_Pfa_Init.thy ===== *)
theory Nya_Pfa_Init
  imports Nya_Pfa
begin

unbundle bit_operations_syntax

section \<open>The page frame allocator: initialisation from the memory map\<close>

text \<open>
  \<open>pfa_init\<close> of \<open>pfa.c\<close>: which frames are free after boot. A region of the map is well
  formed when it is page aligned and ends below 4 GiB; Limine aligns the usable regions,
  the second condition is what the 32-bit variable \<open>high\<close> of \<open>mem_high\<close> needs.
\<close>

definition usable :: "limine_memmap_entry \<Rightarrow> bool" where
  "usable e \<longleftrightarrow> me_type e = LIMINE_MEMMAP_USABLE"

definition region_end :: "limine_memmap_entry \<Rightarrow> nat" where
  "region_end e = unat (me_base e) + unat (me_length e)"

definition region_ok :: "limine_memmap_entry \<Rightarrow> bool" where
  "region_ok e \<longleftrightarrow> 4096 dvd unat (me_base e) \<and> 4096 dvd unat (me_length e) \<and> region_end e < 2 ^ 32"

text \<open>The frames the boot loop releases: all of the region but its last frame.\<close>

definition region_frames :: "limine_memmap_entry \<Rightarrow> nat set" where
  "region_frames e = {unat (me_base e) div 4096..<region_end e div 4096 - 1}"

definition map_ok :: "limine_memmap_entry list \<Rightarrow> bool" where
  "map_ok mmap \<longleftrightarrow> (\<forall>e \<in> set mmap. usable e \<longrightarrow> region_ok e)"

definition boot_pages :: "limine_memmap_entry list \<Rightarrow> u32" where
  "boot_pages mmap = ucast (mem_high mmap div PAGE_SIZE)"

definition boot_bitmap_size :: "limine_memmap_entry list \<Rightarrow> u64" where
  "boot_bitmap_size mmap = ucast ((boot_pages mmap + 31) div 32) * 4"

lemma region_end_word: "region_ok e \<Longrightarrow> unat (me_base e + me_length e) = region_end e"
  by (simp add: region_ok_def region_end_def unat_word_ariths)

lemma mem_high_loop_bounds:
  assumes "\<forall>e \<in> set mmap. usable e \<longrightarrow> region_ok e" "4096 dvd unat high"
  shows "unat high \<le> unat (mem_high_loop mmap high) \<and> 4096 dvd unat (mem_high_loop mmap high) \<and>
    (\<forall>e \<in> set mmap. usable e \<longrightarrow> region_end e \<le> unat (mem_high_loop mmap high))"
  using assms
proof (induction mmap arbitrary: high)
  case Nil
  then show ?case by simp
next
  case (Cons e es)
  show ?case
  proof (cases "usable e")
    case False
    with Cons show ?thesis by (simp add: usable_def)
  next
    case True
    then have ok: "region_ok e" using Cons.prems by simp
    have ends: "unat (ucast (me_base e + me_length e) :: u32) = region_end e"
      using region_end_word[OF ok] ok by (simp add: unat_ucast_down region_ok_def)
    let ?h = "if me_base e + me_length e > ucast high then ucast (me_base e + me_length e) else high"
    have "unat ?h = max (unat high) (region_end e)"
      using ends region_end_word[OF ok] unat_ucast_up[of high]
      by (simp add: word_less_nat_alt max_def)
    moreover have "4096 dvd region_end e" using ok by (simp add: region_ok_def region_end_def)
    ultimately have "4096 dvd unat ?h" "unat high \<le> unat ?h" "region_end e \<le> unat ?h"
      using Cons.prems(2) by (auto simp: max_def)
    moreover have "mem_high_loop (e # es) high = mem_high_loop es ?h"
      using True by (simp add: usable_def)
    ultimately show ?thesis using Cons.IH[of ?h] Cons.prems(1) by fastforce
  qed
qed

lemma mem_high_bounds:
  assumes "map_ok mmap"
  shows "4096 dvd unat (mem_high mmap)" "unat (mem_high mmap) < 2 ^ 32"
    "\<And>e. e \<in> set mmap \<Longrightarrow> usable e \<Longrightarrow> region_end e \<le> unat (mem_high mmap)"
proof -
  have "4096 dvd unat (0 :: u32)" by simp
  note b = mem_high_loop_bounds[OF assms[unfolded map_ok_def] this]
  show "4096 dvd unat (mem_high mmap)" "unat (mem_high mmap) < 2 ^ 32"
      "\<And>e. e \<in> set mmap \<Longrightarrow> usable e \<Longrightarrow> region_end e \<le> unat (mem_high mmap)"
    using b unsigned_less[of "mem_high_loop mmap 0"] by (auto simp: mem_high_def unat_ucast_up)
qed

text \<open>The boot loop over one region.\<close>

lemma free_region_ok:
  assumes "unat m = 4096 * a" "unat lim = 4096 * b" "b < 2 ^ 20" "b \<le> 32 * length (bitmap s)" "a \<le> b"
  shows "\<exists>t. free_region m lim s = Some (Inr t) \<and> only_bitmap s t \<and> free_frames t = free_frames s \<union> {a..<b - 1}"
  using assms
proof (induction "b - a" arbitrary: m a s)
  case 0
  have "unat (m + PAGE_SIZE) = unat m + 4096" using 0 by (simp add: unat_word_ariths)
  then have "\<not> m + PAGE_SIZE < lim" using 0 by (simp add: word_less_nat_alt)
  then show ?case using 0 by (subst free_region.simps) simp
next
  case (Suc k)
  have next_m: "unat (m + PAGE_SIZE) = 4096 * Suc a" using Suc.prems by (simp add: unat_word_ariths)
  show ?case
  proof (cases "Suc a < b")
    case False
    then have "\<not> m + PAGE_SIZE < lim" using next_m Suc.prems by (simp add: word_less_nat_alt)
    then show ?thesis using False Suc.prems by (subst free_region.simps) simp
  next
    case True
    have go: "m + PAGE_SIZE < lim" using True next_m Suc.prems(2) by (simp add: word_less_nat_alt)
    have "unat (m div PAGE_SIZE) = a" using Suc.prems(1) by (simp add: unat_div)
    then have idx: "unat (ucast (m div PAGE_SIZE) :: u32) = a"
      using Suc.prems(3,5) by (subst unat_ucast_down) auto
    obtain u where u: "bm_clear (ucast (m div PAGE_SIZE)) s = Inr u" "only_bitmap s u"
        "free_frames u = insert a (free_frames s)"
      using bm_clear_ok[of "ucast (m div PAGE_SIZE)" s] idx Suc.prems True by auto
    have "\<exists>t. free_region (m + PAGE_SIZE) lim u = Some (Inr t) \<and> only_bitmap u t \<and>
        free_frames t = free_frames u \<union> {Suc a..<b - 1}"
      using Suc.hyps Suc.prems next_m only_bitmapD[OF u(2)] True by (intro Suc.hyps(1)) auto
    then obtain t where t: "free_region (m + PAGE_SIZE) lim u = Some (Inr t)" "only_bitmap u t"
        "free_frames t = free_frames u \<union> {Suc a..<b - 1}" by blast
    have "free_region m lim s = Some (Inr t)"
      using go u(1) t(1) by (subst free_region.simps) simp
    moreover have "{a..<b - 1} = insert a {Suc a..<b - 1}" using True by auto
    then have "free_frames t = free_frames s \<union> {a..<b - 1}" using t(3) u(3) by simp
    ultimately show ?thesis using only_bitmap_trans[OF u(2) t(2)] by blast
  qed
qed

lemma free_region_entry:
  assumes "region_ok e" "region_end e \<le> 4096 * (32 * length (bitmap s))"
  shows "\<exists>t. free_region (me_base e) (me_base e + me_length e) s = Some (Inr t) \<and> only_bitmap s t \<and>
    free_frames t = free_frames s \<union> region_frames e"
proof -
  obtain a where a: "unat (me_base e) = 4096 * a" using assms(1) by (auto simp: region_ok_def)
  have "4096 dvd region_end e" using assms(1) by (simp add: region_ok_def region_end_def)
  then obtain b where b: "region_end e = 4096 * b" by blast
  have "unat (me_base e) \<le> region_end e" by (simp add: region_end_def)
  then have "a \<le> b" using a b by simp
  moreover have "b < 2 ^ 20" using assms(1) b by (simp add: region_ok_def)
  ultimately show ?thesis
    using free_region_ok[of "me_base e" a "me_base e + me_length e" b s] assms a b
    by (simp add: region_end_word region_frames_def)
qed

lemma free_available_memory_ok:
  assumes "\<forall>e \<in> set mmap. usable e \<longrightarrow> region_ok e \<and> region_end e \<le> 4096 * (32 * length (bitmap s))"
  shows "\<exists>t. free_available_memory mmap s = Some (Inr t) \<and> only_bitmap s t \<and>
    free_frames t = free_frames s \<union> (\<Union>e \<in> {e \<in> set mmap. usable e}. region_frames e)"
  using assms
proof (induction mmap arbitrary: s)
  case Nil
  then show ?case by simp
next
  case (Cons e es)
  show ?case
  proof (cases "usable e")
    case False
    then have "{x \<in> set (e # es). usable x} = {x \<in> set es. usable x}" by auto
    with False Cons show ?thesis by (simp add: usable_def)
  next
    case True
    then obtain u where u: "free_region (me_base e) (me_base e + me_length e) s = Some (Inr u)"
        "only_bitmap s u" "free_frames u = free_frames s \<union> region_frames e"
      using free_region_entry[of e s] Cons.prems by auto
    obtain t where t: "free_available_memory es u = Some (Inr t)" "only_bitmap u t"
        "free_frames t = free_frames u \<union> (\<Union>e \<in> {e \<in> set es. usable e}. region_frames e)"
      using Cons.IH[of u] Cons.prems only_bitmapD[OF u(2)] by auto
    have "{x \<in> set (e # es). usable x} = insert e {x \<in> set es. usable x}" using True by auto
    with True u t show ?thesis
      using only_bitmap_trans[OF u(2) t(2)] by (auto simp: usable_def)
  qed
qed

lemma bitmap_addr_find:
  "bitmap_addr offset mmap sz s =
     (case find (\<lambda>e. usable e \<and> me_length e > sz) mmap of
        None \<Rightarrow> Inl NoReturn
      | Some e \<Rightarrow> Inr (me_base e + offset, s\<lparr>bm_paddr := me_base e\<rparr>))"
  by (induction mmap) (auto simp: usable_def)

lemma boot_sizes:
  assumes "map_ok mmap"
  shows "unat (boot_pages mmap) = unat (mem_high mmap) div 4096"
    "unat (bitmap_words (boot_pages mmap)) = (unat (boot_pages mmap) + 31) div 32"
    "unat (boot_bitmap_size mmap) = 4 * unat (bitmap_words (boot_pages mmap))"
    "unat (boot_pages mmap) < 2 ^ 20"
proof -
  have "unat (mem_high mmap div PAGE_SIZE) = unat (mem_high mmap) div 4096" by (simp add: unat_div)
  with mem_high_bounds(2)[OF assms]
  show pages: "unat (boot_pages mmap) = unat (mem_high mmap) div 4096" "unat (boot_pages mmap) < 2 ^ 20"
    unfolding boot_pages_def by (subst unat_ucast_down; simp)+
  have plus: "unat (boot_pages mmap + 31) = unat (boot_pages mmap) + 31"
    using pages(2) by (simp add: unat_word_ariths)
  then show words: "unat (bitmap_words (boot_pages mmap)) = (unat (boot_pages mmap) + 31) div 32"
    unfolding bitmap_words_def unat_shift_right by simp
  have "unat (ucast ((boot_pages mmap + 31) div 32) :: u64) = (unat (boot_pages mmap) + 31) div 32"
    unfolding unat_ucast_up using plus by (simp add: unat_div)
  then show "unat (boot_bitmap_size mmap) = 4 * unat (bitmap_words (boot_pages mmap))"
    using pages(2) words by (simp add: boot_bitmap_size_def unat_word_ariths)
qed

lemma free_frames_full: "bitmap s = replicate n 0xffffffff \<Longrightarrow> free_frames s = {}"
  by (auto simp: free_frames_def bit_at_def simp flip: frame_word_bound)

lemma set_frames:
  assumes "lo + n \<le> 32 * length (bitmap s)" "lo + n < 2 ^ 32"
  shows "\<exists>t. for_range (\<lambda>i. bm_set (of_nat i)) lo n s = Inr t \<and> only_bitmap s t \<and>
    free_frames t = free_frames s - {lo..<lo + n}"
proof -
  have "\<exists>t. for_range (\<lambda>i. bm_set (of_nat i)) lo n s = Inr t \<and>
      (only_bitmap s t \<and> free_frames t = free_frames s - {lo..<lo + n})"
  proof (rule for_range_total)
    fix i u
    assume i: "lo \<le> i" "i < lo + n" and u: "only_bitmap s u \<and> free_frames u = free_frames s - {lo..<i}"
    have idx: "unat (of_nat i :: u32) = i" using i assms(2) by (simp add: unat_of_nat)
    have "unat (of_nat i :: u32) < 32 * length (bitmap u)" using i u assms(1) only_bitmapD idx by auto
    from bm_set_ok[OF this] obtain t where t: "bm_set (of_nat i) u = Inr t" "only_bitmap u t"
      "free_frames t = free_frames u - {i}" using idx by auto
    moreover have "{lo..<Suc i} = {lo..<i} \<union> {i}" using i by auto
    ultimately show "\<exists>t. bm_set (of_nat i) u = Inr t \<and>
        (only_bitmap s t \<and> free_frames t = free_frames s - {lo..<Suc i})"
      using u only_bitmap_trans by fastforce
  qed simp
  then show ?thesis by auto
qed

text \<open>The frames that hold the bitmap itself.\<close>

definition bitmap_frames :: "limine_memmap_entry list \<Rightarrow> limine_memmap_entry \<Rightarrow> nat set" where
  "bitmap_frames mmap e =
     {unat (me_base e) div 4096..<unat (me_base e) div 4096 + (unat (boot_bitmap_size mmap) + 4095) div 4096}"

definition boot_free_frames :: "limine_memmap_entry list \<Rightarrow> limine_memmap_entry \<Rightarrow> nat set" where
  "boot_free_frames mmap e =
     (\<Union>r \<in> {r \<in> set mmap. usable r}. region_frames r) - bitmap_frames mmap e - {0}"

lemma bitmap_frames_bound:
  assumes "map_ok mmap" "e \<in> set mmap" "usable e" "me_length e > boot_bitmap_size mmap"
  shows "unat (me_base e) div 4096 + (unat (boot_bitmap_size mmap) + 4095) div 4096 \<le> unat (boot_pages mmap)"
    "0 < unat (boot_pages mmap)"
proof -
  obtain a where a: "unat (me_base e) = 4096 * a" using assms by (auto simp: map_ok_def region_ok_def)
  obtain l where l: "unat (me_length e) = 4096 * l" using assms by (auto simp: map_ok_def region_ok_def)
  obtain h where h: "unat (mem_high mmap) = 4096 * h" using mem_high_bounds(1)[OF assms(1)] by blast
  have len: "unat (boot_bitmap_size mmap) < unat (me_length e)" using assms(4) by (simp add: word_less_nat_alt)
  have "region_end e \<le> unat (mem_high mmap)" using mem_high_bounds(3)[OF assms(1-3)] .
  then have "a + l \<le> h" using a l h by (simp add: region_end_def)
  moreover have "(unat (boot_bitmap_size mmap) + 4095) div 4096 \<le> l" using len l by simp
  ultimately show "unat (me_base e) div 4096 + (unat (boot_bitmap_size mmap) + 4095) div 4096 \<le> unat (boot_pages mmap)"
    using boot_sizes(1)[OF assms(1)] a h by simp
  show "0 < unat (boot_pages mmap)"
    using boot_sizes(1)[OF assms(1)] h len l \<open>a + l \<le> h\<close> by (auto intro: gr0I)
qed

lemma pfa_init_ok:
  assumes ok: "map_ok mmap" and len20: "length (pre_frames s) = 20"
    and fit: "find (\<lambda>e. usable e \<and> me_length e > boot_bitmap_size mmap) mmap = Some e"
  shows "\<exists>t. pfa_init offset mmap s = Some (Inr t) \<and> pfa_wf t \<and> npages t = boot_pages mmap \<and>
    bm_paddr t = me_base e \<and> allocate t = allocate s \<and> pframe t = pframe s \<and>
    free_frames t = boot_free_frames mmap e"
proof -
  let ?np = "boot_pages mmap" and ?bs = "boot_bitmap_size mmap"
  let ?s2 = "s\<lparr>npages := ?np, bm_paddr := me_base e, bitmap_ptr := me_base e + offset,
    bitmap := replicate (unat (bitmap_words ?np)) 0xffffffff\<rparr>"
  have e: "e \<in> set mmap" "usable e" "me_length e > ?bs" using fit by (auto simp: find_Some_iff)
  note sz = boot_sizes[OF ok] and bf = bitmap_frames_bound[OF ok e]
  have pages: "unat ?np \<le> 32 * length (bitmap ?s2)" using sz by simp
  have "unat (mem_high mmap) = 4096 * unat ?np" using mem_high_bounds(1)[OF ok] sz(1) by auto
  then have "region_end r \<le> 4096 * (32 * length (bitmap ?s2))" if "r \<in> set mmap" "usable r" for r
    using mem_high_bounds(3)[OF ok that] pages by simp
  then obtain u where u: "free_available_memory mmap ?s2 = Some (Inr u)" "only_bitmap ?s2 u"
    "free_frames u = free_frames ?s2 \<union> (\<Union>r \<in> {r \<in> set mmap. usable r}. region_frames r)"
    using free_available_memory_ok[of mmap ?s2] ok by (auto simp: map_ok_def)
  note keep = only_bitmapD[OF u(2)]
  have base: "unat (bm_paddr u div PAGE_SIZE) = unat (me_base e) div 4096" using keep by (simp add: unat_div)
  have "unat (?bs + PAGE_SIZE - 1) = unat ?bs + 4095" using sz(2-4) by (simp add: unat_word_ariths)
  then have count: "unat ((?bs + PAGE_SIZE - 1) div PAGE_SIZE) = (unat ?bs + 4095) div 4096" by (simp add: unat_div)
  obtain v where v: "for_range (\<lambda>i. bm_set (of_nat i)) (unat (bm_paddr u div PAGE_SIZE))
      (unat ((?bs + PAGE_SIZE - 1) div PAGE_SIZE)) u = Inr v" "only_bitmap u v"
      "free_frames v = free_frames u - bitmap_frames mmap e"
    using set_frames[of "unat (bm_paddr u div PAGE_SIZE)" "unat ((?bs + PAGE_SIZE - 1) div PAGE_SIZE)" u]
      bf(1) pages keep(2) sz(4) base count by (auto simp: bitmap_frames_def)
  have "unat (0 :: u32) < 32 * length (bitmap v)" using bf(2) pages keep(2) only_bitmapD(2)[OF v(2)] by simp
  from bm_set_ok[OF this] obtain t where t: "bm_set 0 v = Inr t" "only_bitmap v t" "free_frames t = free_frames v - {0}"
    by auto
  have all: "only_bitmap ?s2 t" using only_bitmap_trans[OF u(2) only_bitmap_trans[OF v(2) t(2)]] .
  have "pfa_init offset mmap s = Some (Inr t)"
    using u(1) v(1) t(1) fit
    by (simp add: pfa_init_def Let_def bitmap_addr_find pfa_reserve_def flip: boot_pages_def boot_bitmap_size_def)
  moreover have "free_frames t = boot_free_frames mmap e"
    using t(3) v(3) u(3) free_frames_full[of ?s2] by (simp add: boot_free_frames_def)
  ultimately show ?thesis using only_bitmapD[OF all] len20 by (simp add: pfa_wf_def)
qed

subsection \<open>Memory above 4 GiB\<close>






subsection \<open>Properties of the boot of the allocator\<close>

text \<open>
  C7. On a page-aligned memory map that ends below 4 GiB and has a region large enough for
  the bitmap, \<open>pfa_init\<close> returns; the free frames are then exactly those of the usable
  regions, less the last page of each region, the frames of the bitmap itself and frame 0,
  and the state satisfies the invariant under which \<open>kalloc_frame\<close> is safe.
\<close>

theorem pfa_init_free_set:
  assumes "map_ok mmap" "find (\<lambda>e. usable e \<and> me_length e > boot_bitmap_size mmap) mmap = Some e"
  shows "\<exists>t. pfa_init offset mmap pfa_boot = Some (Inr t) \<and> frame_inv t \<and> npages t = boot_pages mmap \<and>
    bm_paddr t = me_base e \<and> free_frames t = boot_free_frames mmap e"
proof -
  have "length (pre_frames pfa_boot) = 20" by (simp add: pfa_boot_def)
  from pfa_init_ok[OF assms(1) this assms(2)] obtain t where t: "pfa_init offset mmap pfa_boot = Some (Inr t)"
    "pfa_wf t" "npages t = boot_pages mmap" "bm_paddr t = me_base e" "allocate t = allocate pfa_boot"
    "pframe t = pframe pfa_boot" "free_frames t = boot_free_frames mmap e" by blast
  have "0 \<notin> free_frames t" using t(7) by (simp add: boot_free_frames_def)
  moreover have "pool t = []" using t(5) by (simp add: pool_def pfa_boot_def)
  ultimately have "frame_inv t" using t(2,6) by (simp add: frame_inv_def int_inv_def pfa_boot_def)
  with t show ?thesis by blast
qed

definition mmap_example :: "limine_memmap_entry list" where
  "mmap_example = [\<lparr>me_base = 0, me_length = 0x1000, me_type = 1\<rparr>, \<lparr>me_base = 0x1000, me_length = 0x20000, me_type = 0\<rparr>]"

theorem pfa_init_free_set_witness:
  "\<exists>t. pfa_init 0xffff800000000000 mmap_example pfa_boot = Some (Inr t) \<and> frame_inv t \<and>
    free_frames t = {2..<32}"
proof -
  let ?e = "\<lparr>me_base = 0x1000, me_length = 0x20000, me_type = 0\<rparr> :: limine_memmap_entry"
  have ok: "map_ok mmap_example" by (simp add: map_ok_def mmap_example_def region_ok_def region_end_def usable_def)
  have sz: "boot_bitmap_size mmap_example = 8" by code_simp
  have fit: "find (\<lambda>e. usable e \<and> me_length e > boot_bitmap_size mmap_example) mmap_example = Some ?e"
    unfolding sz by (simp add: mmap_example_def usable_def)
  have "{r \<in> set mmap_example. usable r} = {?e}"
    unfolding mmap_example_def by (simp add: usable_def Collect_disj_eq Collect_conv_if conj_disj_distribR)
  moreover have "region_frames ?e = {1..<32}" by (simp add: region_frames_def region_end_def)
  moreover have "bitmap_frames mmap_example ?e = {1..<2}" unfolding bitmap_frames_def sz by auto
  moreover have "{1..<32} - {1..<2} - {0} = {2..<32::nat}" by auto
  ultimately have "boot_free_frames mmap_example ?e = {2..<32}" by (simp add: boot_free_frames_def)
  with pfa_init_free_set[OF ok fit, of "0xffff800000000000"] show ?thesis by auto
qed



end
