(* ===== verification/Nya_Pager.thy ===== *)
theory Nya_Pager
  imports Nya_Pfa
begin

unbundle bit_operations_syntax

section \<open>The pager\<close>

text \<open>
  The model of \<open>kernel/arch/x86_64/pager.c\<close>. Page tables are read and written as
  8-byte cells of the higher half direct map, so the memory of the pager is a function
  from the virtual address of a cell to its contents: a table at physical address \<open>t\<close>
  has its entry \<open>i\<close> at \<open>t + offset + 8 * i\<close>. The state carries the page frame allocator,
  because \<open>map_page\<close> calls \<open>kalloc_frame\<close>, and the register CR3 that \<open>paging_init\<close> loads.
\<close>

subsection \<open>State and table entries\<close>

record pager =
  pg_mem :: "u64 \<Rightarrow> u64"
  pml4 :: u64
  hhdm :: u64
  cr3 :: u64
  frames :: pfa

definition pg_get :: "pager \<Rightarrow> u64 \<Rightarrow> u64 \<Rightarrow> u64" where
  "pg_get s table i = pg_mem s (table + 8 * i)"

definition pg_put :: "u64 \<Rightarrow> u64 \<Rightarrow> u64 \<Rightarrow> pager \<Rightarrow> pager" where
  "pg_put table i e s = s\<lparr>pg_mem := (pg_mem s)(table + 8 * i := e)\<rparr>"

fun zero_cells :: "nat \<Rightarrow> u64 \<Rightarrow> pager \<Rightarrow> pager" where
  "zero_cells 0 vaddr s = s"
| "zero_cells (Suc n) vaddr s = pg_put vaddr (of_nat n) 0 (zero_cells n vaddr s)"

definition zero_table :: "u64 \<Rightarrow> pager \<Rightarrow> pager" where
  "zero_table paddr s = zero_cells 512 (paddr + hhdm s) s"

subsection \<open>Mapping and unmapping\<close>

text \<open>
  One level of the walk of \<open>map_page\<close> and \<open>map_page_2m\<close>: a missing table is allocated,
  cleared and linked as present and writable; the result is the virtual address of the
  next table.
\<close>

definition next_table :: "u64 \<Rightarrow> u64 \<Rightarrow> pager \<Rightarrow> (u64 \<times> pager) res" where
  "next_table table i s =
     bindR (if pg_get s table i AND 1 = 0
            then bindR (kalloc_frame (frames s)) (\<lambda>(f, fr).
                   Inr (pg_put table i (f OR 3) (zero_table f (s\<lparr>frames := fr\<rparr>))))
            else Inr s)
       (\<lambda>s. Inr ((pg_get s table i AND NOT 0xfff) + hhdm s, s))"

definition map_page_2m :: "u64 \<Rightarrow> u64 \<Rightarrow> u64 \<Rightarrow> pager \<Rightarrow> pager res" where
  "map_page_2m paddr vaddr flags s =
     (let pml4idx = drop_bit 39 vaddr AND 0x1ff;
          pdptidx = drop_bit 30 vaddr AND 0x1ff;
          pdidx = drop_bit 21 vaddr AND 0x1ff
      in bindR (next_table (pml4 s) pml4idx s) (\<lambda>(pdpt, s).
         bindR (next_table pdpt pdptidx s) (\<lambda>(pd, s).
           Inr (pg_put pd pdidx ((paddr AND NOT 0x1fffff) OR flags OR 0x80 OR 3) s))))"

definition map_page :: "u64 \<Rightarrow> u64 \<Rightarrow> u32 \<Rightarrow> pager \<Rightarrow> pager res" where
  "map_page paddr vaddr flags s =
     (let pml4idx = drop_bit 39 vaddr AND 0x1ff;
          pdptidx = drop_bit 30 vaddr AND 0x1ff;
          pdidx = drop_bit 21 vaddr AND 0x1ff;
          ptidx = drop_bit 12 vaddr AND 0x1ff
      in bindR (next_table (pml4 s) pml4idx s) (\<lambda>(pdpt, s).
         bindR (next_table pdpt pdptidx s) (\<lambda>(pd, s).
         bindR (next_table pd pdidx s) (\<lambda>(pt, s).
           Inr (pg_put pt ptidx (paddr OR ucast (flags AND 0xFFF) OR 3) s)))))"

text \<open>
  The scan of the page directory at the end of \<open>free_page\<close> only computes the local
  variable \<open>empty\<close>, which nothing reads.
\<close>

definition free_page :: "u64 \<Rightarrow> pager \<Rightarrow> pager res" where
  "free_page vaddr s =
     (let pml4idx = drop_bit 39 vaddr AND 0x1ff;
          pdptidx = drop_bit 30 vaddr AND 0x1ff;
          pdidx = drop_bit 21 vaddr AND 0x1ff
      in if pg_get s (pml4 s) pml4idx AND 1 = 0 then Inr s
         else let pdpt = (pg_get s (pml4 s) pml4idx AND NOT 0xfff) + hhdm s
         in if pg_get s pdpt pdptidx AND 1 = 0 then Inr s
            else let pd = (pg_get s pdpt pdptidx AND NOT 0xfff) + hhdm s
            in if pg_get s pd pdidx AND 1 = 0 then Inr s
               else let pt = pg_get s pd pdidx AND NOT 0xfff
                    in bindR (kfree_frame pt (frames s)) (\<lambda>fr. Inr (s\<lparr>frames := fr\<rparr>)))"

definition kalloc_pages :: "u64 \<Rightarrow> pager \<Rightarrow> u64 \<times> pager" where
  "kalloc_pages num_pages s = (0, s)"

definition phys_to_virt :: "pager \<Rightarrow> u64 \<Rightarrow> u64" where
  "phys_to_virt s paddr = paddr + hhdm s"

definition virt_to_phys :: "pager \<Rightarrow> u64 \<Rightarrow> u64" where
  "virt_to_phys s vaddr = vaddr - hhdm s"

subsection \<open>Boot\<close>

text \<open>
  The linker symbols \<open>kernel_start_virtual\<close>, \<open>kernel_end_virtual\<close> and Limine's answers
  are parameters. The pointer loop over the kernel image steps by whole pages, so it runs
  once per started page; the loop over the direct map runs once per 2 MiB below \<open>top\<close>,
  which is rounded up to 2 MiB.
\<close>

record boot_info =
  bi_offset :: u64
  bi_kernel_start :: u64
  bi_kernel_end :: u64
  bi_virtual_base :: u64
  bi_physical_base :: u64
  bi_mmap :: "limine_memmap_entry list"

fun mmap_top :: "limine_memmap_entry list \<Rightarrow> u64 \<Rightarrow> u64" where
  "mmap_top [] top_addr = top_addr"
| "mmap_top (e # es) top_addr =
     mmap_top es (if me_base e + me_length e > top_addr then me_base e + me_length e else top_addr)"

definition map_kernel_page :: "boot_info \<Rightarrow> nat \<Rightarrow> pager \<Rightarrow> pager res" where
  "map_kernel_page bi k s =
     (let p = bi_kernel_start bi + of_nat k * PAGE_SIZE;
          paddr = p - bi_virtual_base bi + bi_physical_base bi
      in map_page paddr p 0 s)"

definition map_hhdm_page :: "boot_info \<Rightarrow> nat \<Rightarrow> pager \<Rightarrow> pager res" where
  "map_hhdm_page bi k s =
     (let p = of_nat k * 0x200000 in map_page_2m p (p + hhdm s) 0 s)"

definition paging_init :: "boot_info \<Rightarrow> pager \<Rightarrow> pager res" where
  "paging_init bi s =
     bindR (kalloc_frame (frames s)) (\<lambda>(f, fr).
       let s = s\<lparr>hhdm := bi_offset bi, pml4 := f + bi_offset bi, frames := fr\<rparr>;
           s = zero_cells 512 (pml4 s) s;
           kpages = (unat (bi_kernel_end bi) - unat (bi_kernel_start bi) + 4095) div 4096;
           top_addr = (mmap_top (bi_mmap bi) 0 + 0x1fffff) AND NOT 0x1fffff
       in bindR (for_range (map_kernel_page bi) 0 kpages s) (\<lambda>s.
          bindR (for_range (map_hhdm_page bi) 0 (unat top_addr div 0x200000) s) (\<lambda>s.
            Inr (s\<lparr>cr3 := pml4 s - hhdm s\<rparr>))))"

subsection \<open>What the processor sees\<close>

text \<open>
  The address translation of the processor (4-level paging), reading the tables through
  the direct map: bit 0 of an entry is the present bit, bit 7 marks a large page (and is
  reserved, a fault, in the top-level table), bits 12 to 51 are the frame.
\<close>

definition entry_frame :: "u64 \<Rightarrow> u64" where
  "entry_frame e = e AND 0x000ffffffffff000"

definition entry_at :: "pager \<Rightarrow> u64 \<Rightarrow> u64 \<Rightarrow> u64" where
  "entry_at s t i = pg_mem s (t + hhdm s + 8 * i)"

definition present :: "u64 \<Rightarrow> bool" where
  "present e \<longleftrightarrow> bit e 0"

definition large :: "u64 \<Rightarrow> bool" where
  "large e \<longleftrightarrow> bit e 7"

definition idx :: "nat \<Rightarrow> u64 \<Rightarrow> u64" where
  "idx lvl vaddr = drop_bit (12 + 9 * lvl) vaddr AND 0x1ff"

definition page_off :: "nat \<Rightarrow> u64 \<Rightarrow> u64" where
  "page_off k vaddr = take_bit k vaddr"

definition mmu :: "pager \<Rightarrow> u64 \<Rightarrow> u64 \<Rightarrow> u64 option" where
  "mmu s root v =
     (let e4 = entry_at s root (idx 3 v) in
      if \<not> present e4 \<or> large e4 then None else
      let e3 = entry_at s (entry_frame e4) (idx 2 v) in
      if \<not> present e3 then None else
      if large e3 then Some ((entry_frame e3 AND NOT (mask 30)) OR page_off 30 v) else
      let e2 = entry_at s (entry_frame e3) (idx 1 v) in
      if \<not> present e2 then None else
      if large e2 then Some ((entry_frame e2 AND NOT (mask 21)) OR page_off 21 v) else
      let e1 = entry_at s (entry_frame e2) (idx 0 v) in
      if \<not> present e1 then None else Some (entry_frame e1 OR page_off 12 v))"

end
