(* ===== verification/Nya_Pager_Map.thy ===== *)
theory Nya_Pager_Map
  imports Nya_Pager "HOL-Library.Sublist"
begin

unbundle bit_operations_syntax

section \<open>The pager: what a mapping changes\<close>

text \<open>
  Correctness of \<open>map_page\<close> and \<open>map_page_2m\<close> against the translation of the processor.
  The invariant says that the page tables form a tree: every table is reached by one path
  of indices, none of them is a frame the allocator may still hand out.
\<close>

subsection \<open>Cells of distinct tables are distinct\<close>

lemma cell_offset:
  assumes "4096 dvd unat (t :: u64)" "i < 512"
  shows "unat (t + 8 * i) = unat t + 8 * unat i"
proof -
  obtain k where k: "unat t = 4096 * k" using assms(1) by blast
  have "unat t < 2 ^ 64" using unsigned_less[of t] by simp
  then have "unat t + 4096 \<le> 2 ^ 64" using k by simp
  moreover have "unat i < 512" using assms(2) by (simp add: word_less_nat_alt)
  ultimately show ?thesis by (simp add: unat_word_ariths)
qed

lemma cell_inj:
  assumes "4096 dvd unat (t :: u64)" "4096 dvd unat t'" "i < 512" "i' < 512"
  shows "t + h + 8 * i = t' + h + 8 * i' \<longleftrightarrow> t = t' \<and> i = i'"
proof
  assume "t + h + 8 * i = t' + h + 8 * i'"
  then have "t + 8 * i = t' + 8 * i'" by simp
  then have sum: "unat t + 8 * unat i = unat t' + 8 * unat i'"
    using cell_offset[OF assms(1,3)] cell_offset[OF assms(2,4)] by simp
  obtain k k' where k: "unat t = 4096 * k" "unat t' = 4096 * k'" using assms(1,2) by blast
  have "unat i < 512" "unat i' < 512" using assms(3,4) by (simp_all add: word_less_nat_alt)
  then have "(4096 * k + 8 * unat i) div 4096 = k" "(4096 * k' + 8 * unat i') div 4096 = k'" by simp_all
  with sum k have "k = k'" by metis
  with sum k have "unat t = unat t'" "unat i = unat i'" by simp_all
  then show "t = t' \<and> i = i'" by (simp add: word_unat_eq_iff)
qed simp

lemma zero_cells_mem:
  "pg_mem (zero_cells n v s) a = (if \<exists>k<n. a = v + 8 * of_nat k then 0 else pg_mem s a)"
  by (induction n) (auto simp: pg_put_def less_Suc_eq)

lemma zero_cells_rest [simp]:
  "pml4 (zero_cells n v s) = pml4 s" "hhdm (zero_cells n v s) = hhdm s"
  "frames (zero_cells n v s) = frames s" "cr3 (zero_cells n v s) = cr3 s"
  by (induction n) (simp_all add: pg_put_def)

lemma zero_table_rest [simp]:
  "pml4 (zero_table f s) = pml4 s" "hhdm (zero_table f s) = hhdm s"
  "frames (zero_table f s) = frames s" "cr3 (zero_table f s) = cr3 s"
  by (simp_all add: zero_table_def)

lemma pg_put_rest [simp]:
  "pml4 (pg_put t i e s) = pml4 s" "hhdm (pg_put t i e s) = hhdm s"
  "frames (pg_put t i e s) = frames s" "cr3 (pg_put t i e s) = cr3 s"
  by (simp_all add: pg_put_def)

lemma index_bound [simp]: "w AND 0x1ff < (512 :: u64)"
proof -
  have "w AND 0x1ff \<le> (0x1ff :: u64)" by (rule word_and_le1)
  then show ?thesis by (rule order_le_less_trans) simp
qed

lemma idx_bound [simp]: "idx l v < 512"
  by (simp add: idx_def)

lemma small_index:
  assumes "i < (512 :: u64)"
  obtains k where "k < 512" "i = of_nat k"
  using assms that[of "unat i"] by (simp add: word_less_nat_alt)

lemma entry_zero_table:
  assumes "4096 dvd unat t" "4096 dvd unat f" "i < 512"
  shows "entry_at (zero_table f s) t i = (if t = f then 0 else entry_at s t i)"
proof -
  obtain k where k: "k < 512" "i = of_nat k" using small_index[OF assms(3)] .
  have "(\<exists>n<512. t + hhdm s + 8 * i = f + hhdm s + 8 * of_nat n) \<longleftrightarrow> t = f"
  proof
    assume "\<exists>n<512. t + hhdm s + 8 * i = f + hhdm s + 8 * of_nat n"
    then obtain n where n: "n < 512" "t + hhdm s + 8 * i = f + hhdm s + 8 * of_nat n" by blast
    have "(of_nat n :: u64) < 512" using n(1) by (simp add: word_less_nat_alt unat_of_nat)
    with n(2) cell_inj[OF assms] show "t = f" by blast
  qed (use k in auto)
  then show ?thesis by (simp add: entry_at_def zero_table_def zero_cells_mem)
qed

lemma entry_put:
  assumes "4096 dvd unat t" "4096 dvd unat x" "i < 512" "j < 512"
  shows "entry_at (pg_put (x + hhdm s) j e s) t i = (if t = x \<and> i = j then e else entry_at s t i)"
  using cell_inj[OF assms, of "hhdm s"] by (simp add: entry_at_def pg_put_def)

lemma bit_entry_frame: "bit (entry_frame e) n \<longleftrightarrow> bit e n \<and> 12 \<le> n \<and> n < 52"
proof -
  have m: "(0x000ffffffffff000 :: u64) = mask 52 AND NOT (mask 12)" by (simp add: mask_eq_exp_minus_1)
  show ?thesis unfolding entry_frame_def m
    by (auto simp: bit_and_iff bit_not_iff bit_mask_iff dest: bit_imp_le_length)
qed

lemma dvd_iff_low_bits: "2 ^ k dvd unat (w :: 'a::len word) \<longleftrightarrow> (\<forall>n<k. \<not> bit w n)"
proof -
  have "2 ^ k dvd unat w \<longleftrightarrow> take_bit k w = 0"
    by (metis unat_take_bit dvd_eq_mod_eq_0 unsigned_eq_0_iff)
  also have "\<dots> \<longleftrightarrow> (\<forall>n<k. \<not> bit w n)"
    by (auto simp: word_eq_bits bit_take_bit_iff dest: bit_imp_le_length)
  finally show ?thesis .
qed

lemma aligned_iff: "4096 dvd unat (w :: u64) \<longleftrightarrow> (\<forall>n<12. \<not> bit w n)"
  using dvd_iff_low_bits[of 12 w] by simp

lemma entry_frame_aligned: "4096 dvd unat (entry_frame e)"
  by (simp add: aligned_iff bit_entry_frame)

subsection \<open>The tree of tables\<close>

fun walk :: "pager \<Rightarrow> u64 \<Rightarrow> u64 list \<Rightarrow> u64 option" where
  "walk s t [] = Some t"
| "walk s t (i # p) =
     (let e = entry_at s t i
      in if present e \<and> \<not> large e then walk s (entry_frame e) p else None)"

definition root :: "pager \<Rightarrow> u64" where
  "root s = pml4 s - hhdm s"

definition tables :: "pager \<Rightarrow> u64 list \<Rightarrow> u64 option" where
  "tables s p = walk s (root s) p"

definition is_path :: "u64 list \<Rightarrow> bool" where
  "is_path p \<longleftrightarrow> length p \<le> 3 \<and> (\<forall>i \<in> set p. i < 512)"

definition pt_inv :: "pager \<Rightarrow> bool" where
  "pt_inv s \<longleftrightarrow> frame_inv (frames s) \<and> 4096 dvd unat (root s) \<and>
     (\<forall>p t. is_path p \<longrightarrow> tables s p = Some t \<longrightarrow> t \<notin> frame_avail (frames s)) \<and>
     (\<forall>p q t. is_path p \<longrightarrow> is_path q \<longrightarrow> tables s p = Some t \<longrightarrow> tables s q = Some t \<longrightarrow> p = q) \<and>
     (\<forall>p t i. is_path p \<longrightarrow> length p < 3 \<longrightarrow> i < 512 \<longrightarrow> tables s p = Some t \<longrightarrow>
        present (entry_at s t i) \<longrightarrow> \<not> large (entry_at s t i) \<longrightarrow>
        entry_at s t i AND NOT 0xfff = entry_frame (entry_at s t i))"

text \<open>The entry at index \<open>j\<close> of the table at path \<open>p\<close>, when there is one.\<close>

definition ent :: "pager \<Rightarrow> u64 list \<Rightarrow> u64 \<Rightarrow> u64 option" where
  "ent s p j = map_option (\<lambda>t. entry_at s t j) (tables s p)"

lemma walk_snoc:
  "walk s t (p @ [i]) = (case walk s t p of None \<Rightarrow> None | Some x \<Rightarrow>
     (let e = entry_at s x i in if present e \<and> \<not> large e then Some (entry_frame e) else None))"
  by (induction p arbitrary: t) (auto simp: Let_def)

lemma tables_snoc:
  "tables s (p @ [i]) = (case ent s p i of None \<Rightarrow> None | Some e \<Rightarrow>
     if present e \<and> \<not> large e then Some (entry_frame e) else None)"
  by (simp add: tables_def ent_def walk_snoc Let_def split: option.split)

lemma tables_Nil [simp]: "tables s [] = Some (root s)"
  by (simp add: tables_def)

lemma is_path_snoc [simp]: "is_path (p @ [i]) \<longleftrightarrow> is_path p \<and> length p < 3 \<and> i < 512"
  by (auto simp: is_path_def)

lemma is_path_Nil [simp]: "is_path []"
  by (simp add: is_path_def)

lemma table_aligned:
  assumes "pt_inv s" "tables s p = Some t"
  shows "4096 dvd unat t"
proof (cases p rule: rev_cases)
  case Nil
  with assms show ?thesis by (simp add: pt_inv_def)
next
  case (snoc q i)
  with assms(2) show ?thesis
    by (auto simp: tables_snoc entry_frame_aligned split: option.splits if_splits)
qed

lemma pt_inv_unavail: "pt_inv s \<Longrightarrow> is_path p \<Longrightarrow> tables s p = Some t \<Longrightarrow> t \<notin> frame_avail (frames s)"
  and pt_inv_unique: "pt_inv s \<Longrightarrow> is_path p \<Longrightarrow> is_path q \<Longrightarrow> tables s p = Some t \<Longrightarrow> tables s q = Some t \<Longrightarrow> p = q"
  and pt_inv_canon: "pt_inv s \<Longrightarrow> is_path p \<Longrightarrow> length p < 3 \<Longrightarrow> i < 512 \<Longrightarrow> tables s p = Some t \<Longrightarrow>
    present (entry_at s t i) \<Longrightarrow> \<not> large (entry_at s t i) \<Longrightarrow>
    entry_at s t i AND NOT 0xfff = entry_frame (entry_at s t i)"
  unfolding pt_inv_def by blast+

lemma frame_entry:
  assumes "4096 dvd unat f" "unat f < 2 ^ 44"
  shows "entry_frame (f OR 3) = f" "present (f OR 3)" "\<not> large (f OR 3)" "(f OR 3) AND NOT 0xfff = f"
proof -
  have low: "\<not> bit f n" if "n < 12" for n using assms(1) that by (simp add: aligned_iff)
  have high: "\<not> bit f n" if "44 \<le> n" for n
  proof -
    have "unat (drop_bit 44 f) = 0" using assms(2) by (simp add: unat_shift_right)
    then have "drop_bit 44 f = 0" by (simp add: unsigned_eq_0_iff)
    then have "\<not> bit (drop_bit 44 f) (n - 44)" by simp
    then show ?thesis using that by (simp add: bit_drop_bit_eq)
  qed
  have bounds: "12 \<le> n \<and> n < 44" if "bit f n" for n using that low high by (meson not_le)
  have m: "(3 :: u64) = mask 2" "(0xfff :: u64) = mask 12" by (simp_all add: mask_eq_exp_minus_1)
  show "present (f OR 3)" "\<not> large (f OR 3)" by (simp_all add: present_def large_def bit_or_iff low)
  show "entry_frame (f OR 3) = f" unfolding m
    by (rule bit_word_eqI) (auto simp: bit_entry_frame bit_or_iff bit_mask_iff dest: bounds)
  show "(f OR 3) AND NOT 0xfff = f" unfolding m
    by (rule bit_word_eqI) (auto simp: bit_or_iff bit_and_iff bit_not_iff bit_mask_iff dest: bounds)
qed

subsection \<open>One level of the walk\<close>

lemma frame_avail_frame:
  "frame_inv fr \<Longrightarrow> f \<in> frame_avail fr \<Longrightarrow> f \<noteq> 0 \<and> 4096 dvd unat f \<and> unat f < 2 ^ 44"
  by (rule kframe.avail_frame)

text \<open>A table that is linked already is followed and nothing changes.\<close>

lemma next_table_present:
  assumes "pt_inv s" "is_path (p @ [i])" "tables s p = Some t"
    "present (entry_at s t i)" "\<not> large (entry_at s t i)"
  shows "next_table (t + hhdm s) i s = Inr (entry_frame (entry_at s t i) + hhdm s, s)"
    "tables s (p @ [i]) = Some (entry_frame (entry_at s t i))"
proof -
  have e: "pg_get s (t + hhdm s) i = entry_at s t i" by (simp add: pg_get_def entry_at_def)
  have "entry_at s t i AND 1 \<noteq> 0" using assms(4) and_bit_eq_0[of "entry_at s t i" 0] by (simp add: present_def)
  moreover have "entry_at s t i AND NOT 0xfff = entry_frame (entry_at s t i)"
    using assms by (auto simp: pt_inv_def)
  ultimately show "next_table (t + hhdm s) i s = Inr (entry_frame (entry_at s t i) + hhdm s, s)"
    by (simp add: next_table_def e)
  show "tables s (p @ [i]) = Some (entry_frame (entry_at s t i))"
    using assms by (simp add: tables_snoc ent_def)
qed

text \<open>The state after a missing table has been linked at path \<open>p @ [i]\<close>.\<close>

definition linked :: "pager \<Rightarrow> u64 list \<Rightarrow> u64 \<Rightarrow> u64 \<Rightarrow> u64 \<Rightarrow> pfa \<Rightarrow> pager" where
  "linked s p t i f fr = pg_put (t + hhdm s) i (f OR 3) (zero_table f (s\<lparr>frames := fr\<rparr>))"

lemma linked_rest [simp]:
  "pml4 (linked s p t i f fr) = pml4 s" "hhdm (linked s p t i f fr) = hhdm s"
  "frames (linked s p t i f fr) = fr" "root (linked s p t i f fr) = root s"
  by (simp_all add: linked_def root_def)

lemma entry_at_frames [simp]: "entry_at (s\<lparr>frames := fr\<rparr>) x j = entry_at s x j"
  by (simp add: entry_at_def)

lemma linked_entry:
  assumes "4096 dvd unat x" "4096 dvd unat t" "4096 dvd unat f" "i < 512" "j < 512" "t \<noteq> f"
  shows "entry_at (linked s p t i f fr) x j =
    (if x = t \<and> j = i then f OR 3 else if x = f then 0 else entry_at s x j)"
proof -
  have "entry_at (linked s p t i f fr) x j =
      (if x = t \<and> j = i then f OR 3 else entry_at (zero_table f (s\<lparr>frames := fr\<rparr>)) x j)"
    unfolding linked_def using entry_put[OF assms(1,2,5,4), of "zero_table f (s\<lparr>frames := fr\<rparr>)" "f OR 3"]
    by simp
  also have "entry_at (zero_table f (s\<lparr>frames := fr\<rparr>)) x j = (if x = f then 0 else entry_at s x j)"
    using entry_zero_table[OF assms(1,3,5), of "s\<lparr>frames := fr\<rparr>"] by simp
  finally show ?thesis .
qed

lemma tables_linked:
  assumes inv: "pt_inv s" and p: "is_path (p @ [i])" "tables s p = Some t" "tables s (p @ [i]) = None"
    and f: "f \<in> frame_avail (frames s)" and q: "is_path q"
  shows "tables (linked s p t i f fr) q = (if q = p @ [i] then Some f else tables s q)"
  using q
proof (induction q rule: rev_induct)
  case Nil
  then show ?case by (simp add: tables_def)
next
  case (snoc j q)
  let ?s = "linked s p t i f fr"
  have q: "is_path q" "length q < 3" "j < 512" using snoc.prems by auto
  note IH = snoc.IH[OF q(1)]
  have ff: "4096 dvd unat f" "unat f < 2 ^ 44" using frame_avail_frame[of "frames s" f] inv f by (auto simp: pt_inv_def)
  have i: "i < 512" "is_path p" using p(1) by auto
  have fresh: "x \<noteq> f" if "tables s r = Some x" "is_path r" for r x
    using inv f that by (auto simp: pt_inv_def)
  have at: "4096 dvd unat t" "t \<noteq> f" using table_aligned[OF inv p(2)] fresh[OF p(2) i(2)] by auto
  show ?case
  proof (cases "q = p @ [i]")
    case True
    have "entry_at ?s f j = 0" using linked_entry[OF ff(1) at(1) ff(1) i(1) q(3) at(2)] at(2) by auto
    then have "tables ?s (q @ [j]) = None"
      unfolding tables_snoc[of ?s q j] ent_def IH using True by (simp add: present_def)
    moreover have "tables s (q @ [j]) = None" using True p(3) by (subst tables_snoc) (simp add: ent_def)
    ultimately show ?thesis using True by simp
  next
    case False
    show ?thesis
    proof (cases "tables s q")
      case None
      then have "tables s (q @ [j]) = None" "tables ?s (q @ [j]) = None"
        using False IH by (subst tables_snoc, simp add: ent_def)+
      moreover have "q @ [j] \<noteq> p @ [i]" using None p(2) by auto
      ultimately show ?thesis by simp
    next
      case (Some x)
      have ax: "4096 dvd unat x" "x \<noteq> f" using table_aligned[OF inv Some] fresh[OF Some q(1)] by auto
      have "x = t \<longleftrightarrow> q = p" using inv Some p(2) q(1) i(2) unfolding pt_inv_def by (metis option.inject)
      then have "entry_at ?s x j = (if q @ [j] = p @ [i] then f OR 3 else entry_at s x j)"
        using linked_entry[OF ax(1) at(1) ff(1) i(1) q(3) at(2)] ax(2) by auto
      then show ?thesis using False IH Some frame_entry[OF ff] by (auto simp: tables_snoc ent_def)
    qed
  qed
qed

lemma linked_ent:
  assumes inv: "pt_inv s" and p: "is_path (p @ [i])" "tables s p = Some t" "tables s (p @ [i]) = None"
    and f: "f \<in> frame_avail (frames s)" and q: "is_path q" "j < 512"
  shows "ent (linked s p t i f fr) q j =
    (if q = p \<and> j = i then Some (f OR 3) else if q = p @ [i] then Some 0 else ent s q j)"
proof -
  have ff: "4096 dvd unat f" using frame_avail_frame[of "frames s" f] inv f by (auto simp: pt_inv_def)
  have i: "i < 512" "is_path p" using p(1) by auto
  have fresh: "x \<noteq> f" if "tables s r = Some x" "is_path r" for r x
    using inv f that by (auto simp: pt_inv_def)
  have at: "4096 dvd unat t" "t \<noteq> f" using table_aligned[OF inv p(2)] fresh[OF p(2) i(2)] by auto
  show ?thesis
  proof (cases "q = p @ [i]")
    case True
    then show ?thesis
      using tables_linked[OF inv p f q(1), of fr] linked_entry[OF ff at(1) ff i(1) q(2) at(2)] at(2)
      by (auto simp: ent_def)
  next
    case False
    show ?thesis
    proof (cases "tables s q")
      case None
      then show ?thesis using False tables_linked[OF inv p f q(1), of fr] p(2) by (auto simp: ent_def)
    next
      case (Some x)
      have ax: "4096 dvd unat x" "x \<noteq> f" using table_aligned[OF inv Some] fresh[OF Some q(1)] by auto
      have "x = t \<longleftrightarrow> q = p" using inv Some p(2) q(1) i(2) unfolding pt_inv_def by (metis option.inject)
      then show ?thesis
        using False Some tables_linked[OF inv p f q(1), of fr]
          linked_entry[OF ax(1) at(1) ff i(1) q(2) at(2)] ax(2) by (simp add: ent_def)
    qed
  qed
qed

lemma linked_inv:
  assumes inv: "pt_inv s" and p: "is_path (p @ [i])" "tables s p = Some t" "tables s (p @ [i]) = None"
    and f: "f \<in> frame_avail (frames s)"
    and fr: "frame_inv fr" "frame_avail fr = frame_avail (frames s) - {f}"
  shows "pt_inv (linked s p t i f fr)"
proof -
  let ?s = "linked s p t i f fr"
  note tab = tables_linked[OF inv p f, of _ fr] and en = linked_ent[OF inv p f, of _ _ fr]
  have ff: "4096 dvd unat f" "unat f < 2 ^ 44" using frame_avail_frame[of "frames s" f] inv f by (auto simp: pt_inv_def)
  have fresh: "x \<noteq> f" if "tables s r = Some x" "is_path r" for r x
    using inv f that by (auto simp: pt_inv_def)
  have unavail: "x \<notin> frame_avail fr" if "is_path q" "tables ?s q = Some x" for q x
    using that tab fr(2) inv by (auto simp: pt_inv_def split: if_splits)
  have uniq: "q = r" if "is_path q" "is_path r" "tables ?s q = Some x" "tables ?s r = Some x" for q r x
    using that tab fresh inv unfolding pt_inv_def by (metis option.inject)
  have canon: "e AND NOT 0xfff = entry_frame e"
    if "is_path q" "length q < 3" "j < 512" "tables ?s q = Some x" "present e" "\<not> large e" "e = entry_at ?s x j"
    for q x j e
  proof -
    have e: "ent ?s q j = Some e" using that by (simp add: ent_def)
    show ?thesis
    proof (cases "(q = p \<and> j = i) \<or> q = p @ [i]")
      case True
      then have "e = f OR 3" using e en[OF that(1,3)] that(5) by (auto simp: present_def split: if_splits)
      then show ?thesis using frame_entry[OF ff] by simp
    next
      case False
      then have "ent s q j = Some e" using e en[OF that(1,3)] by auto
      then obtain y where "tables s q = Some y" "e = entry_at s y j" by (auto simp: ent_def)
      then show ?thesis using pt_inv_canon[OF inv that(1-3)] that(5,6) by simp
    qed
  qed
  show ?thesis unfolding pt_inv_def
  proof (intro conjI allI impI)
    show "frame_inv (frames ?s)" "4096 dvd unat (root ?s)" using fr(1) inv by (simp_all add: pt_inv_def)
    fix q r x j
    assume q: "is_path q" "tables ?s q = Some x"
    show "x \<notin> frame_avail (frames ?s)" using unavail[OF q] by simp
    show "q = r" if "is_path r" "tables ?s r = Some x" using uniq[OF q(1) that(1) q(2) that(2)] .
    show "entry_at ?s x j AND NOT 0xfff = entry_frame (entry_at ?s x j)"
      if "length q < 3" "j < 512" "present (entry_at ?s x j)" "\<not> large (entry_at ?s x j)"
      using canon[OF q(1) that(1,2) q(2) that(3,4) refl] .
  qed
qed

subsection \<open>Translation as a function of the table entries\<close>

definition mmu_of :: "(u64 list \<Rightarrow> u64 \<Rightarrow> u64 option) \<Rightarrow> u64 \<Rightarrow> u64 option" where
  "mmu_of E v =
     (case E [] (idx 3 v) of None \<Rightarrow> None | Some e4 \<Rightarrow>
      if \<not> present e4 \<or> large e4 then None else
      case E [idx 3 v] (idx 2 v) of None \<Rightarrow> None | Some e3 \<Rightarrow>
      if \<not> present e3 then None else
      if large e3 then Some ((entry_frame e3 AND NOT (mask 30)) OR page_off 30 v) else
      case E [idx 3 v, idx 2 v] (idx 1 v) of None \<Rightarrow> None | Some e2 \<Rightarrow>
      if \<not> present e2 then None else
      if large e2 then Some ((entry_frame e2 AND NOT (mask 21)) OR page_off 21 v) else
      case E [idx 3 v, idx 2 v, idx 1 v] (idx 0 v) of None \<Rightarrow> None | Some e1 \<Rightarrow>
      if \<not> present e1 then None else Some (entry_frame e1 OR page_off 12 v))"

lemma mmu_ent: "mmu s (root s) v = mmu_of (ent s) v"
  by (simp add: mmu_def mmu_of_def ent_def tables_def Let_def)

lemma mmu_of_cong:
  assumes "E [] (idx 3 v) = F [] (idx 3 v)" "E [idx 3 v] (idx 2 v) = F [idx 3 v] (idx 2 v)"
    "E [idx 3 v, idx 2 v] (idx 1 v) = F [idx 3 v, idx 2 v] (idx 1 v)"
    "E [idx 3 v, idx 2 v, idx 1 v] (idx 0 v) = F [idx 3 v, idx 2 v, idx 1 v] (idx 0 v)"
  shows "mmu_of E v = mmu_of F v"
  unfolding mmu_of_def assms ..

lemma mmu_of_cong_paths:
  assumes "\<And>p j. is_path p \<Longrightarrow> j < 512 \<Longrightarrow> E p j = F p j"
  shows "mmu_of E v = mmu_of F v"
  by (rule mmu_of_cong) (simp_all add: assms is_path_def)

text \<open>Linking an empty table where there was none changes no translation.\<close>

lemma mmu_of_linked:
  assumes len: "length p < 3" and e: "E p i = Some e" "\<not> present e" and n: "present n" "\<not> large n"
  shows "mmu_of (\<lambda>q j. if q = p \<and> j = i then Some n else if q = p @ [i] then Some 0 else E q j) v = mmu_of E v"
    (is "mmu_of ?E v = _")
proof -
  have z: "\<not> present 0" by (simp add: present_def)
  have "p = [] \<or> p = [idx 3 v] \<or> p = [idx 3 v, idx 2 v] \<or>
    (p \<noteq> [] \<and> p \<noteq> [idx 3 v] \<and> p \<noteq> [idx 3 v, idx 2 v])" by blast
  then consider (hit3) "p = []" "i = idx 3 v" | (hit2) "p = [idx 3 v]" "i = idx 2 v"
    | (hit1) "p = [idx 3 v, idx 2 v]" "i = idx 1 v"
    | (miss) "p @ [i] \<noteq> [idx 3 v]" "p @ [i] \<noteq> [idx 3 v, idx 2 v]" "p @ [i] \<noteq> [idx 3 v, idx 2 v, idx 1 v]"
    by fastforce
  then show ?thesis
  proof cases
    case hit3
    then show ?thesis using e n z by (simp add: mmu_of_def)
  next
    case hit2
    then show ?thesis using e n z by (simp add: mmu_of_def cong: option.case_cong if_cong)
  next
    case hit1
    then show ?thesis using e n z by (simp add: mmu_of_def cong: option.case_cong if_cong)
  next
    case miss
    then show ?thesis using len by (intro mmu_of_cong) auto
  qed
qed

text \<open>Writing the last-level entry of a page changes the translation of that page only.\<close>

definition same_page :: "u64 \<Rightarrow> u64 \<Rightarrow> bool" where
  "same_page v w \<longleftrightarrow> idx 3 v = idx 3 w \<and> idx 2 v = idx 2 w \<and> idx 1 v = idx 1 w \<and> idx 0 v = idx 0 w"

definition same_2m :: "u64 \<Rightarrow> u64 \<Rightarrow> bool" where
  "same_2m v w \<longleftrightarrow> idx 3 v = idx 3 w \<and> idx 2 v = idx 2 w \<and> idx 1 v = idx 1 w"

lemma mmu_of_leaf:
  assumes path: "E [] (idx 3 v) = Some e4" "present e4" "\<not> large e4"
    "E [idx 3 v] (idx 2 v) = Some e3" "present e3" "\<not> large e3"
    "E [idx 3 v, idx 2 v] (idx 1 v) = Some e2" "present e2" "\<not> large e2" "present n"
  shows "mmu_of (\<lambda>q j. if q = [idx 3 v, idx 2 v, idx 1 v] \<and> j = idx 0 v then Some n else E q j) w =
    (if same_page v w then Some (entry_frame n OR page_off 12 w) else mmu_of E w)"
proof (cases "same_page v w")
  case True
  then have "idx 3 w = idx 3 v" "idx 2 w = idx 2 v" "idx 1 w = idx 1 v" "idx 0 w = idx 0 v"
    by (simp_all add: same_page_def)
  then show ?thesis using True path by (simp add: mmu_of_def)
next
  case False
  then show ?thesis unfolding if_not_P[OF False]
    by (intro mmu_of_cong) (auto simp: same_page_def)
qed

lemma mmu_of_leaf_2m:
  assumes path: "E [] (idx 3 v) = Some e4" "present e4" "\<not> large e4"
    "E [idx 3 v] (idx 2 v) = Some e3" "present e3" "\<not> large e3" and n: "present n" "large n"
  shows "mmu_of (\<lambda>q j. if q = [idx 3 v, idx 2 v] \<and> j = idx 1 v then Some n
      else if prefix [idx 3 v, idx 2 v, idx 1 v] q then None else E q j) w =
    (if same_2m v w then Some ((entry_frame n AND NOT (mask 21)) OR page_off 21 w) else mmu_of E w)"
proof (cases "same_2m v w")
  case True
  then have "idx 3 w = idx 3 v" "idx 2 w = idx 2 v" "idx 1 w = idx 1 v"
    by (simp_all add: same_2m_def)
  then show ?thesis using True path n by (simp add: mmu_of_def)
next
  case False
  then show ?thesis unfolding if_not_P[OF False]
    by (intro mmu_of_cong) (auto simp: same_2m_def)
qed

subsection \<open>Growing the tree\<close>

text \<open>
  What the walk of \<open>map_page\<close> may do to the pager before the final write: it uses at most
  \<open>n\<close> frames, keeps the invariant, every table and every translation, and creates no
  large entry.
\<close>

definition large_at :: "pager \<Rightarrow> u64 list \<Rightarrow> u64 \<Rightarrow> bool" where
  "large_at s q j \<longleftrightarrow> (case ent s q j of None \<Rightarrow> False | Some e \<Rightarrow> present e \<and> large e)"

definition grows :: "nat \<Rightarrow> pager \<Rightarrow> pager \<Rightarrow> bool" where
  "grows n s s' \<longleftrightarrow> pt_inv s' \<and> hhdm s' = hhdm s \<and> pml4 s' = pml4 s \<and>
     (\<forall>v. mmu_of (ent s') v = mmu_of (ent s) v) \<and>
     (\<forall>q j. is_path q \<longrightarrow> j < 512 \<longrightarrow> large_at s' q j \<longrightarrow> large_at s q j) \<and>
     (\<forall>q x. is_path q \<longrightarrow> tables s q = Some x \<longrightarrow> tables s' q = Some x) \<and>
     frame_budget (frames s) \<le> n + frame_budget (frames s')"

lemma grows_refl: "pt_inv s \<Longrightarrow> grows 0 s s"
  by (simp add: grows_def)

lemma grows_trans: "grows m s t \<Longrightarrow> grows n t u \<Longrightarrow> grows (m + n) s u"
  unfolding grows_def by fastforce

lemma grows_weaken: "grows m s t \<Longrightarrow> m \<le> n \<Longrightarrow> grows n s t"
  by (auto simp: grows_def)

lemma linked_grows:
  assumes inv: "pt_inv s" and p: "is_path (p @ [i])" "tables s p = Some t" "\<not> present (entry_at s t i)"
    and f: "f \<in> frame_avail (frames s)"
    and fr: "frame_inv fr" "frame_avail fr = frame_avail (frames s) - {f}"
      "frame_budget (frames s) = Suc (frame_budget fr)"
  shows "grows 1 s (linked s p t i f fr)"
proof -
  have ei: "ent s p i = Some (entry_at s t i)" using p(2) by (simp add: ent_def)
  have none: "tables s (p @ [i]) = None" using ei p(3) by (simp add: tables_snoc)
  note en = linked_ent[OF inv p(1,2) none f, of _ _ fr] and tab = tables_linked[OF inv p(1,2) none f, of _ fr]
  have ff: "present (f OR 3)" "\<not> large (f OR 3)"
    using frame_entry[of f] frame_avail_frame[of "frames s" f] inv f by (auto simp: pt_inv_def)
  have "mmu_of (ent (linked s p t i f fr)) v = mmu_of (ent s) v" for v
  proof -
    have "mmu_of (ent (linked s p t i f fr)) v =
        mmu_of (\<lambda>q j. if q = p \<and> j = i then Some (f OR 3) else if q = p @ [i] then Some 0 else ent s q j) v"
      by (rule mmu_of_cong_paths) (rule en)
    also have "\<dots> = mmu_of (ent s) v" using p(1) by (intro mmu_of_linked[where E = "ent s", OF _ ei p(3) ff]) simp
    finally show ?thesis .
  qed
  moreover have "large_at (linked s p t i f fr) q j \<Longrightarrow> large_at s q j" if "is_path q" "j < 512" for q j
    using en[OF that] ff by (auto simp: large_at_def present_def split: if_splits)
  ultimately show ?thesis
    using linked_inv[OF inv p(1,2) none f fr(1,2)] tab none fr(3) by (auto simp: grows_def)
qed

lemma next_table_grows:
  assumes inv: "pt_inv s" and p: "is_path (p @ [i])" "tables s p = Some t" "\<not> large_at s p i"
    and budget: "0 < frame_budget (frames s)"
  obtains x s' where "next_table (t + hhdm s) i s = Inr (x + hhdm s, s')" "grows 1 s s'"
    "tables s' (p @ [i]) = Some x"
proof (cases "present (entry_at s t i)")
  case True
  then have "\<not> large (entry_at s t i)" using p by (simp add: large_at_def ent_def)
  from next_table_present[OF inv p(1,2) True this] that grows_weaken[OF grows_refl[OF inv], of 1]
  show ?thesis by simp
next
  case False
  have fi: "frame_inv (frames s)" using inv by (simp add: pt_inv_def)
  from kalloc_frame_budget[OF fi budget] obtain f fr where k: "kalloc_frame (frames s) = Inr (f, fr)"
    and f: "f \<in> frame_avail (frames s)" and fr: "frame_avail fr = frame_avail (frames s) - {f}"
      "frame_inv fr" "frame_budget (frames s) = Suc (frame_budget fr)" by blast
  let ?s = "linked s p t i f fr"
  have none: "tables s (p @ [i]) = None" using False p(2) by (simp add: tables_snoc ent_def)
  have g: "grows 1 s ?s" by (rule linked_grows[OF inv p(1,2) False f fr(2,1,3)])
  have tp: "tables ?s (p @ [i]) = Some f" using tables_linked[OF inv p(1,2) none f p(1)] by simp
  have al: "4096 dvd unat t" "t \<noteq> f" "i < 512" "is_path p"
    using table_aligned[OF inv p(2)] pt_inv_unavail[OF inv _ p(2)] f p(1) by auto
  have ff: "4096 dvd unat f" "unat f < 2 ^ 44" using frame_avail_frame[OF fi f] by auto
  have "entry_at ?s t i = f OR 3" using linked_entry[OF al(1,1) ff(1) al(3,3,2)] by simp
  then have "pg_get ?s (t + hhdm s) i AND NOT 0xfff = f"
    using frame_entry(4)[OF ff] by (simp add: pg_get_def entry_at_def)
  moreover have "pg_get s (t + hhdm s) i AND 1 = 0"
    using False and_bit_eq_0[of "entry_at s t i" 0] by (simp add: present_def pg_get_def entry_at_def)
  ultimately have "next_table (t + hhdm s) i s = Inr (f + hhdm s, ?s)"
    using k by (simp add: next_table_def linked_def)
  then show ?thesis using that g tp by blast
qed

subsection \<open>Writing the final entry\<close>

lemma put_tables:
  assumes inv: "pt_inv s" and p: "is_path p" "tables s p = Some t" "i < 512"
    and e: "length p = 3 \<or> \<not> present e \<or> large e" and q: "is_path q"
  shows "tables (pg_put (t + hhdm s) i e s) q = (if prefix (p @ [i]) q then None else tables s q)"
  using q
proof (induction q rule: rev_induct)
  case Nil
  then show ?case by (simp add: tables_def root_def)
next
  case (snoc j q)
  let ?s = "pg_put (t + hhdm s) i e s"
  have q: "is_path q" "length q < 3" "j < 512" using snoc.prems by auto
  note IH = snoc.IH[OF q(1)]
  have at: "4096 dvd unat t" using table_aligned[OF inv p(2)] .
  have nxt: "tables ?s (q @ [j]) = (case tables ?s q of None \<Rightarrow> None | Some x \<Rightarrow>
    if present (entry_at ?s x j) \<and> \<not> large (entry_at ?s x j) then Some (entry_frame (entry_at ?s x j)) else None)"
    by (simp add: tables_snoc[of ?s] ent_def split: option.split)
  show ?case
  proof (cases "tables ?s q")
    case None
    then have "prefix (p @ [i]) q \<or> tables s q = None" using IH by (auto split: if_splits)
    then show ?thesis unfolding nxt None
      by (auto simp: tables_snoc[of s] ent_def prefix_snoc)
  next
    case (Some x)
    then have x: "\<not> prefix (p @ [i]) q" "tables s q = Some x" using IH by (auto split: if_splits)
    have "x = t \<longleftrightarrow> q = p" using pt_inv_unique[OF inv q(1) p(1) x(2)] p(2) x(2) by auto
    then have en: "entry_at ?s x j = (if q @ [j] = p @ [i] then e else entry_at s x j)"
      using entry_put[OF table_aligned[OF inv x(2)] at q(3) p(3)] by auto
    show ?thesis unfolding nxt Some option.case en using x(1) e q(2)
      by (auto simp: tables_snoc[of s] ent_def x(2) prefix_snoc)
  qed
qed

lemma put_ent:
  assumes inv: "pt_inv s" and p: "is_path p" "tables s p = Some t" "i < 512"
    and e: "length p = 3 \<or> \<not> present e \<or> large e" and q: "is_path q" "j < 512"
  shows "ent (pg_put (t + hhdm s) i e s) q j =
    (if q = p \<and> j = i then Some e else if prefix (p @ [i]) q then None else ent s q j)"
proof (cases "prefix (p @ [i]) q \<or> tables s q = None")
  case True
  moreover have "\<not> (prefix (p @ [i]) q \<and> q = p)" by (auto simp: prefix_def)
  ultimately show ?thesis using put_tables[OF inv p e q(1)] p(2) by (auto simp: ent_def)
next
  case False
  then obtain x where x: "tables s q = Some x" "\<not> prefix (p @ [i]) q" by blast
  have "x = t \<longleftrightarrow> q = p" using pt_inv_unique[OF inv q(1) p(1) x(1)] p(2) x(1) by auto
  then show ?thesis using x put_tables[OF inv p e q(1)]
      entry_put[OF table_aligned[OF inv x(1)] table_aligned[OF inv p(2)] q(2) p(3)]
    by (simp add: ent_def)
qed

lemma put_inv:
  assumes inv: "pt_inv s" and p: "is_path p" "tables s p = Some t" "i < 512"
    and e: "length p = 3 \<or> \<not> present e \<or> large e"
  shows "pt_inv (pg_put (t + hhdm s) i e s)"
proof -
  let ?s = "pg_put (t + hhdm s) i e s"
  have sub: "tables s q = Some x" if "is_path q" "tables ?s q = Some x" for q x
    using that put_tables[OF inv p e] by (auto split: if_splits)
  have canon: "c AND NOT 0xfff = entry_frame c"
    if "is_path q" "length q < 3" "j < 512" "tables ?s q = Some x" "present c" "\<not> large c" "c = entry_at ?s x j"
    for q x j c
  proof -
    have "ent ?s q j = Some c" using that by (simp add: ent_def)
    moreover have "\<not> (q = p \<and> j = i)" using that(2,5,6) e calculation put_ent[OF inv p e that(1,3)] by auto
    ultimately have "ent s q j = Some c" using put_ent[OF inv p e that(1,3)] by (auto split: if_splits)
    then have "c = entry_at s x j" using sub[OF that(1,4)] by (simp add: ent_def)
    then show ?thesis using pt_inv_canon[OF inv that(1-3) sub[OF that(1,4)]] that(5,6) by simp
  qed
  show ?thesis unfolding pt_inv_def
  proof (intro conjI allI impI)
    show "frame_inv (frames ?s)" "4096 dvd unat (root ?s)" using inv by (simp_all add: pt_inv_def root_def)
    fix q r x j
    assume q: "is_path q" "tables ?s q = Some x"
    show "x \<notin> frame_avail (frames ?s)" using pt_inv_unavail[OF inv q(1) sub[OF q]] by simp
    show "q = r" if "is_path r" "tables ?s r = Some x"
      using pt_inv_unique[OF inv q(1) that(1) sub[OF q] sub[OF that]] .
    show "entry_at ?s x j AND NOT 0xfff = entry_frame (entry_at ?s x j)"
      if "length q < 3" "j < 512" "present (entry_at ?s x j)" "\<not> large (entry_at ?s x j)"
      using canon[OF q(1) that(1,2) q(2) that(3,4) refl] .
  qed
qed

subsection \<open>The effect of \<open>map_page\<close> and \<open>map_page_2m\<close>\<close>

text \<open>
  The indices above level \<open>l\<close> of an address, and whether a large page lies on its walk
  at level \<open>l\<close> or above.
\<close>

definition vpath :: "nat \<Rightarrow> u64 \<Rightarrow> u64 list" where
  "vpath l v = map (\<lambda>k. idx k v) (rev [Suc l..<4])"

definition blocked :: "nat \<Rightarrow> pager \<Rightarrow> u64 \<Rightarrow> bool" where
  "blocked l s v \<longleftrightarrow> (\<exists>k \<in> set [l..<4]. large_at s (vpath k v) (idx k v))"

lemma vpath_simps:
  "vpath 3 v = []" "vpath 2 v = [idx 3 v]" "vpath 1 v = [idx 3 v, idx 2 v]"
  "vpath 0 v = [idx 3 v, idx 2 v, idx 1 v]"
  by (simp_all add: vpath_def upt_rec[of "Suc _"] numeral_nat)

lemma vpath_path [simp]: "l < 4 \<Longrightarrow> is_path (vpath l v)"
  by (auto simp: is_path_def vpath_def)

lemma vpath_Suc: "l < 3 \<Longrightarrow> vpath l v = vpath (Suc l) v @ [idx (Suc l) v]"
  by (simp add: vpath_def upt_conv_Cons[of "Suc l" 4])

lemma blockedI: "large_at s (vpath k v) (idx k v) \<Longrightarrow> l \<le> k \<Longrightarrow> k < 4 \<Longrightarrow> blocked l s v"
  by (auto simp: blocked_def)

lemma grows_blocked:
  assumes "grows n s t" "blocked l t v"
  shows "blocked l s v"
proof -
  obtain k where k: "l \<le> k" "k < 4" "large_at t (vpath k v) (idx k v)"
    using assms(2) by (auto simp: blocked_def)
  then have "large_at s (vpath k v) (idx k v)" using assms(1) by (simp add: grows_def)
  with k show ?thesis by (blast intro: blockedI)
qed

text \<open>One step down: from the table at level \<open>Suc l\<close> to the one at level \<open>l\<close>.\<close>

lemma descend:
  assumes g: "grows n s s1" and tab: "tables s1 (vpath (Suc l) v) = Some t" and l: "l < 3"
    and free: "\<not> blocked (Suc l) s v" and budget: "n < frame_budget (frames s)"
  obtains x s2 where "next_table (t + hhdm s) (idx (Suc l) v) s1 = Inr (x + hhdm s, s2)"
    "grows (Suc n) s s2" "tables s2 (vpath l v) = Some x"
proof -
  have inv: "pt_inv s1" and h: "hhdm s1 = hhdm s" and b: "0 < frame_budget (frames s1)"
    using g budget by (auto simp: grows_def)
  have "\<not> large_at s1 (vpath (Suc l) v) (idx (Suc l) v)"
    using grows_blocked[OF g, of "Suc l" v] blockedI[of s1 "Suc l" v "Suc l"] free l by auto
  moreover have "is_path (vpath (Suc l) v @ [idx (Suc l) v])" using l by (simp add: vpath_def is_path_def)
  ultimately obtain x s2 where "next_table (t + hhdm s1) (idx (Suc l) v) s1 = Inr (x + hhdm s1, s2)"
    "grows 1 s1 s2" "tables s2 (vpath (Suc l) v @ [idx (Suc l) v]) = Some x"
    using next_table_grows[OF inv _ tab _ b] by blast
  then show ?thesis using that h grows_trans[OF g, of 1 s2] vpath_Suc[OF l, of v] by simp
qed

lemma root_table: "tables s (vpath 3 v) = Some (root s)"
  by (simp add: vpath_simps)

lemma pml4_root: "pml4 s = root s + hhdm s"
  by (simp add: root_def)

lemma walk_indices:
  "drop_bit 39 v AND 0x1ff = idx 3 v" "drop_bit 30 v AND 0x1ff = idx 2 v"
  "drop_bit 21 v AND 0x1ff = idx 1 v" "drop_bit 12 v AND 0x1ff = idx 0 v"
  by (simp_all add: idx_def)

lemma grows_root: "grows n s t \<Longrightarrow> root t = root s"
  by (simp add: grows_def root_def)

text \<open>The entries on the way to an existing table are present and lead to tables.\<close>

lemma table_above:
  assumes "tables s (p @ [i]) = Some x"
  obtains t e where "tables s p = Some t" "ent s p i = Some e" "present e" "\<not> large e"
  using assms by (auto simp: tables_snoc ent_def split: option.splits if_splits)

lemma page_entry:
  assumes "4096 dvd unat paddr" "paddr < 2 ^ 52"
  shows "entry_frame (paddr OR ucast (flags AND 0xFFF :: u32) OR 3) = paddr"
    "present (paddr OR ucast (flags AND 0xFFF :: u32) OR 3)"
proof -
  have m: "(0xFFF :: u32) = mask 12" "(3 :: u64) = mask 2" by (simp_all add: mask_eq_exp_minus_1)
  have low: "\<not> bit paddr n" if "n < 12" for n using assms(1) that by (simp add: aligned_iff)
  have high: "\<not> bit paddr n" if "52 \<le> n" for n
  proof -
    have "unat paddr < 2 ^ 52" using assms(2) by (simp add: word_less_nat_alt)
    then have "unat (drop_bit 52 paddr) = 0" by (simp add: unat_shift_right)
    then have "drop_bit 52 paddr = 0" by (simp add: unsigned_eq_0_iff)
    then have "\<not> bit (drop_bit 52 paddr) (n - 52)" by simp
    then show ?thesis using that by (simp add: bit_drop_bit_eq)
  qed
  have bounds: "12 \<le> n \<and> n < 52" if "bit paddr n" for n using that low high by (meson not_le)
  show "entry_frame (paddr OR ucast (flags AND 0xFFF :: u32) OR 3) = paddr" unfolding m
    by (rule bit_word_eqI)
      (auto simp: bit_entry_frame bit_or_iff bit_and_iff bit_mask_iff bit_simps dest: bounds)
  show "present (paddr OR ucast (flags AND 0xFFF :: u32) OR 3)" by (simp add: present_def bit_or_iff)
qed

lemma mapped_page:
  assumes g: "grows n s s'" and t: "tables s' (vpath 0 v) = Some t" and e: "present e"
  defines "s'' \<equiv> pg_put (t + hhdm s) (idx 0 v) e s'"
  shows "pt_inv s''" "root s'' = root s"
    "mmu s'' (root s'') w =
       (if same_page v w then Some (entry_frame e OR page_off 12 w) else mmu s (root s) w)"
proof -
  have inv: "pt_inv s'" and h: "hhdm s' = hhdm s" using g by (auto simp: grows_def)
  have p: "is_path (vpath 0 v)" "length (vpath 0 v) = 3" by (simp_all add: vpath_simps is_path_def)
  have s'': "s'' = pg_put (t + hhdm s') (idx 0 v) e s'" by (simp add: s''_def h)
  show "pt_inv s''" unfolding s'' using put_inv[OF inv p(1) t] p(2) by simp
  show r: "root s'' = root s" using grows_root[OF g] by (simp add: s'' root_def)
  have en: "ent s'' q j = (if q = vpath 0 v \<and> j = idx 0 v then Some e else ent s' q j)"
    if "is_path q" "j < 512" for q j
    using that put_ent[OF inv p(1) t idx_bound disjI1[OF p(2)] that, where e = e] p(2)
    by (auto simp: s'' is_path_def prefix_def)
  have "tables s' ([idx 3 v, idx 2 v] @ [idx 1 v]) = Some t" using t by (simp add: vpath_simps)
  then obtain t2 e2 where e2: "tables s' [idx 3 v, idx 2 v] = Some t2"
    "ent s' [idx 3 v, idx 2 v] (idx 1 v) = Some e2" "present e2" "\<not> large e2" by (rule table_above)
  have "tables s' ([idx 3 v] @ [idx 2 v]) = Some t2" using e2 by simp
  then obtain t3 e3 where e3: "tables s' [idx 3 v] = Some t3"
    "ent s' [idx 3 v] (idx 2 v) = Some e3" "present e3" "\<not> large e3" by (rule table_above)
  have "tables s' ([] @ [idx 3 v]) = Some t3" using e3 by simp
  then obtain t4 e4 where e4: "ent s' [] (idx 3 v) = Some e4" "present e4" "\<not> large e4"
    by (rule table_above)
  have "mmu s'' (root s'') w = mmu_of (ent s'') w" by (rule mmu_ent)
  also have "\<dots> = mmu_of (\<lambda>q j. if q = [idx 3 v, idx 2 v, idx 1 v] \<and> j = idx 0 v then Some e else ent s' q j) w"
    using en by (intro mmu_of_cong_paths) (simp add: vpath_simps)
  also have "\<dots> = (if same_page v w then Some (entry_frame e OR page_off 12 w) else mmu_of (ent s') w)"
    using mmu_of_leaf[of "ent s'", OF e4 e3(2-4) e2(2-4) e] .
  also have "mmu_of (ent s') w = mmu s (root s) w" using g by (simp add: grows_def mmu_ent)
  finally show "mmu s'' (root s'') w =
       (if same_page v w then Some (entry_frame e OR page_off 12 w) else mmu s (root s) w)" .
qed

lemma map_page_walk:
  assumes inv: "pt_inv s" and budget: "3 \<le> frame_budget (frames s)" and free: "\<not> blocked 1 s v"
  obtains t s' where "grows 3 s s'" "tables s' (vpath 0 v) = Some t"
    "map_page paddr v flags s =
       Inr (pg_put (t + hhdm s) (idx 0 v) (paddr OR ucast (flags AND 0xFFF) OR 3) s')"
proof -
  have nb: "\<not> blocked (Suc 2) s v" "\<not> blocked (Suc 1) s v" "\<not> blocked (Suc 0) s v"
    using free by (auto simp: blocked_def)
  have r: "tables s (vpath (Suc 2) v) = Some (root s)" using root_table[of s v] by simp
  obtain x2 s1 where 1: "next_table (root s + hhdm s) (idx 3 v) s = Inr (x2 + hhdm s, s1)"
    "grows 1 s s1" "tables s1 (vpath 2 v) = Some x2"
    by (rule descend[OF grows_refl[OF inv] r _ nb(1)]) (use budget in auto)
  have r1: "tables s1 (vpath (Suc 1) v) = Some x2" using 1(3) by (simp add: numeral_2_eq_2)
  obtain x1 s2 where 2: "next_table (x2 + hhdm s) (idx 2 v) s1 = Inr (x1 + hhdm s, s2)"
    "grows 2 s s2" "tables s2 (vpath 1 v) = Some x1"
    by (rule descend[OF 1(2) r1 _ nb(2)]) (use budget in \<open>auto simp: numeral_2_eq_2\<close>)
  have r2: "tables s2 (vpath (Suc 0) v) = Some x1" using 2(3) by simp
  obtain x0 s3 where 3: "next_table (x1 + hhdm s) (idx 1 v) s2 = Inr (x0 + hhdm s, s3)"
    "grows 3 s s3" "tables s3 (vpath 0 v) = Some x0"
    by (rule descend[OF 2(2) r2 _ nb(3)]) (use budget in auto)
  show ?thesis
    by (rule that[OF 3(2,3)]) (simp add: map_page_def walk_indices pml4_root 1(1) 2(1) 3(1)[unfolded One_nat_def])
qed

lemma page_entry_2m:
  assumes "0x200000 dvd unat paddr" "paddr < 2 ^ 52" "flags < 0x1000"
  defines "e \<equiv> (paddr AND NOT 0x1fffff) OR flags OR 0x80 OR 3"
  shows "entry_frame e AND NOT (mask 21) = paddr" "present e" "large e"
proof -
  have m: "(0x1fffff :: u64) = mask 21" "(3 :: u64) = mask 2" by (simp_all add: mask_eq_exp_minus_1)
  have b7: "bit (0x80 :: u64) n \<longleftrightarrow> n = 7" for n using bit_two_power[of 7 n, where 'a = 64] by auto
  have low: "\<not> bit paddr n" if "n < 21" for n using assms(1) that dvd_iff_low_bits[of 21 paddr] by simp
  have high: "\<not> bit w n" if "unat w < 2 ^ k" "k \<le> n" for w :: u64 and n k
  proof -
    have "unat (drop_bit k w) = 0" using that(1) by (simp add: unat_shift_right)
    then have "drop_bit k w = 0" by (simp add: unsigned_eq_0_iff)
    then have "\<not> bit (drop_bit k w) (n - k)" by simp
    then show ?thesis using that(2) by (simp add: bit_drop_bit_eq)
  qed
  have "unat paddr < 2 ^ 52" "unat flags < 2 ^ 12" using assms(2,3) by (simp_all add: word_less_nat_alt)
  then have pb: "21 \<le> n \<and> n < 52" if "bit paddr n" for n using that low high[of paddr 52 n] by (meson not_le)
  have fb: "n < 12" if "bit flags n" for n
    using that high[of flags 12 n] \<open>unat flags < 2 ^ 12\<close> by (meson not_le)
  have be: "bit e n \<longleftrightarrow> n < 64 \<and> ((bit paddr n \<and> 21 \<le> n) \<or> bit flags n \<or> n = 7 \<or> n < 2)" for n
    unfolding e_def m bit_or_iff bit_and_iff bit_not_iff bit_mask_iff b7
    by (auto dest: bit_imp_le_length)
  show "entry_frame e AND NOT (mask 21) = paddr"
    by (rule bit_word_eqI)
      (auto simp: bit_and_iff bit_not_iff bit_mask_iff bit_entry_frame be dest: pb fb)
  show "present e" "large e" by (simp_all add: present_def large_def be)
qed

lemma mapped_page_2m:
  assumes g: "grows n s s'" and t: "tables s' (vpath 1 v) = Some t" and e: "present e" "large e"
  defines "s'' \<equiv> pg_put (t + hhdm s) (idx 1 v) e s'"
  shows "pt_inv s''" "root s'' = root s"
    "mmu s'' (root s'') w = (if same_2m v w then Some ((entry_frame e AND NOT (mask 21)) OR page_off 21 w)
       else mmu s (root s) w)"
proof -
  have inv: "pt_inv s'" and h: "hhdm s' = hhdm s" using g by (auto simp: grows_def)
  have p: "is_path (vpath 1 v)" by simp
  have s'': "s'' = pg_put (t + hhdm s') (idx 1 v) e s'" by (simp add: s''_def h)
  show "pt_inv s''" unfolding s'' using put_inv[OF inv p t] e by simp
  show r: "root s'' = root s" using grows_root[OF g] by (simp add: s'' root_def)
  have "tables s' ([idx 3 v] @ [idx 2 v]) = Some t" using t by (simp add: vpath_simps flip: One_nat_def)
  then obtain t3 e3 where e3: "tables s' [idx 3 v] = Some t3"
    "ent s' [idx 3 v] (idx 2 v) = Some e3" "present e3" "\<not> large e3" by (rule table_above)
  have "tables s' ([] @ [idx 3 v]) = Some t3" using e3 by simp
  then obtain t4 e4 where e4: "ent s' [] (idx 3 v) = Some e4" "present e4" "\<not> large e4"
    by (rule table_above)
  have "mmu s'' (root s'') w = mmu_of (ent s'') w" by (rule mmu_ent)
  also have "\<dots> = mmu_of (\<lambda>q j. if q = [idx 3 v, idx 2 v] \<and> j = idx 1 v then Some e
      else if prefix [idx 3 v, idx 2 v, idx 1 v] q then None else ent s' q j) w"
    unfolding s'' using put_ent[OF inv p t idx_bound, of e] e(2)
    by (intro mmu_of_cong_paths) (simp add: vpath_simps flip: One_nat_def)
  also have "\<dots> = (if same_2m v w then Some ((entry_frame e AND NOT (mask 21)) OR page_off 21 w)
      else mmu_of (ent s') w)"
    using mmu_of_leaf_2m[of "ent s'", OF e4 e3(2-4) e] .
  also have "mmu_of (ent s') w = mmu s (root s) w" using g by (simp add: grows_def mmu_ent)
  finally show "mmu s'' (root s'') w = (if same_2m v w then Some ((entry_frame e AND NOT (mask 21)) OR page_off 21 w)
       else mmu s (root s) w)" .
qed

lemma map_page_2m_walk:
  assumes inv: "pt_inv s" and budget: "2 \<le> frame_budget (frames s)" and free: "\<not> blocked 2 s v"
  obtains t s' where "grows 2 s s'" "tables s' (vpath 1 v) = Some t"
    "map_page_2m paddr v flags s =
       Inr (pg_put (t + hhdm s) (idx 1 v) ((paddr AND NOT 0x1fffff) OR flags OR 0x80 OR 3) s')"
proof -
  have nb: "\<not> blocked (Suc 2) s v" "\<not> blocked (Suc 1) s v"
    using free by (auto simp: blocked_def numeral_2_eq_2)
  have r: "tables s (vpath (Suc 2) v) = Some (root s)" using root_table[of s v] by simp
  obtain x2 s1 where 1: "next_table (root s + hhdm s) (idx 3 v) s = Inr (x2 + hhdm s, s1)"
    "grows 1 s s1" "tables s1 (vpath 2 v) = Some x2"
    by (rule descend[OF grows_refl[OF inv] r _ nb(1)]) (use budget in auto)
  have r1: "tables s1 (vpath (Suc 1) v) = Some x2" using 1(3) by (simp add: numeral_2_eq_2)
  obtain x1 s2 where 2: "next_table (x2 + hhdm s) (idx 2 v) s1 = Inr (x1 + hhdm s, s2)"
    "grows 2 s s2" "tables s2 (vpath 1 v) = Some x1"
    by (rule descend[OF 1(2) r1 _ nb(2)]) (use budget in \<open>auto simp: numeral_2_eq_2\<close>)
  show ?thesis
    by (rule that[OF 2(2,3)]) (simp add: map_page_2m_def walk_indices pml4_root 1(1) 2(1))
qed

end
