(* ===== verification/Nya_Pager_Boot.thy ===== *)
theory Nya_Pager_Boot
  imports Nya_Pager_Map
begin

unbundle bit_operations_syntax

section \<open>What the pager promises\<close>

text \<open>
  The effect of \<open>map_page\<close>, \<open>map_page_2m\<close> and \<open>free_page\<close> on the translation of every
  address, and the translation that \<open>paging_init\<close> leaves: the kernel image at its link
  address and the direct map of all physical memory.
\<close>

subsection \<open>Mapping one page\<close>

lemma map_page_effect:
  assumes inv: "pt_inv s" and budget: "3 \<le> frame_budget (frames s)" and free: "\<not> blocked 1 s v"
    and paddr: "4096 dvd unat paddr" "paddr < 2 ^ 52"
  obtains s' where "map_page paddr v flags s = Inr s'" "pt_inv s'" "root s' = root s" "hhdm s' = hhdm s"
    "\<And>w. mmu s' (root s') w = (if same_page v w then Some (paddr OR page_off 12 w) else mmu s (root s) w)"
    "frame_budget (frames s) \<le> 3 + frame_budget (frames s')"
    "\<And>q j. is_path q \<Longrightarrow> length q < 3 \<Longrightarrow> j < 512 \<Longrightarrow> large_at s' q j \<Longrightarrow> large_at s q j"
proof -
  obtain t s1 where s1: "grows 3 s s1" "tables s1 (vpath 0 v) = Some t"
    "map_page paddr v flags s =
       Inr (pg_put (t + hhdm s) (idx 0 v) (paddr OR ucast (flags AND 0xFFF) OR 3) s1)"
    using map_page_walk[OF inv budget free] by blast
  let ?e = "paddr OR ucast (flags AND 0xFFF) OR 3"
  let ?s = "pg_put (t + hhdm s) (idx 0 v) ?e s1"
  note e = page_entry[OF paddr, of flags]
  note m = mapped_page[OF s1(1,2) e(2)]
  have h: "hhdm s1 = hhdm s" "pt_inv s1" using s1(1) by (simp_all add: grows_def)
  have p: "is_path (vpath 0 v)" "length (vpath 0 v) = 3" by (simp_all add: vpath_simps is_path_def)
  have "large_at s q j" if q: "is_path q" "length q < 3" "j < 512" "large_at ?s q j" for q j
  proof -
    have "ent ?s q j = ent s1 q j \<or> ent ?s q j = None"
      using put_ent[OF h(2) p(1) s1(2) idx_bound disjI1[OF p(2)] q(1,3), where e = ?e] p(2) q(2)
      by (auto simp: h(1))
    then have "large_at s1 q j" using q(4) by (auto simp: large_at_def)
    then show ?thesis using s1(1) q by (simp add: grows_def)
  qed
  moreover have "frame_budget (frames s) \<le> 3 + frame_budget (frames ?s)" using s1(1) by (simp add: grows_def)
  ultimately show ?thesis using that[OF s1(3) m(1,2)] m(3) e(1) h(1) by simp
qed

lemma map_page_2m_effect:
  assumes inv: "pt_inv s" and budget: "2 \<le> frame_budget (frames s)" and free: "\<not> blocked 2 s v"
    and paddr: "0x200000 dvd unat paddr" "paddr < 2 ^ 52" and flags: "flags < 0x1000"
  obtains s' where "map_page_2m paddr v flags s = Inr s'" "pt_inv s'" "root s' = root s" "hhdm s' = hhdm s"
    "\<And>w. mmu s' (root s') w = (if same_2m v w then Some (paddr OR page_off 21 w) else mmu s (root s) w)"
    "frame_budget (frames s) \<le> 2 + frame_budget (frames s')"
    "\<And>q j. is_path q \<Longrightarrow> length q < 2 \<Longrightarrow> j < 512 \<Longrightarrow> large_at s' q j \<Longrightarrow> large_at s q j"
proof -
  let ?e = "(paddr AND NOT 0x1fffff) OR flags OR 0x80 OR 3"
  obtain t s1 where s1: "grows 2 s s1" "tables s1 (vpath 1 v) = Some t"
    "map_page_2m paddr v flags s =
       Inr (pg_put (t + hhdm s) (idx 1 v) ((paddr AND NOT 0x1fffff) OR flags OR 0x80 OR 3) s1)"
    using map_page_2m_walk[OF inv budget free] by blast
  let ?s = "pg_put (t + hhdm s) (idx 1 v) ?e s1"
  note e = page_entry_2m[OF paddr flags]
  note m = mapped_page_2m[OF s1(1,2) e(2,3)]
  have h: "hhdm s1 = hhdm s" "pt_inv s1" using s1(1) by (simp_all add: grows_def)
  have p: "is_path (vpath 1 v)" "length (vpath 1 v) = 2"
    by (simp_all add: vpath_simps is_path_def flip: One_nat_def)
  have "large_at s q j" if q: "is_path q" "length q < 2" "j < 512" "large_at ?s q j" for q j
  proof -
    have "ent ?s q j = ent s1 q j \<or> ent ?s q j = None"
      using put_ent[OF h(2) p(1) s1(2) idx_bound _ q(1,3), where e = ?e] e(3) p(2) q(2)
      by (auto simp: h(1))
    then have "large_at s1 q j" using q(4) by (auto simp: large_at_def)
    then show ?thesis using s1(1) q by (simp add: grows_def)
  qed
  moreover have "frame_budget (frames s) \<le> 2 + frame_budget (frames ?s)" using s1(1) by (simp add: grows_def)
  ultimately show ?thesis using that[OF s1(3) m(1,2)] m(3) e(1) h(1) by simp
qed

subsection \<open>Indices and addresses\<close>

lemma bit_idx: "bit (idx l v) n \<longleftrightarrow> n < 9 \<and> bit v (12 + 9 * l + n)"
proof -
  have m: "(0x1ff :: u64) = mask 9" by (simp add: mask_eq_exp_minus_1)
  show ?thesis unfolding idx_def m by (auto simp: bit_and_iff bit_mask_iff bit_drop_bit_eq)
qed

lemma idx_eq: "idx l v = idx l w \<longleftrightarrow> (\<forall>n. 12 + 9 * l \<le> n \<and> n < 21 + 9 * l \<longrightarrow> bit v n = bit w n)"
proof
  assume eq: "idx l v = idx l w"
  show "\<forall>n. 12 + 9 * l \<le> n \<and> n < 21 + 9 * l \<longrightarrow> bit v n = bit w n"
  proof (intro allI impI)
    fix n assume n: "12 + 9 * l \<le> n \<and> n < 21 + 9 * l"
    then have "bit (idx l v) (n - (12 + 9 * l)) = bit v n" "bit (idx l w) (n - (12 + 9 * l)) = bit w n"
      unfolding bit_idx by auto
    with eq show "bit v n = bit w n" by simp
  qed
qed (rule bit_word_eqI, auto simp: bit_idx)

lemma split_range:
  fixes a b c :: nat
  assumes "a \<le> b" "b \<le> c"
  shows "(\<forall>n. a \<le> n \<and> n < c \<longrightarrow> P n) \<longleftrightarrow>
    (\<forall>n. b \<le> n \<and> n < c \<longrightarrow> P n) \<and> (\<forall>n. a \<le> n \<and> n < b \<longrightarrow> P n)"
  using assms by (meson le_trans less_le_trans not_le)

lemma same_2m_bits: "same_2m v w \<longleftrightarrow> (\<forall>n. 21 \<le> n \<and> n < 48 \<longrightarrow> bit v n = bit w n)"
  using split_range[of 21 39 48 "\<lambda>n. bit v n = bit w n"] split_range[of 21 30 39 "\<lambda>n. bit v n = bit w n"]
  by (simp add: same_2m_def idx_eq)

lemma same_page_bits: "same_page v w \<longleftrightarrow> (\<forall>n. 12 \<le> n \<and> n < 48 \<longrightarrow> bit v n = bit w n)"
proof -
  have "same_page v w \<longleftrightarrow> same_2m v w \<and> idx 0 v = idx 0 w" by (auto simp: same_page_def same_2m_def)
  then show ?thesis unfolding same_2m_bits idx_eq using split_range[of 12 21 48] by simp
qed

lemma take_drop_bits:
  "take_bit m (drop_bit k v) = take_bit m (drop_bit k w) \<longleftrightarrow>
   (\<forall>n. k \<le> n \<and> n < k + m \<longrightarrow> bit v n = bit (w :: 'a::len word) n)"
proof
  assume eq: "take_bit m (drop_bit k v) = take_bit m (drop_bit k w)"
  show "\<forall>n. k \<le> n \<and> n < k + m \<longrightarrow> bit v n = bit w n"
  proof (intro allI impI)
    fix n assume n: "k \<le> n \<and> n < k + m"
    then have "bit (take_bit m (drop_bit k x)) (n - k) = bit x n" for x :: "'a word"
      by (auto simp: bit_take_bit_iff bit_drop_bit_eq)
    with eq show "bit v n = bit w n" by metis
  qed
qed (rule bit_word_eqI, auto simp: bit_take_bit_iff bit_drop_bit_eq)

lemma same_page_nat: "same_page v w \<longleftrightarrow> unat v div 2 ^ 12 mod 2 ^ 36 = unat w div 2 ^ 12 mod 2 ^ 36"
  using take_drop_bits[of 36 12 v w]
  by (simp add: same_page_bits word_unat_eq_iff unat_take_bit unat_shift_right)

lemma same_2m_nat: "same_2m v w \<longleftrightarrow> unat v div 2 ^ 21 mod 2 ^ 27 = unat w div 2 ^ 21 mod 2 ^ 27"
  using take_drop_bits[of 27 21 v w]
  by (simp add: same_2m_bits word_unat_eq_iff unat_take_bit unat_shift_right)

lemma or_page_off:
  assumes "2 ^ k dvd unat (a :: u64)"
  shows "a OR page_off k w = a + page_off k w"
proof -
  have "a AND page_off k w = 0"
    using assms by (auto simp: dvd_iff_low_bits page_off_def word_eq_bits bit_and_iff bit_take_bit_iff)
  then show ?thesis by (simp add: disjunctive_add_eq_or)
qed

subsection \<open>The boot page tables\<close>

definition kernel_pages :: "boot_info \<Rightarrow> nat" where
  "kernel_pages bi = (unat (bi_kernel_end bi) - unat (bi_kernel_start bi) + 4095) div 4096"

definition hhdm_pages :: "boot_info \<Rightarrow> nat" where
  "hhdm_pages bi = unat ((mmap_top (bi_mmap bi) 0 + 0x1fffff) AND NOT 0x1fffff) div 0x200000"

definition kernel_vaddr :: "boot_info \<Rightarrow> nat \<Rightarrow> u64" where
  "kernel_vaddr bi k = bi_kernel_start bi + of_nat k * 0x1000"

definition kernel_paddr :: "boot_info \<Rightarrow> nat \<Rightarrow> u64" where
  "kernel_paddr bi k = kernel_vaddr bi k - bi_virtual_base bi + bi_physical_base bi"

definition hhdm_vaddr :: "boot_info \<Rightarrow> nat \<Rightarrow> u64" where
  "hhdm_vaddr bi k = of_nat k * 0x200000 + bi_offset bi"

text \<open>
  What the boot loader guarantees: the image is page aligned and does not wrap around the
  address space, its frames are below \<open>2 ^ 52\<close>, the direct map is 2 MiB aligned, and the two
  do not share a 2 MiB page. The images fit the 48-bit virtual address space.
\<close>

definition boot_ok :: "boot_info \<Rightarrow> bool" where
  "boot_ok bi \<longleftrightarrow> 4096 dvd unat (bi_kernel_start bi) \<and>
     unat (bi_kernel_start bi) + 4096 * kernel_pages bi \<le> 2 ^ 64 \<and> kernel_pages bi \<le> 2 ^ 36 \<and>
     (\<forall>k < kernel_pages bi. 4096 dvd unat (kernel_paddr bi k) \<and> kernel_paddr bi k < 2 ^ 52) \<and>
     0x200000 dvd unat (bi_offset bi) \<and> unat (bi_offset bi) + 0x200000 * hhdm_pages bi \<le> 2 ^ 64 \<and>
     hhdm_pages bi \<le> 2 ^ 27 \<and>
     (\<forall>j < hhdm_pages bi. \<forall>k < kernel_pages bi. \<not> same_2m (hhdm_vaddr bi j) (kernel_vaddr bi k))"

definition no_large :: "nat \<Rightarrow> pager \<Rightarrow> bool" where
  "no_large l s \<longleftrightarrow> (\<forall>q j. is_path q \<longrightarrow> length q < l \<longrightarrow> j < 512 \<longrightarrow> \<not> large_at s q j)"

lemma no_large_blocked:
  assumes "no_large l s" "l \<le> 3"
  shows "\<not> blocked (4 - l) s v"
proof
  assume "blocked (4 - l) s v"
  then obtain k where k: "4 - l \<le> k" "k < 4" "large_at s (vpath k v) (idx k v)" by (auto simp: blocked_def)
  moreover have "length (vpath k v) < l" using k(1,2) assms(2) by (simp add: vpath_def)
  ultimately show False using assms(1) by (simp add: no_large_def)
qed

lemma unat_below_64: "unat (w :: u64) < 2 ^ 64"
  by (rule order_less_le_trans[OF unsigned_less]) simp

lemma unat_step:
  assumes "unat b + n * m \<le> 2 ^ 64" "k < m" "0 < n" "n < 2 ^ 64"
  shows "unat (b + of_nat k * of_nat n :: u64) = unat b + n * k"
proof -
  have lt: "n * k < n * m" using assms by simp
  have "n * k < 2 ^ 64" using lt assms(1) by linarith
  then have "unat (of_nat (k * n) :: u64) = n * k" by (subst unat_of_nat) (simp add: mult.commute)
  then have "unat (of_nat k * of_nat n :: u64) = n * k" by simp
  moreover have "unat b + n * k < 2 ^ 64" using lt assms(1) by linarith
  ultimately show ?thesis by (subst unat_word_ariths) simp
qed

lemma mod_add_cancel: "(c + i) mod m = (c + j) mod m \<Longrightarrow> i mod m = j mod (m :: nat)"
  unfolding nat_mod_eq_iff by (metis add.assoc add_left_cancel)

lemma kernel_vaddr_inj:
  assumes "boot_ok bi" "i < kernel_pages bi" "j < kernel_pages bi" "same_page (kernel_vaddr bi i) (kernel_vaddr bi j)"
  shows "i = j"
proof -
  obtain c where c: "unat (bi_kernel_start bi) = 4096 * c" using assms(1) by (auto simp: boot_ok_def)
  have u: "unat (kernel_vaddr bi k) = 4096 * c + 4096 * k" if "k < kernel_pages bi" for k
    using unat_step[of "bi_kernel_start bi" 4096 "kernel_pages bi" k] that assms(1) c
    by (simp add: kernel_vaddr_def boot_ok_def)
  have "(4096 * c + 4096 * i) div 4096 = c + i" "(4096 * c + 4096 * j) div 4096 = c + j" by simp_all
  then have "(c + i) mod 2 ^ 36 = (c + j) mod 2 ^ 36"
    using assms(4) unfolding same_page_nat u[OF assms(2)] u[OF assms(3)] by simp
  then have "i mod 2 ^ 36 = j mod 2 ^ 36" by (rule mod_add_cancel)
  moreover have "i < 2 ^ 36" "j < 2 ^ 36" using assms(1-3) by (auto simp: boot_ok_def)
  ultimately show ?thesis by simp
qed

lemma hhdm_vaddr_inj:
  assumes "boot_ok bi" "i < hhdm_pages bi" "j < hhdm_pages bi" "same_2m (hhdm_vaddr bi i) (hhdm_vaddr bi j)"
  shows "i = j"
proof -
  obtain c where c: "unat (bi_offset bi) = 0x200000 * c" using assms(1) by (auto simp: boot_ok_def)
  have u: "unat (hhdm_vaddr bi k) = 0x200000 * c + 0x200000 * k" if "k < hhdm_pages bi" for k
    using unat_step[of "bi_offset bi" "0x200000" "hhdm_pages bi" k] that assms(1) c
    by (simp add: hhdm_vaddr_def boot_ok_def add.commute)
  have "(0x200000 * c + 0x200000 * i) div 0x200000 = c + i" "(0x200000 * c + 0x200000 * j) div 0x200000 = c + j" by simp_all
  then have "(c + i) mod 2 ^ 27 = (c + j) mod 2 ^ 27"
    using assms(4) unfolding same_2m_nat u[OF assms(2)] u[OF assms(3)] by simp
  then have "i mod 2 ^ 27 = j mod 2 ^ 27" by (rule mod_add_cancel)
  moreover have "i < 2 ^ 27" "j < 2 ^ 27" using assms(1-3) by (auto simp: boot_ok_def)
  ultimately show ?thesis by simp
qed

text \<open>What holds after \<open>i\<close> pages of the kernel image and \<open>j\<close> pages of the direct map.\<close>

definition boot_phase :: "boot_info \<Rightarrow> u64 \<Rightarrow> nat \<Rightarrow> nat \<Rightarrow> nat \<Rightarrow> nat \<Rightarrow> pager \<Rightarrow> bool" where
  "boot_phase bi r l b i j s \<longleftrightarrow> pt_inv s \<and> root s = r \<and> hhdm s = bi_offset bi \<and> no_large l s \<and>
     b \<le> frame_budget (frames s) \<and>
     (\<forall>k<i. \<forall>w. same_page (kernel_vaddr bi k) w \<longrightarrow> mmu s r w = Some (kernel_paddr bi k OR page_off 12 w)) \<and>
     (\<forall>k<j. \<forall>w. same_2m (hhdm_vaddr bi k) w \<longrightarrow> mmu s r w = Some (of_nat k * 0x200000 OR page_off 21 w))"

lemma same_page_trans: "same_page v w \<Longrightarrow> same_page u w \<Longrightarrow> same_page v u"
  by (simp add: same_page_def)

lemma same_2m_trans: "same_2m v w \<Longrightarrow> same_2m u w \<Longrightarrow> same_2m v u"
  by (simp add: same_2m_def)

lemma same_page_2m: "same_page v w \<Longrightarrow> same_2m v w"
  by (simp add: same_page_def same_2m_def)

lemma map_kernel_page_phase:
  assumes ok: "boot_ok bi" and i: "i < kernel_pages bi"
    and ph: "boot_phase bi r 3 (3 + b) i 0 s"
  shows "\<exists>t. map_kernel_page bi i s = Inr t \<and> boot_phase bi r 3 b (Suc i) 0 t"
proof -
  have s: "pt_inv s" "3 \<le> frame_budget (frames s)" "no_large 3 s" "root s = r" "hhdm s = bi_offset bi"
    using ph by (auto simp: boot_phase_def)
  have nb: "\<not> blocked 1 s (kernel_vaddr bi i)" using no_large_blocked[OF s(3)] by simp
  have pa: "4096 dvd unat (kernel_paddr bi i)" "kernel_paddr bi i < 2 ^ 52" using ok i by (auto simp: boot_ok_def)
  obtain t where t: "map_page (kernel_paddr bi i) (kernel_vaddr bi i) 0 s = Inr t" "pt_inv t" "root t = root s"
    "hhdm t = hhdm s"
    "\<And>w. mmu t (root t) w = (if same_page (kernel_vaddr bi i) w then Some (kernel_paddr bi i OR page_off 12 w) else mmu s (root s) w)"
    "frame_budget (frames s) \<le> 3 + frame_budget (frames t)"
    "\<And>q j. is_path q \<Longrightarrow> length q < 3 \<Longrightarrow> j < 512 \<Longrightarrow> large_at t q j \<Longrightarrow> large_at s q j"
    by (rule map_page_effect[OF s(1,2) nb pa, of 0]) blast
  have "mmu t r w = Some (kernel_paddr bi k OR page_off 12 w)"
    if k: "k < Suc i" "same_page (kernel_vaddr bi k) w" for k w
  proof (cases "k = i")
    case True
    then show ?thesis using t(3,5) k s(4) by simp
  next
    case False
    then have "\<not> same_page (kernel_vaddr bi i) w"
      using kernel_vaddr_inj[OF ok i, of k] same_page_trans[OF _ k(2)] k(1) i by auto
    moreover have "k < i" using False k(1) by simp
    ultimately show ?thesis using t(3,5) k(2) ph s(4) by (auto simp: boot_phase_def)
  qed
  moreover have "no_large 3 t" using s(3) t(7) by (auto simp: no_large_def)
  moreover have "map_kernel_page bi i s = Inr t"
    using t(1) by (simp add: map_kernel_page_def kernel_vaddr_def kernel_paddr_def)
  moreover have "b \<le> frame_budget (frames t)" using ph t(6) by (simp add: boot_phase_def)
  ultimately show ?thesis using t s by (simp add: boot_phase_def)
qed

lemma map_hhdm_page_phase:
  assumes ok: "boot_ok bi" and j: "j < hhdm_pages bi"
    and ph: "boot_phase bi r 2 (2 + b) (kernel_pages bi) j s"
  shows "\<exists>t. map_hhdm_page bi j s = Inr t \<and> boot_phase bi r 2 b (kernel_pages bi) (Suc j) t"
proof -
  let ?p = "of_nat j * 0x200000 :: u64"
  have s: "pt_inv s" "2 \<le> frame_budget (frames s)" "no_large 2 s" "root s = r" "hhdm s = bi_offset bi"
    using ph by (auto simp: boot_phase_def)
  have nb: "\<not> blocked 2 s (hhdm_vaddr bi j)" using no_large_blocked[OF s(3)] by simp
  have up: "unat ?p = 0x200000 * j"
    using unat_step[of 0 "0x200000" "hhdm_pages bi" j] j ok by (simp add: boot_ok_def)
  then have pa: "0x200000 dvd unat ?p" "?p < 2 ^ 52"
    using j ok by (simp_all add: boot_ok_def word_less_nat_alt)
  obtain t where t: "map_page_2m ?p (hhdm_vaddr bi j) 0 s = Inr t" "pt_inv t" "root t = root s"
    "hhdm t = hhdm s"
    "\<And>w. mmu t (root t) w = (if same_2m (hhdm_vaddr bi j) w then Some (?p OR page_off 21 w) else mmu s (root s) w)"
    "frame_budget (frames s) \<le> 2 + frame_budget (frames t)"
    "\<And>q j. is_path q \<Longrightarrow> length q < 2 \<Longrightarrow> j < 512 \<Longrightarrow> large_at t q j \<Longrightarrow> large_at s q j"
    by (rule map_page_2m_effect[OF s(1,2) nb pa, of 0]) (simp, blast)
  have kern: "mmu t r w = Some (kernel_paddr bi k OR page_off 12 w)"
    if k: "k < kernel_pages bi" "same_page (kernel_vaddr bi k) w" for k w
  proof -
    have "\<not> same_2m (hhdm_vaddr bi j) w"
      using ok j k same_2m_trans[OF _ same_page_2m[OF k(2)]] unfolding boot_ok_def by blast
    then show ?thesis using t(3,5) k ph s(4) by (auto simp: boot_phase_def)
  qed
  have dir: "mmu t r w = Some (of_nat k * 0x200000 OR page_off 21 w)"
    if k: "k < Suc j" "same_2m (hhdm_vaddr bi k) w" for k w
  proof (cases "k = j")
    case True
    then show ?thesis using t(3,5) k s(4) by simp
  next
    case False
    then have "\<not> same_2m (hhdm_vaddr bi j) w"
      using hhdm_vaddr_inj[OF ok j, of k] same_2m_trans[OF _ k(2)] k(1) j by auto
    moreover have "k < j" using False k(1) by simp
    ultimately show ?thesis using t(3,5) k(2) ph s(4) by (auto simp: boot_phase_def)
  qed
  have "no_large 2 t" using s(3) t(7) by (auto simp: no_large_def)
  moreover have "map_hhdm_page bi j s = Inr t"
    using t(1) s(5) by (simp add: map_hhdm_page_def hhdm_vaddr_def Let_def)
  moreover have "b \<le> frame_budget (frames t)" using ph t(6) by (simp add: boot_phase_def)
  ultimately show ?thesis using t(2-4) s kern dir by (simp add: boot_phase_def)
qed

lemma empty_root:
  assumes "\<And>i. i < 512 \<Longrightarrow> entry_at s (root s) i = 0" "is_path p"
  shows "tables s p = (if p = [] then Some (root s) else None)"
  using assms(2)
proof (cases p)
  case (Cons i q)
  then have "entry_at s (root s) i = 0" using assms by (simp add: is_path_def)
  then show ?thesis using Cons by (simp add: tables_def present_def)
qed simp

lemma empty_root_inv:
  assumes z: "\<And>i. i < 512 \<Longrightarrow> entry_at s (root s) i = 0" and fr: "frame_inv (frames s)"
    and r: "4096 dvd unat (root s)" "root s \<notin> frame_avail (frames s)"
  shows "pt_inv s" "no_large l s"
proof -
  have tab: "tables s p = (if p = [] then Some (root s) else None)" if "is_path p" for p
    using empty_root[OF z that] .
  show "pt_inv s" unfolding pt_inv_def
  proof (intro conjI allI impI)
    fix p q t i
    assume p: "is_path p" "tables s p = Some t"
    then have t: "p = []" "t = root s" using tab by (auto split: if_splits)
    show "t \<notin> frame_avail (frames s)" using t r by simp
    show "p = q" if "is_path q" "tables s q = Some t" using that t tab by (auto split: if_splits)
    show "entry_at s t i AND NOT 0xfff = entry_frame (entry_at s t i)" if "i < 512" "present (entry_at s t i)"
      using that t z by (simp add: present_def)
  qed (use fr r in auto)
  have "ent s q j = Some 0 \<or> ent s q j = None" if "is_path q" "j < 512" for q j
    using tab[OF that(1)] z[OF that(2)] by (auto simp: ent_def)
  then show "no_large l s" unfolding no_large_def large_at_def by (fastforce simp: present_def)
qed

lemma map_kernel_loop:
  assumes ok: "boot_ok bi" and ph: "boot_phase bi r 3 (3 * kernel_pages bi + b) 0 0 s"
  shows "\<exists>t. for_range (map_kernel_page bi) 0 (kernel_pages bi) s = Inr t \<and>
    boot_phase bi r 3 b (kernel_pages bi) 0 t"
proof -
  let ?P = "\<lambda>i. boot_phase bi r 3 (3 * (kernel_pages bi - i) + b) i 0"
  have "\<exists>t. for_range (map_kernel_page bi) 0 (kernel_pages bi) s = Inr t \<and> ?P (0 + kernel_pages bi) t"
  proof (rule for_range_total)
    fix i u assume i: "i < 0 + kernel_pages bi" and u: "?P i u"
    have "3 * (kernel_pages bi - i) + b = 3 + (3 * (kernel_pages bi - Suc i) + b)" using i by simp
    then have "boot_phase bi r 3 (3 + (3 * (kernel_pages bi - Suc i) + b)) i 0 u" using u by metis
    from map_kernel_page_phase[OF ok _ this] i show "\<exists>t. map_kernel_page bi i u = Inr t \<and> ?P (Suc i) t" by simp
  qed (use ph in simp)
  then show ?thesis by simp
qed

lemma map_hhdm_loop:
  assumes ok: "boot_ok bi" and ph: "boot_phase bi r 2 (2 * hhdm_pages bi) (kernel_pages bi) 0 s"
  shows "\<exists>t. for_range (map_hhdm_page bi) 0 (hhdm_pages bi) s = Inr t \<and>
    boot_phase bi r 2 0 (kernel_pages bi) (hhdm_pages bi) t"
proof -
  let ?P = "\<lambda>i. boot_phase bi r 2 (2 * (hhdm_pages bi - i)) (kernel_pages bi) i"
  have "\<exists>t. for_range (map_hhdm_page bi) 0 (hhdm_pages bi) s = Inr t \<and> ?P (0 + hhdm_pages bi) t"
  proof (rule for_range_total)
    fix i u assume i: "i < 0 + hhdm_pages bi" and u: "?P i u"
    have "2 * (hhdm_pages bi - i) = 2 + 2 * (hhdm_pages bi - Suc i)" using i by simp
    then have "boot_phase bi r 2 (2 + 2 * (hhdm_pages bi - Suc i)) (kernel_pages bi) i u" using u by metis
    from map_hhdm_page_phase[OF ok _ this] i show "\<exists>t. map_hhdm_page bi i u = Inr t \<and> ?P (Suc i) t" by simp
  qed (use ph in simp)
  then show ?thesis by simp
qed

lemma boot_phase_weaken: "boot_phase bi r l b i j s \<Longrightarrow> l' \<le> l \<Longrightarrow> boot_phase bi r l' b i j s"
  by (auto simp: boot_phase_def no_large_def)

text \<open>The empty top-level table that \<open>paging_init\<close> starts from.\<close>

lemma boot_start:
  assumes inv: "frame_inv (frames s)" and b: "Suc b \<le> frame_budget (frames s)"
  obtains f fr where "kalloc_frame (frames s) = Inr (f, fr)"
    "boot_phase bi f 3 b 0 0
       (zero_cells 512 (f + bi_offset bi) (s\<lparr>hhdm := bi_offset bi, pml4 := f + bi_offset bi, frames := fr\<rparr>))"
proof -
  from kalloc_frame_budget[OF inv] b obtain f fr where k: "kalloc_frame (frames s) = Inr (f, fr)"
    "f \<in> frame_avail (frames s)" "frame_avail fr = frame_avail (frames s) - {f}" "frame_inv fr"
    "frame_budget (frames s) = Suc (frame_budget fr)" by fastforce
  let ?s = "s\<lparr>hhdm := bi_offset bi, pml4 := f + bi_offset bi, frames := fr\<rparr>"
  let ?t = "zero_cells 512 (f + bi_offset bi) ?s"
  have t: "?t = zero_table f ?s" by (simp add: zero_table_def)
  have f: "4096 dvd unat f" using frame_avail_frame[OF inv k(2)] by simp
  have r: "root ?t = f" "frames ?t = fr" "hhdm ?t = bi_offset bi" by (simp_all add: root_def)
  have z: "entry_at ?t (root ?t) i = 0" if "i < 512" for i
    unfolding r(1) unfolding t using entry_zero_table[OF f f that] by simp
  have "frame_inv (frames ?t)" "4096 dvd unat (root ?t)" "root ?t \<notin> frame_avail (frames ?t)"
    unfolding r using k f by auto
  note inv' = empty_root_inv[OF z this]
  have "boot_phase bi f 3 b 0 0 ?t"
    unfolding boot_phase_def using inv' r b k(5) by simp
  with k(1) that show ?thesis by blast
qed

lemma cr3_irrelevant [simp]:
  "root (s\<lparr>cr3 := c\<rparr>) = root s" "entry_at (s\<lparr>cr3 := c\<rparr>) = entry_at s" "tables (s\<lparr>cr3 := c\<rparr>) = tables s"
  "mmu (s\<lparr>cr3 := c\<rparr>) = mmu s" "large_at (s\<lparr>cr3 := c\<rparr>) = large_at s"
proof -
  show r: "root (s\<lparr>cr3 := c\<rparr>) = root s" by (simp add: root_def)
  show e: "entry_at (s\<lparr>cr3 := c\<rparr>) = entry_at s" by (simp add: entry_at_def fun_eq_iff)
  have "walk (s\<lparr>cr3 := c\<rparr>) x p = walk s x p" for x p by (induction p arbitrary: x) (simp_all add: e Let_def)
  then show t: "tables (s\<lparr>cr3 := c\<rparr>) = tables s" by (simp add: tables_def fun_eq_iff r)
  show "mmu (s\<lparr>cr3 := c\<rparr>) = mmu s" unfolding fun_eq_iff mmu_def e by simp
  show "large_at (s\<lparr>cr3 := c\<rparr>) = large_at s" by (simp add: fun_eq_iff large_at_def ent_def e t)
qed

lemma boot_phase_cr3 [simp]: "boot_phase bi r l b i j (s\<lparr>cr3 := c\<rparr>) = boot_phase bi r l b i j s"
  by (simp add: boot_phase_def pt_inv_def no_large_def)

lemma paging_init_phase:
  assumes ok: "boot_ok bi" and inv: "frame_inv (frames s)"
    and b: "1 + 3 * kernel_pages bi + 2 * hhdm_pages bi \<le> frame_budget (frames s)"
  obtains t where "paging_init bi s = Inr t" "pt_inv t" "cr3 t = root t"
    "boot_phase bi (root t) 2 0 (kernel_pages bi) (hhdm_pages bi) t"
proof -
  obtain f fr where k: "kalloc_frame (frames s) = Inr (f, fr)"
    "boot_phase bi f 3 (3 * kernel_pages bi + 2 * hhdm_pages bi) 0 0
       (zero_cells 512 (f + bi_offset bi) (s\<lparr>hhdm := bi_offset bi, pml4 := f + bi_offset bi, frames := fr\<rparr>))"
    (is "boot_phase _ _ _ _ _ _ ?s0")
    using boot_start[OF inv, of "3 * kernel_pages bi + 2 * hhdm_pages bi" bi] b by auto
  obtain s1 where s1: "for_range (map_kernel_page bi) 0 (kernel_pages bi) ?s0 = Inr s1"
    "boot_phase bi f 3 (2 * hhdm_pages bi) (kernel_pages bi) 0 s1"
    using map_kernel_loop[OF ok k(2)] by blast
  obtain s2 where s2: "for_range (map_hhdm_page bi) 0 (hhdm_pages bi) s1 = Inr s2"
    "boot_phase bi f 2 0 (kernel_pages bi) (hhdm_pages bi) s2"
    using map_hhdm_loop[OF ok boot_phase_weaken[OF s1(2)]] by auto
  let ?t = "s2\<lparr>cr3 := pml4 s2 - hhdm s2\<rparr>"
  have pi: "paging_init bi s = Inr ?t"
    using k(1) s1(1) s2(1)
    by (simp add: paging_init_def kernel_pages_def hhdm_pages_def Let_def)
  have ph: "boot_phase bi f 2 0 (kernel_pages bi) (hhdm_pages bi) ?t" using s2(2) by simp
  then have inv: "pt_inv ?t" and rt: "root ?t = f" unfolding boot_phase_def by blast+
  have "cr3 ?t = root ?t" by (simp add: root_def)
  with pi inv show ?thesis by (rule that) (use ph rt in simp)
qed

text \<open>The two parts of the boot map as arithmetic on addresses.\<close>

lemma kernel_address:
  assumes ok: "boot_ok bi" and a: "unat (bi_kernel_start bi) \<le> unat a"
    "unat a < unat (bi_kernel_start bi) + 4096 * kernel_pages bi"
  obtains k where "k < kernel_pages bi" "same_page (kernel_vaddr bi k) a"
    "kernel_paddr bi k OR page_off 12 a = a - bi_virtual_base bi + bi_physical_base bi"
proof -
  obtain c where c: "unat (bi_kernel_start bi) = 4096 * c" using ok by (auto simp: boot_ok_def)
  define k where "k = unat a div 4096 - c"
  have "c \<le> unat a div 4096" using a(1) c by simp
  then have ck: "unat a div 4096 = c + k" by (simp add: k_def)
  have "unat a div 4096 < c + kernel_pages bi" using a(2) c by (simp add: less_mult_imp_div_less)
  then have k: "k < kernel_pages bi" using ck by simp
  have u: "unat (kernel_vaddr bi k) = 4096 * (c + k)"
    using unat_step[of "bi_kernel_start bi" 4096 "kernel_pages bi" k] k ok c
    by (simp add: kernel_vaddr_def boot_ok_def)
  have "same_page (kernel_vaddr bi k) a" unfolding same_page_nat u using ck by simp
  moreover have off: "unat (page_off 12 a) = unat a mod 4096" by (simp add: page_off_def unat_take_bit)
  have "unat a = 4096 * (c + k) + unat a mod 4096" using ck by (metis mult_div_mod_eq)
  then have "kernel_vaddr bi k + page_off 12 a = a"
    using unat_below_64[of a] by (simp add: word_unat_eq_iff unat_word_ariths u off)
  moreover have "2 ^ 12 dvd unat (kernel_paddr bi k)" using ok k by (simp add: boot_ok_def)
  then have "kernel_paddr bi k OR page_off 12 a = kernel_paddr bi k + page_off 12 a" by (rule or_page_off)
  ultimately have "kernel_paddr bi k OR page_off 12 a = a - bi_virtual_base bi + bi_physical_base bi"
    unfolding kernel_paddr_def by (metis (no_types, lifting) add.assoc add.commute add_diff_eq diff_add_eq)
  with that k \<open>same_page (kernel_vaddr bi k) a\<close> show ?thesis by blast
qed

lemma hhdm_address:
  assumes ok: "boot_ok bi" and p: "unat p < 0x200000 * hhdm_pages bi"
  obtains k where "k < hhdm_pages bi" "same_2m (hhdm_vaddr bi k) (p + bi_offset bi)"
    "of_nat k * 0x200000 OR page_off 21 (p + bi_offset bi) = p"
proof -
  obtain c where c: "unat (bi_offset bi) = 0x200000 * c" using ok by (auto simp: boot_ok_def)
  define k where "k = unat p div 0x200000"
  have k: "k < hhdm_pages bi" using p by (simp add: k_def less_mult_imp_div_less mult.commute)
  have room: "unat (bi_offset bi) + 0x200000 * hhdm_pages bi \<le> 2 ^ 64" using ok by (simp add: boot_ok_def)
  have u: "unat (hhdm_vaddr bi k) = 0x200000 * (c + k)"
    using unat_step[of "bi_offset bi" "0x200000" "hhdm_pages bi" k] k room c
    by (simp add: hhdm_vaddr_def add.commute)
  have "unat p + 0x200000 * c < 2 ^ 64" using p room c by linarith
  then have up: "unat (p + bi_offset bi) = unat p + 0x200000 * c" using c by (simp add: unat_word_ariths)
  have pe: "unat p = 0x200000 * k + unat p mod 0x200000" by (simp add: k_def)
  have d: "(unat p + 0x200000 * c) div 0x200000 = k + c" "(unat p + 0x200000 * c) mod 0x200000 = unat p mod 0x200000"
    by (simp_all add: k_def)
  have "same_2m (hhdm_vaddr bi k) (p + bi_offset bi)" unfolding same_2m_nat u up using d(1) by (simp add: add.commute)
  have off: "unat (page_off 21 (p + bi_offset bi)) = unat p mod 0x200000"
    using d(2) by (simp add: page_off_def unat_take_bit up)
  have uk: "unat (of_nat k * 0x200000 :: u64) = 0x200000 * k"
    using unat_step[of 0 "0x200000" "hhdm_pages bi" k] k room by simp
  then have "of_nat k * 0x200000 OR page_off 21 (p + bi_offset bi) = of_nat k * 0x200000 + page_off 21 (p + bi_offset bi)"
    by (intro or_page_off) simp
  also have "\<dots> = p" using pe unat_below_64[of p] by (simp add: word_unat_eq_iff unat_word_ariths(1) uk off)
  finally show ?thesis using that k \<open>same_2m (hhdm_vaddr bi k) (p + bi_offset bi)\<close> by blast
qed

subsection \<open>Properties of the pager\<close>

text \<open>
  C3. With three frames available and no large page on the way, \<open>map_page\<close> returns, keeps
  the tree of tables well formed, and afterwards the processor translates every address of
  the page to the physical page given and every other address as before.
\<close>

theorem map_page_translates:
  assumes "pt_inv s" "3 \<le> frame_budget (frames s)" "\<not> blocked 1 s v"
    "4096 dvd unat paddr" "paddr < 2 ^ 52"
  shows "\<exists>t. map_page paddr v flags s = Inr t \<and> pt_inv t \<and> root t = root s \<and>
    (\<forall>w. mmu t (root t) w = (if same_page v w then Some (paddr OR page_off 12 w) else mmu s (root s) w))"
  by (rule map_page_effect[OF assms, of flags]) blast

text \<open>An empty top-level table in frame 40, outside the free frames of the example allocator.\<close>

definition pager_example :: pager where
  "pager_example = \<lparr>pg_mem = (\<lambda>_. 0), pml4 = 0xffff800000028000, hhdm = 0xffff800000000000, cr3 = 0,
     frames = pfa_example\<rparr>"

lemma pager_example_inv: "pt_inv pager_example" "no_large l pager_example" "root pager_example = 0x28000"
proof -
  show r: "root pager_example = 0x28000" by (simp add: root_def pager_example_def)
  have pool: "pool pfa_example = []" by (simp add: pool_def pfa_example_def pfa_boot_def)
  have "n = 40" if "frame_addr n = 0x28000" "n < 2 ^ 32" for n
    using that frame_addr_inj[of n 40] by (simp add: frame_addr_def)
  then have "0x28000 \<notin> frame_avail pfa_example"
    unfolding frame_avail_def pool pfa_example_free by (force simp: image_iff)
  then have "root pager_example \<notin> frame_avail (frames pager_example)" "4096 dvd unat (root pager_example)"
    unfolding r by (simp_all add: pager_example_def)
  moreover have "entry_at pager_example x i = 0" for x i by (simp add: entry_at_def pager_example_def)
  moreover have "frame_inv (frames pager_example)" using pfa_example_inv by (simp add: pager_example_def)
  ultimately show "pt_inv pager_example" "no_large l pager_example" using empty_root_inv[of pager_example] by auto
qed

lemma pager_example_free:
  "\<not> blocked 1 pager_example v" "\<not> blocked 2 pager_example v" "frame_budget (frames pager_example) = 20"
  using no_large_blocked[OF pager_example_inv(2), of 3 v] no_large_blocked[OF pager_example_inv(2), of 2 v]
    pfa_example_budget by (simp_all add: pager_example_def)

theorem map_page_translates_witness:
  "\<exists>t. map_page 0x30000 0xffffffff80001000 0 pager_example = Inr t \<and>
    mmu t (root t) 0xffffffff80001234 = Some 0x30234"
proof -
  have "same_page 0xffffffff80001000 0xffffffff80001234" by code_simp
  moreover have "0x30000 OR page_off 12 0xffffffff80001234 = 0x30234" by code_simp
  ultimately show ?thesis
    using map_page_translates[OF pager_example_inv(1) _ pager_example_free(1), of "0x30000" "0xffffffff80001000" 0]
      pager_example_free(3) by auto
qed

text \<open>
  With two frames available and no 1 GiB page on the way, \<open>map_page_2m\<close> returns, keeps
  the tree well formed, and afterwards the 2 MiB of the page are translated to the physical
  2 MiB given and every other address as before.
\<close>

theorem map_page_2m_translates:
  assumes "pt_inv s" "2 \<le> frame_budget (frames s)" "\<not> blocked 2 s v"
    "0x200000 dvd unat paddr" "paddr < 2 ^ 52" "flags < 0x1000"
  shows "\<exists>t. map_page_2m paddr v flags s = Inr t \<and> pt_inv t \<and> root t = root s \<and>
    (\<forall>w. mmu t (root t) w = (if same_2m v w then Some (paddr OR page_off 21 w) else mmu s (root s) w))"
  by (rule map_page_2m_effect[OF assms]) blast

theorem map_page_2m_translates_witness:
  "\<exists>t. map_page_2m 0x400000 0xffff800000400000 0 pager_example = Inr t \<and>
    mmu t (root t) 0xffff800000412345 = Some 0x412345"
proof -
  have "same_2m 0xffff800000400000 0xffff800000412345" by code_simp
  moreover have "0x400000 OR page_off 21 0xffff800000412345 = 0x412345" by code_simp
  ultimately show ?thesis
    using map_page_2m_translates[OF pager_example_inv(1) _ pager_example_free(2), of "0x400000" 0 "0xffff800000400000"]
      pager_example_free(3) by auto
qed

text \<open>
  C2. \<open>paging_init\<close> returns with CR3 loaded and a page table under which the processor
  translates every address of the kernel image to the physical image and every physical
  address below the top of memory through the direct map, given one frame for the top
  table, three per kernel page and two per 2 MiB of the direct map.
\<close>

theorem paging_init_translates:
  assumes "boot_ok bi" "frame_inv (frames s)"
    "1 + 3 * kernel_pages bi + 2 * hhdm_pages bi \<le> frame_budget (frames s)"
  shows "\<exists>t. paging_init bi s = Inr t \<and> pt_inv t \<and> cr3 t = root t \<and>
    (\<forall>a. unat (bi_kernel_start bi) \<le> unat a \<and> unat a < unat (bi_kernel_start bi) + 4096 * kernel_pages bi \<longrightarrow>
       mmu t (cr3 t) a = Some (a - bi_virtual_base bi + bi_physical_base bi)) \<and>
    (\<forall>p. unat p < 0x200000 * hhdm_pages bi \<longrightarrow> mmu t (cr3 t) (p + bi_offset bi) = Some p)"
proof -
  obtain t where t: "paging_init bi s = Inr t" "pt_inv t" "cr3 t = root t"
    "boot_phase bi (root t) 2 0 (kernel_pages bi) (hhdm_pages bi) t"
    using paging_init_phase[OF assms] .
  have "mmu t (cr3 t) a = Some (a - bi_virtual_base bi + bi_physical_base bi)"
    if "unat (bi_kernel_start bi) \<le> unat a" "unat a < unat (bi_kernel_start bi) + 4096 * kernel_pages bi" for a
    by (rule kernel_address[OF assms(1) that]) (use t in \<open>auto simp: boot_phase_def\<close>)
  moreover have "mmu t (cr3 t) (p + bi_offset bi) = Some p" if "unat p < 0x200000 * hhdm_pages bi" for p
    by (rule hhdm_address[OF assms(1) that]) (use t in \<open>auto simp: boot_phase_def\<close>)
  ultimately show ?thesis using t by blast
qed

definition boot_info_example :: boot_info where
  "boot_info_example = \<lparr>bi_offset = 0xffff800000000000, bi_kernel_start = 0xffffffff80000000,
     bi_kernel_end = 0xffffffff80001800, bi_virtual_base = 0xffffffff80000000, bi_physical_base = 0x200000,
     bi_mmap = [\<lparr>me_base = 0, me_length = 0x300000, me_type = 0\<rparr>]\<rparr>"

theorem paging_init_translates_witness:
  "\<exists>t. paging_init boot_info_example pager_example = Inr t \<and> cr3 t = root t \<and>
    mmu t (cr3 t) 0xffffffff80001234 = Some 0x201234 \<and> mmu t (cr3 t) 0xffff8000003fffff = Some 0x3fffff"
proof -
  have "((mmap_top (bi_mmap boot_info_example) 0 + 0x1fffff) AND NOT 0x1fffff) = 0x400000" by code_simp
  then have kp: "kernel_pages boot_info_example = 2" "hhdm_pages boot_info_example = 2"
    by (simp_all add: kernel_pages_def hhdm_pages_def) (simp_all add: boot_info_example_def)
  have small: "k = 0 \<or> k = Suc 0" if "k < 2" for k using that by auto
  have pa: "kernel_paddr boot_info_example 0 = 0x200000" "kernel_paddr boot_info_example (Suc 0) = 0x201000"
    by code_simp+
  have dj: "\<not> same_2m (hhdm_vaddr boot_info_example 0) (kernel_vaddr boot_info_example 0)"
    "\<not> same_2m (hhdm_vaddr boot_info_example 0) (kernel_vaddr boot_info_example (Suc 0))"
    "\<not> same_2m (hhdm_vaddr boot_info_example (Suc 0)) (kernel_vaddr boot_info_example 0)"
    "\<not> same_2m (hhdm_vaddr boot_info_example (Suc 0)) (kernel_vaddr boot_info_example (Suc 0))"
    by code_simp+
  have ok: "boot_ok boot_info_example"
    unfolding boot_ok_def kp using pa dj by (auto dest!: small) (simp_all add: boot_info_example_def)
  have inv: "frame_inv (frames pager_example)" using pfa_example_inv by (simp add: pager_example_def)
  have "1 + 3 * kernel_pages boot_info_example + 2 * hhdm_pages boot_info_example \<le> frame_budget (frames pager_example)"
    by (simp add: kp pager_example_free)
  from paging_init_translates[OF ok inv this]
  obtain t where t: "paging_init boot_info_example pager_example = Inr t" "cr3 t = root t"
    "\<forall>a. unat (bi_kernel_start boot_info_example) \<le> unat a \<and>
       unat a < unat (bi_kernel_start boot_info_example) + 4096 * kernel_pages boot_info_example \<longrightarrow>
       mmu t (cr3 t) a = Some (a - bi_virtual_base boot_info_example + bi_physical_base boot_info_example)"
    "\<forall>p. unat p < 0x200000 * hhdm_pages boot_info_example \<longrightarrow> mmu t (cr3 t) (p + bi_offset boot_info_example) = Some p"
    by blast
  from t(3)[rule_format, of "0xffffffff80001234"] t(4)[rule_format, of "0x3fffff"] t(1,2) show ?thesis
    unfolding kp by (simp add: boot_info_example_def)
qed

lemma walk_cell:
  assumes inv: "pt_inv s" and p: "is_path (p @ [i])" "tables s p = Some t" "tables s (p @ [i]) = Some x"
  shows "pg_get s (t + hhdm s) i AND 1 \<noteq> 0" "pg_get s (t + hhdm s) i AND NOT 0xfff = x"
proof -
  have g: "pg_get s (t + hhdm s) i = entry_at s t i" by (simp add: pg_get_def entry_at_def)
  have e: "present (entry_at s t i)" "\<not> large (entry_at s t i)" "x = entry_frame (entry_at s t i)"
    using p(2,3) by (auto simp: tables_snoc ent_def split: if_splits)
  show "pg_get s (t + hhdm s) i AND 1 \<noteq> 0"
    unfolding g using e(1) and_bit_eq_0[of "entry_at s t i" 0] by (simp add: present_def)
  show "pg_get s (t + hhdm s) i AND NOT 0xfff = x"
    unfolding g using pt_inv_canon[OF inv _ _ _ p(2) e(1,2)] p(1) e(3) by simp
qed

lemma free_page_frame:
  assumes inv: "pt_inv s" and t: "tables s (vpath 0 v) = Some t"
  shows "free_page v s = bindR (kfree_frame t (frames s)) (\<lambda>fr. Inr (s\<lparr>frames := fr\<rparr>))"
proof -
  have t0: "tables s ([idx 3 v, idx 2 v] @ [idx 1 v]) = Some t" using t by (simp add: vpath_simps)
  obtain t1 where t1: "tables s ([idx 3 v] @ [idx 2 v]) = Some t1" by (rule table_above[OF t0]) simp
  obtain t2 where t2: "tables s ([] @ [idx 3 v]) = Some t2" by (rule table_above[OF t1]) simp
  have p: "is_path ([] @ [idx 3 v])" "is_path ([idx 3 v] @ [idx 2 v])" "is_path ([idx 3 v, idx 2 v] @ [idx 1 v])"
    by (simp_all add: is_path_def)
  note c1 = walk_cell[OF inv p(1) tables_Nil t2] and c2 = walk_cell[OF inv p(2) _ t1, of t2]
    and c3 = walk_cell[OF inv p(3) _ t0, of t1]
  show ?thesis using c1 c2 c3 t1 t2
    by (simp add: free_page_def walk_indices pml4_root Let_def)
qed

text \<open>
  C40. \<open>free_page\<close> unmaps nothing: the translation of every address stays as it was, while
  the frame of the last-level page table, which the processor still walks, is put back
  among the free frames.
\<close>

theorem free_page_dangling:
  assumes "pt_inv s" "tables s (vpath 0 v) = Some t" "t = frame_addr n" "n < 32 * length (bitmap (frames s))"
    "n < 2 ^ 32"
  shows "\<exists>s'. free_page v s = Inr s' \<and> (\<forall>w. mmu s' (root s') w = mmu s (root s) w) \<and>
    tables s' (vpath 0 v) = Some t \<and> n \<in> free_frames (frames s')"
proof -
  have un: "unat (of_nat n :: u32) = n" using assms(5) by (simp add: unat_of_nat)
  then obtain fr where fr: "kfree_frame t (frames s) = Inr fr" "free_frames fr = free_frames (frames s) \<union> {n}"
    using bm_clear_ok[of "of_nat n" "frames s"] assms(3-5) frame_addr_div[OF assms(5)]
    by (auto simp: kfree_frame_def)
  let ?s = "s\<lparr>frames := fr\<rparr>"
  have e: "entry_at ?s = entry_at s" "root ?s = root s" by (simp_all add: entry_at_def root_def fun_eq_iff)
  have "walk ?s x p = walk s x p" for x p by (induction p arbitrary: x) (simp_all add: e Let_def)
  then have "tables ?s = tables s" by (simp add: tables_def fun_eq_iff e)
  moreover have "mmu ?s = mmu s" unfolding fun_eq_iff mmu_def e by simp
  ultimately show ?thesis using free_page_frame[OF assms(1,2)] fr assms(2) e by simp
qed

text \<open>A pager whose first page table is in frame 43, for the witness.\<close>

definition pager_mapped :: pager where
  "pager_mapped = pg_put (0x2a000 + hhdm pager_example) 0 0x2b003
     (pg_put (0x29000 + hhdm pager_example) 0 0x2a003
       (pg_put (0x28000 + hhdm pager_example) 0 0x29003 pager_example))"

lemma pager_mapped_rest [simp]:
  "root pager_mapped = 0x28000" "frames pager_mapped = pfa_example" "hhdm pager_mapped = hhdm pager_example"
  by (simp_all add: pager_mapped_def root_def) (simp_all add: pager_example_def)

lemma pager_mapped_entry:
  assumes "4096 dvd unat x" "i < 512"
  shows "entry_at pager_mapped x i = (if x = 0x2a000 \<and> i = 0 then 0x2b003 else
    if x = 0x29000 \<and> i = 0 then 0x2a003 else if x = 0x28000 \<and> i = 0 then 0x29003 else 0)"
proof -
  let ?s1 = "pg_put (0x28000 + hhdm pager_example) 0 0x29003 pager_example"
  let ?s2 = "pg_put (0x29000 + hhdm pager_example) 0 0x2a003 ?s1"
  have z: "entry_at pager_example x i = 0" by (simp add: entry_at_def pager_example_def)
  have e: "entry_at (pg_put (y + hhdm pager_example) 0 w s) x i = (if x = y \<and> i = 0 then w else entry_at s x i)"
    if "4096 dvd unat y" "hhdm s = hhdm pager_example" for y w s
    using entry_put[OF assms(1) that(1) assms(2), of 0 s w] that(2) by simp
  have h: "hhdm ?s1 = hhdm pager_example" "hhdm ?s2 = hhdm pager_example" by simp_all
  have e1: "entry_at ?s1 x i = (if x = 0x28000 \<and> i = 0 then 0x29003 else entry_at pager_example x i)"
    by (rule e) simp_all
  have e2: "entry_at ?s2 x i = (if x = 0x29000 \<and> i = 0 then 0x2a003 else entry_at ?s1 x i)"
    by (rule e[OF _ h(1)]) simp
  have e3: "entry_at pager_mapped x i = (if x = 0x2a000 \<and> i = 0 then 0x2b003 else entry_at ?s2 x i)"
    unfolding pager_mapped_def by (rule e[OF _ h(2)]) simp
  show ?thesis unfolding e3 e2 e1 z ..
qed

lemma pager_mapped_tables:
  assumes "is_path p"
  shows "tables pager_mapped p = (if p = replicate (length p) 0 then Some (0x28000 + 0x1000 * of_nat (length p)) else None)"
proof -
  have pe: "present 0x29003" "\<not> large 0x29003" "present 0x2a003" "\<not> large 0x2a003" "present 0x2b003"
    "\<not> large 0x2b003" "\<not> present 0" "entry_frame 0x29003 = 0x29000" "entry_frame 0x2a003 = 0x2a000"
    "entry_frame 0x2b003 = 0x2b000" by code_simp+
  note w = tables_def pager_mapped_entry Let_def pe
  show ?thesis
  proof (cases p)
    case (Cons a q)
    show ?thesis
    proof (cases q)
      case Nil
      with Cons assms show ?thesis by (simp add: is_path_def w)
    next
      case q: (Cons b r)
      show ?thesis
      proof (cases r)
        case Nil
        with Cons q assms show ?thesis by (simp add: is_path_def w)
      next
        case (Cons c u)
        with q \<open>p = a # q\<close> assms show ?thesis by (simp add: is_path_def w)
      qed
    qed
  qed simp
qed

lemma pager_mapped_inv: "pt_inv pager_mapped"
  unfolding pt_inv_def
proof (intro conjI allI impI)
  show "frame_inv (frames pager_mapped)" "4096 dvd unat (root pager_mapped)" by (simp_all add: pfa_example_inv)
  fix p q t i
  assume p: "is_path p" "tables pager_mapped p = Some t"
  then have t: "t = 0x28000 + 0x1000 * of_nat (length p)" "p = replicate (length p) 0" "length p \<le> 3"
    by (auto simp: pager_mapped_tables is_path_def split: if_splits)
  have "t = frame_addr (40 + length p)" unfolding t(1) by (simp add: frame_addr_def algebra_simps)
  then have "t \<noteq> frame_addr n" if "n \<in> {8..<32}" for n using t(3) that frame_addr_inj[of "40 + length p" n] by auto
  moreover have "pool pfa_example = []" by (simp add: pool_def pfa_example_def pfa_boot_def)
  ultimately show "t \<notin> frame_avail (frames pager_mapped)"
    unfolding frame_avail_def pager_mapped_rest pfa_example_free by auto blast
  show "p = q" if q: "is_path q" "tables pager_mapped q = Some t"
  proof -
    have tq: "t = 0x28000 + 0x1000 * of_nat (length q)" "q = replicate (length q) 0" "length q \<le> 3"
      using q by (auto simp: pager_mapped_tables is_path_def split: if_splits)
    have "frame_addr (40 + length p) = frame_addr (40 + length q)"
      using t(1) tq(1) by (simp add: frame_addr_def algebra_simps)
    then have "length p = length q" using t(3) tq(3) frame_addr_inj[of "40 + length p" "40 + length q"] by simp
    then show ?thesis using t(2) tq(2) by metis
  qed
  show "entry_at pager_mapped t i AND NOT 0xfff = entry_frame (entry_at pager_mapped t i)"
    if "i < 512" "present (entry_at pager_mapped t i)"
  proof -
    have "4096 dvd unat t" using \<open>t = frame_addr (40 + length p)\<close> t(3) frame_addr_frame[of "40 + length p"] by simp
    then have "entry_at pager_mapped t i \<in> {0x2b003, 0x2a003, 0x29003}"
      using that pager_mapped_entry[of t i] by (auto simp: present_def split: if_splits)
    moreover have "(0x2b003 :: u64) AND NOT 0xfff = entry_frame 0x2b003" "(0x2a003 :: u64) AND NOT 0xfff = entry_frame 0x2a003"
      "(0x29003 :: u64) AND NOT 0xfff = entry_frame 0x29003" by code_simp+
    ultimately show ?thesis by auto
  qed
qed

theorem free_page_dangling_witness:
  "\<exists>s'. free_page 0 pager_mapped = Inr s' \<and> tables s' (vpath 0 0) = Some 0x2b000 \<and> 43 \<in> free_frames (frames s')"
proof -
  have "vpath 0 0 = [0, 0, 0]" by (simp add: vpath_simps idx_def)
  then have "tables pager_mapped (vpath 0 0) = Some 0x2b000"
    by (simp add: pager_mapped_tables is_path_def numeral_3_eq_3)
  from free_page_dangling[OF pager_mapped_inv this, of 43] show ?thesis
    by (auto simp: frame_addr_def pfa_example_def)
qed

end
