(* ===== verification/Nya_Memory.thy ===== *)
theory Nya_Memory
  imports Nya_Prelude
begin

unbundle bit_operations_syntax

section \<open>Byte-addressed memory\<close>

text \<open>
  The memory that the C library and the heap allocators read and write through pointers: a
  function from 64-bit addresses to bytes. \<open>rd n\<close> and \<open>wr n\<close> are the little-endian load
  and store of an \<open>n\<close>-byte integer; address arithmetic wraps as on the machine.
\<close>

type_synonym mem = "u64 \<Rightarrow> u8"

fun rd :: "nat \<Rightarrow> mem \<Rightarrow> u64 \<Rightarrow> 'a::len word" where
  "rd 0 m a = 0"
| "rd (Suc n) m a = ucast (m a) OR push_bit 8 (rd n m (a + 1))"

definition wr :: "nat \<Rightarrow> u64 \<Rightarrow> 'a::len word \<Rightarrow> mem \<Rightarrow> mem" where
  "wr n a v m = (\<lambda>x. if x - a < of_nat n then ucast (drop_bit (8 * unat (x - a)) v) else m x)"

abbreviation rd64 :: "mem \<Rightarrow> u64 \<Rightarrow> u64" where "rd64 \<equiv> rd 8"
abbreviation rd32 :: "mem \<Rightarrow> u64 \<Rightarrow> u32" where "rd32 \<equiv> rd 4"
abbreviation wr64 :: "u64 \<Rightarrow> u64 \<Rightarrow> mem \<Rightarrow> mem" where "wr64 \<equiv> wr 8"
abbreviation wr32 :: "u64 \<Rightarrow> u32 \<Rightarrow> mem \<Rightarrow> mem" where "wr32 \<equiv> wr 4"

lemma unat64: "unat (w :: u64) < 2 ^ 64"
  by (rule order_less_le_trans[OF unsigned_less]) simp

lemma of_nat_unat64 [simp]: "of_nat (unat (w :: u64)) = w"
  by simp

text \<open>Two ranges of addresses that do not meet, on the circle of 64-bit addresses.\<close>

definition apart :: "u64 \<Rightarrow> nat \<Rightarrow> u64 \<Rightarrow> nat \<Rightarrow> bool" where
  "apart a n b k \<longleftrightarrow> n \<le> unat (b - a) \<and> k \<le> unat (a - b)"

lemma apart_sym: "apart a n b k = apart b k a n"
  by (auto simp: apart_def)

lemma unat_diff_neg: "a \<noteq> (b :: u64) \<Longrightarrow> unat (a - b) + unat (b - a) = 2 ^ 64"
  using unat64[of a] unat64[of b] by (auto simp: unat_sub_if' word_unat_eq_iff)

lemma apart_offset:
  assumes "apart a n b k" "i < n"
  shows "\<not> a + of_nat i - b < of_nat k"
proof (cases "a = b")
  case True
  then show ?thesis using assms by (simp add: apart_def)
next
  case False
  have "unat (a - b) + i < 2 ^ 64" using unat_diff_neg[OF False] assms by (simp add: apart_def)
  moreover have "unat (of_nat i :: u64) = i" using calculation by (simp add: unat_of_nat)
  ultimately have "unat (a - b + of_nat i) = unat (a - b) + i" by (simp add: unat_word_ariths(1))
  moreover have "unat (of_nat k :: u64) \<le> k" by (simp add: unat_of_nat)
  ultimately have "\<not> unat (a - b + of_nat i) < unat (of_nat k :: u64)" using assms by (simp add: apart_def)
  then show ?thesis by (simp add: word_less_nat_alt algebra_simps)
qed

lemma bit_rd:
  "bit (rd n m a :: 'a::len word) k \<longleftrightarrow> k < 8 * n \<and> k < LENGTH('a) \<and> bit (m (a + of_nat (k div 8))) (k mod 8)"
proof (induction n arbitrary: a k)
  case (Suc n)
  show ?case
  proof (cases "k < 8")
    case True
    then show ?thesis by (auto simp: bit_or_iff bit_ucast_iff bit_push_bit_iff)
  next
    case False
    then have "k div 8 = Suc ((k - 8) div 8)" "k mod 8 = (k - 8) mod 8" by (simp_all add: le_div_geq le_mod_geq)
    moreover have "\<not> bit (m a) k" using False bit_imp_le_length[of "m a" k] by auto
    ultimately show ?thesis using False Suc.IH[of "a + 1" "k - 8"]
      by (auto simp: bit_or_iff bit_ucast_iff bit_push_bit_iff add.assoc)
  qed
qed simp

lemma rd_cong:
  assumes "\<And>i. i < n \<Longrightarrow> m (a + of_nat i) = m' (a + of_nat i)"
  shows "rd n m a = rd n m' a"
  by (rule bit_word_eqI) (auto simp: bit_rd assms less_mult_imp_div_less mult.commute)

lemma rd_wr_apart:
  assumes "apart a n b k"
  shows "rd n (wr k b v m) a = rd n m a"
  using apart_offset[OF assms] by (intro rd_cong) (simp add: wr_def)

lemma wr_wr_apart:
  assumes "apart a n b k"
  shows "wr n a v (wr k b w m) = wr k b w (wr n a v m)"
proof
  fix x
  have "\<not> x - b < of_nat k" if "x - a < of_nat n"
  proof -
    have "unat (x - a) < unat (of_nat n :: u64)" using that by (simp add: word_less_nat_alt)
    also have "\<dots> \<le> n" by (simp add: unat_of_nat)
    finally show ?thesis using apart_offset[OF assms, of "unat (x - a)"] by simp
  qed
  then show "wr n a v (wr k b w m) x = wr k b w (wr n a v m) x" by (auto simp: wr_def)
qed

lemma wr_byte:
  assumes "i < n" "n < 2 ^ 64"
  shows "wr n a v m (a + of_nat i) = ucast (drop_bit (8 * i) v)"
proof -
  have "unat (of_nat i :: u64) = i" "unat (of_nat n :: u64) = n" using assms by (simp_all add: unat_of_nat)
  then show ?thesis using assms by (simp add: wr_def word_less_nat_alt)
qed

lemma rd_wr:
  assumes "8 * n = LENGTH('a)" "n < 2 ^ 64"
  shows "rd n (wr n a (v :: 'a::len word) m) a = v"
proof (rule bit_word_eqI)
  fix k assume k: "k < LENGTH('a)"
  then have d: "k div 8 < n" using assms(1) by (simp add: less_mult_imp_div_less mult.commute)
  have "bit (rd n (wr n a v m) a :: 'a word) k \<longleftrightarrow> bit (wr n a v m (a + of_nat (k div 8))) (k mod 8)"
    using k assms(1) by (simp add: bit_rd)
  also have "\<dots> \<longleftrightarrow> bit v k" unfolding wr_byte[OF d assms(2)]
    using k by (simp add: bit_ucast_iff bit_drop_bit_eq)
  finally show "bit (rd n (wr n a v m) a :: 'a word) k = bit v k" .
qed

lemma rd64_wr64 [simp]: "rd64 (wr64 a v m) a = v"
  by (rule rd_wr) simp_all

lemma rd32_wr32 [simp]: "rd32 (wr32 a v m) a = v"
  by (rule rd_wr) simp_all

text \<open>A store leaves every byte outside its range as it is.\<close>

lemma wr_other: "of_nat n \<le> x - a \<Longrightarrow> wr n a v m x = m x"
  by (auto simp: wr_def)

text \<open>Fields of one object: offsets below the size of the object do not wrap.\<close>

lemma apart_fields:
  assumes "i + n \<le> j" "j + k < 2 ^ 63" "0 < n"
  shows "apart (a + of_nat i) n (a + of_nat j) k" "apart (a + of_nat j) k (a + of_nat i) n"
proof -
  have "a + of_nat j - (a + of_nat i) = (of_nat (j - i) :: u64)" using assms by (simp add: of_nat_diff)
  moreover have "unat (of_nat (j - i) :: u64) = j - i" using assms(2) by (simp only: unat_of_nat) simp
  ultimately have ji: "unat (a + of_nat j - (a + of_nat i)) = j - i" by simp
  have "a + of_nat i \<noteq> a + of_nat j"
  proof
    assume "a + of_nat i = a + of_nat j"
    then have "unat (a + of_nat j - (a + of_nat i)) = 0" by simp
    then show False using ji assms by simp
  qed
  note sum = unat_diff_neg[OF this, unfolded ji]
  have "k \<le> x" if "x + (j - i) = 2 ^ 64" for x using that assms(2) by simp
  from this[OF sum] have "k \<le> unat (a + of_nat i - (a + of_nat j))" .
  then show "apart (a + of_nat i) n (a + of_nat j) k" using assms ji by (simp add: apart_def)
  then show "apart (a + of_nat j) k (a + of_nat i) n" by (simp add: apart_sym)
qed

text \<open>Ranges that do not wrap are apart when one ends before the other starts.\<close>

lemma apart_nat:
  assumes "unat a + n \<le> 2 ^ 64" "unat b + k \<le> 2 ^ 64" "0 < n" "0 < k"
    "unat a + n \<le> unat b \<or> unat b + k \<le> unat a"
  shows "apart a n b k"
  using assms unfolding apart_def unat_sub_if' by auto

lemma unat_add_field:
  assumes "unat a + k < 2 ^ 64"
  shows "unat (a + of_nat k :: u64) = unat a + k"
  using assms by (simp add: unat_word_ariths(1) unat_of_nat)

end
