(* ===== verification/Nya_String.thy ===== *)
theory Nya_String
  imports Nya_Memory
begin

section \<open>The C library: memory blocks, strings and character classes\<close>

text \<open>
  The functions of \<open>libc/string\<close> and \<open>libc/ctype\<close> over byte memory. The block functions
  take a \<open>size_t\<close> and run a counted loop, so they are structurally recursive. The string
  functions scan for the terminating zero byte: a memory without one makes them run
  forever, so they are partial functions and \<open>None\<close> is a call that does not return.
  \<open>char\<close> is signed on this target.
\<close>

subsection \<open>Memory blocks\<close>

fun set_bytes :: "nat \<Rightarrow> u64 \<Rightarrow> u8 \<Rightarrow> mem \<Rightarrow> mem" where
  "set_bytes 0 buf value m = m"
| "set_bytes (Suc i) buf value m = (set_bytes i buf value m)(buf + of_nat i := value)"

definition memset :: "u64 \<Rightarrow> u32 \<Rightarrow> u64 \<Rightarrow> mem \<Rightarrow> u64 \<times> mem" where
  "memset bufptr value sz m = (bufptr, set_bytes (unat sz) bufptr (ucast value) m)"

fun copy_up :: "nat \<Rightarrow> u64 \<Rightarrow> u64 \<Rightarrow> mem \<Rightarrow> mem" where
  "copy_up 0 dst src m = m"
| "copy_up (Suc i) dst src m =
     (let m' = copy_up i dst src m in m'(dst + of_nat i := m' (src + of_nat i)))"

fun copy_down :: "nat \<Rightarrow> u64 \<Rightarrow> u64 \<Rightarrow> mem \<Rightarrow> mem" where
  "copy_down 0 dst src m = m"
| "copy_down (Suc i) dst src m = copy_down i dst src (m(dst + of_nat i := m (src + of_nat i)))"

definition memcpy :: "u64 \<Rightarrow> u64 \<Rightarrow> u64 \<Rightarrow> mem \<Rightarrow> u64 \<times> mem" where
  "memcpy dstptr srcptr sz m = (dstptr, copy_up (unat sz) dstptr srcptr m)"

definition memmove :: "u64 \<Rightarrow> u64 \<Rightarrow> u64 \<Rightarrow> mem \<Rightarrow> u64 \<times> mem" where
  "memmove dstptr srcptr sz m =
     (dstptr, if dstptr < srcptr then copy_up (unat sz) dstptr srcptr m
              else copy_down (unat sz) dstptr srcptr m)"

fun memcmp_from :: "nat \<Rightarrow> u64 \<Rightarrow> u64 \<Rightarrow> mem \<Rightarrow> int" where
  "memcmp_from 0 a b m = 0"
| "memcmp_from (Suc n) a b m =
     (if m a < m b then - 1 else if m a > m b then 1 else memcmp_from n (a + 1) (b + 1) m)"

definition memcmp :: "u64 \<Rightarrow> u64 \<Rightarrow> u64 \<Rightarrow> mem \<Rightarrow> int" where
  "memcmp aptr bptr sz m = memcmp_from (unat sz) aptr bptr m"

subsection \<open>Strings\<close>

partial_function (option) strlen_from :: "u64 \<Rightarrow> u64 \<Rightarrow> mem \<Rightarrow> u64 option" where
  "strlen_from str r m = (if m (str + r) \<noteq> 0 then strlen_from str (r + 1) m else Some r)"

definition strlen :: "u64 \<Rightarrow> mem \<Rightarrow> u64 option" where
  "strlen str m = strlen_from str 0 m"

partial_function (option) strcmp :: "u64 \<Rightarrow> u64 \<Rightarrow> mem \<Rightarrow> int option" where
  "strcmp s1 s2 m =
     (if m s1 \<noteq> 0 \<and> m s1 = m s2 then strcmp (s1 + 1) (s2 + 1) m
      else Some (sint (m s1) - sint (m s2)))"

fun strncmp_n :: "nat \<Rightarrow> u64 \<Rightarrow> u64 \<Rightarrow> mem \<Rightarrow> int" where
  "strncmp_n 0 s1 s2 m = 0"
| "strncmp_n (Suc n) s1 s2 m =
     (if m s1 \<noteq> m s2 then sint (m s1) - sint (m s2)
      else if m s1 = 0 then 0
      else strncmp_n n (s1 + 1) (s2 + 1) m)"

definition strncmp :: "u64 \<Rightarrow> u64 \<Rightarrow> u64 \<Rightarrow> mem \<Rightarrow> int" where
  "strncmp s1 s2 n m = strncmp_n (unat n) s1 s2 m"

text \<open>
  The loop \<open>while ((*dst++ = *src++)) {}\<close>; the result is the pointer after the byte copied
  last. \<open>strcpy\<close> has no \<open>return\<close>, so its model gives back the memory alone; \<open>strcat\<close>
  returns the advanced pointer.
\<close>

partial_function (option) copy_string :: "u64 \<Rightarrow> u64 \<Rightarrow> mem \<Rightarrow> (u64 \<times> mem) option" where
  "copy_string dst src m =
     (let c = m src; m' = m(dst := c)
      in if c \<noteq> 0 then copy_string (dst + 1) (src + 1) m' else Some (dst + 1, m'))"

definition strcpy :: "u64 \<Rightarrow> u64 \<Rightarrow> mem \<Rightarrow> mem option" where
  "strcpy dst src m = map_option snd (copy_string dst src m)"

partial_function (option) find_end :: "u64 \<Rightarrow> mem \<Rightarrow> u64 option" where
  "find_end dst m = (if m dst \<noteq> 0 then find_end (dst + 1) m else Some dst)"

definition strcat :: "u64 \<Rightarrow> u64 \<Rightarrow> mem \<Rightarrow> (u64 \<times> mem) option" where
  "strcat dst src m = (case find_end dst m of None \<Rightarrow> None | Some e \<Rightarrow> copy_string e src m)"

declare strlen_from.simps [code] strcmp.simps [code] copy_string.simps [code] find_end.simps [code]

subsection \<open>Character classes\<close>

definition isdigit :: "int \<Rightarrow> bool" where
  "isdigit c \<longleftrightarrow> 48 \<le> c \<and> c \<le> 57"

definition isxdigit :: "int \<Rightarrow> bool" where
  "isxdigit c \<longleftrightarrow>
     (if 48 \<le> c \<and> c \<le> 57 then True else if c \<ge> 97 \<and> c \<le> 102 then True else c \<ge> 65 \<and> c \<le> 70)"

subsection \<open>Blocks as functions of the address\<close>

text \<open>The bytes of a block, and the memory in which a block has been replaced.\<close>

definition block :: "u64 \<Rightarrow> nat \<Rightarrow> mem \<Rightarrow> u8 list" where
  "block a n m = map (\<lambda>i. m (a + of_nat i)) [0..<n]"

definition paint :: "u64 \<Rightarrow> nat \<Rightarrow> (u64 \<Rightarrow> u8) \<Rightarrow> mem \<Rightarrow> mem" where
  "paint a n f m = (\<lambda>x. if unat (x - a) < n then f (x - a) else m x)"

lemma offset_of_nat:
  assumes "n \<le> 2 ^ 64"
  shows "unat (x - a) < n \<longleftrightarrow> (\<exists>i<n. (x :: u64) = a + of_nat i)"
proof
  assume "unat (x - a) < n"
  then show "\<exists>i<n. x = a + of_nat i" by (intro exI[of _ "unat (x - a)"]) simp
next
  assume "\<exists>i<n. x = a + of_nat i"
  then obtain i where i: "i < n" "x = a + of_nat i" by blast
  then have "unat (x - a) = i" using assms by (simp add: unat_of_nat)
  with i show "unat (x - a) < n" by simp
qed

lemma paint_Suc:
  assumes "Suc n \<le> 2 ^ 64"
  shows "(paint a n f m)(a + of_nat n := f (of_nat n)) = paint a (Suc n) f m"
proof
  fix x
  have "unat (x - a) = n \<longleftrightarrow> x = a + of_nat n"
  proof
    assume "unat (x - a) = n"
    then have "of_nat n = x - a" using of_nat_unat64[of "x - a"] by simp
    then show "x = a + of_nat n" by simp
  next
    assume "x = a + of_nat n"
    then show "unat (x - a) = n" using assms by (simp add: unat_of_nat)
  qed
  then show "((paint a n f m)(a + of_nat n := f (of_nat n))) x = paint a (Suc n) f m x"
    by (auto simp: paint_def less_Suc_eq)
qed

lemma set_bytes_paint: "n \<le> 2 ^ 64 \<Longrightarrow> set_bytes n buf v m = paint buf n (\<lambda>_. v) m"
proof (induction n)
  case 0
  then show ?case by (simp add: paint_def)
next
  case (Suc n)
  then show ?case using paint_Suc[of n buf "\<lambda>_. v" m] by simp
qed

text \<open>
  Copying upwards is right when the source does not lie below the destination by less than
  the size, and copying downwards when it does not lie above it by less.
\<close>

lemma copy_up_paint:
  assumes "n \<le> 2 ^ 64" "dst = src \<or> n \<le> unat (dst - src)"
  shows "copy_up n dst src m = paint dst n (\<lambda>i. m (src + i)) m"
  using assms
proof (induction n)
  case 0
  then show ?case by (simp add: paint_def)
next
  case (Suc n)
  have IH: "copy_up n dst src m = paint dst n (\<lambda>i. m (src + i)) m" using Suc by auto
  have "paint dst n (\<lambda>i. m (src + i)) m (src + of_nat n) = m (src + of_nat n)"
  proof (cases "dst = src")
    case True
    then show ?thesis by (simp add: paint_def)
  next
    case False
    have "unat (src - dst) + unat (dst - src) = 2 ^ 64" using unat_diff_neg[of src dst] False by auto
    then have sm: "unat (src - dst) + n < 2 ^ 64" using Suc.prems(2) False by simp
    have "unat (of_nat n :: u64) = n" using Suc.prems(1) by (simp add: unat_of_nat)
    then have "unat (src - dst + of_nat n) = unat (src - dst) + n" using sm by (simp add: unat_word_ariths(1))
    then have "\<not> unat (src + of_nat n - dst) < n" by (simp add: algebra_simps)
    then show ?thesis by (simp add: paint_def)
  qed
  then show ?case using paint_Suc[of n dst "\<lambda>i. m (src + i)" m] Suc.prems(1) by (simp add: IH)
qed

lemma copy_down_paint:
  assumes "n \<le> 2 ^ 64" "dst = src \<or> n \<le> unat (src - dst)"
  shows "copy_down n dst src m = paint dst n (\<lambda>i. m (src + i)) m"
  using assms
proof (induction n arbitrary: m)
  case 0
  then show ?case by (simp add: paint_def)
next
  case (Suc n)
  let ?m = "m(dst + of_nat n := m (src + of_nat n))"
  have same: "?m (src + i) = m (src + i)" if "unat i < n" for i
  proof (cases "src + i = dst + of_nat n")
    case True
    show ?thesis
    proof (cases "dst = src")
      case True
      then show ?thesis by simp
    next
      case False
      have nn: "unat (of_nat n :: u64) = n" using Suc.prems(1) by (simp add: unat_of_nat)
      have "src - dst = of_nat n - i" using True by (simp add: algebra_simps)
      moreover have "i \<le> of_nat n" using that nn by (simp add: word_le_nat_alt)
      ultimately have "unat (src - dst) = n - unat i" using nn by (simp add: unat_sub)
      then show ?thesis using Suc.prems(2) False by simp
    qed
  qed simp
  have "copy_down (Suc n) dst src m = paint dst n (\<lambda>i. ?m (src + i)) ?m"
  proof -
    have "n \<le> 2 ^ 64" "dst = src \<or> n \<le> unat (src - dst)" using Suc.prems by auto
    from Suc.IH[OF this, of ?m] show ?thesis by (simp only: copy_down.simps)
  qed
  also have "\<dots> = (paint dst n (\<lambda>i. m (src + i)) m)(dst + of_nat n := m (src + of_nat n))"
  proof
    fix x
    have out: "\<not> unat (dst + of_nat n - dst) < n" using Suc.prems(1) by (simp add: unat_of_nat)
    show "paint dst n (\<lambda>i. ?m (src + i)) ?m x = ((paint dst n (\<lambda>i. m (src + i)) m)(dst + of_nat n := m (src + of_nat n))) x"
    proof (cases "unat (x - dst) < n")
      case True
      then have "x \<noteq> dst + of_nat n" using out by auto
      then show ?thesis using True same[OF True] by (simp add: paint_def)
    next
      case False
      then show ?thesis by (simp add: paint_def)
    qed
  qed
  also have "\<dots> = paint dst (Suc n) (\<lambda>i. m (src + i)) m"
    using paint_Suc[of n dst "\<lambda>i. m (src + i)" m] Suc.prems(1) by simp
  finally show ?case .
qed

lemma paint_block: "n \<le> 2 ^ 64 \<Longrightarrow> block a n (paint a n f m) = map (\<lambda>i. f (of_nat i)) [0..<n]"
  by (auto simp: block_def paint_def unat_of_nat)

lemma block_Suc: "block a (Suc n) m = m a # block (a + 1) n m"
proof -
  have "[0..<Suc n] = 0 # map Suc [0..<n]" by (simp add: upt_conv_Cons map_Suc_upt del: upt_Suc)
  then show ?thesis by (simp add: block_def add.assoc del: upt_Suc)
qed

lemma memcmp_from_block:
  "memcmp_from n a b m =
    (if block a n m = block b n m then 0
     else if ord_class.lexordp (block a n m) (block b n m) then - 1 else 1)"
proof (induction n arbitrary: a b)
  case 0
  then show ?case by (simp add: block_def)
next
  case (Suc n)
  then show ?case by (auto simp: block_Suc)
qed

subsection \<open>Strings as lists of bytes\<close>

text \<open>There is a string \<open>cs\<close> (with no zero byte) at \<open>a\<close>, ended by a zero byte.\<close>

definition cstring :: "mem \<Rightarrow> u64 \<Rightarrow> u8 list \<Rightarrow> bool" where
  "cstring m a cs \<longleftrightarrow> 0 \<notin> set cs \<and> block a (length cs) m = cs \<and> m (a + of_nat (length cs)) = 0"

lemma cstring_Nil: "cstring m a [] \<longleftrightarrow> m a = 0"
  by (auto simp: cstring_def block_def)

lemma cstring_Cons: "cstring m a (c # cs) \<longleftrightarrow> c \<noteq> 0 \<and> m a = c \<and> cstring m (a + 1) cs"
  by (auto simp: cstring_def block_Suc add.assoc)

lemma cstring_unique: "cstring m a cs \<Longrightarrow> cstring m a ds \<Longrightarrow> cs = ds"
proof (induction cs arbitrary: a ds)
  case Nil
  then show ?case by (cases ds) (auto simp: cstring_Nil cstring_Cons)
next
  case (Cons c cs)
  then show ?case by (cases ds) (auto simp: cstring_Nil cstring_Cons)
qed

lemma strlen_from_string:
  "cstring m (str + r) cs \<Longrightarrow> strlen_from str r m = Some (r + of_nat (length cs))"
proof (induction cs arbitrary: r)
  case Nil
  then show ?case by (subst strlen_from.simps) (simp add: cstring_Nil)
next
  case (Cons c cs)
  have "cstring m (str + (r + 1)) cs" using Cons.prems by (simp add: cstring_Cons add.assoc)
  from Cons.IH[OF this] Cons.prems show ?case
    by (subst strlen_from.simps) (simp add: cstring_Cons algebra_simps)
qed

lemma find_end_string: "cstring m a cs \<Longrightarrow> find_end a m = Some (a + of_nat (length cs))"
proof (induction cs arbitrary: a)
  case Nil
  then show ?case by (subst find_end.simps) (simp add: cstring_Nil)
next
  case (Cons c cs)
  then show ?case by (subst find_end.simps) (simp add: cstring_Cons algebra_simps)
qed

lemma sint_eq: "sint v = sint w \<longleftrightarrow> v = (w :: 'a::len word)"
  by (auto intro: signed_word_eqI)

lemma strcmp_string:
  "cstring m a cs \<Longrightarrow> cstring m b ds \<Longrightarrow> \<exists>r. strcmp a b m = Some r \<and> (r = 0 \<longleftrightarrow> cs = ds)"
proof (induction cs arbitrary: a b ds)
  case Nil
  then show ?case by (subst strcmp.simps, cases ds) (use sint_eq[of _ 0] in \<open>auto simp: cstring_Nil cstring_Cons\<close>)
next
  case (Cons c cs)
  then show ?case
    by (subst strcmp.simps, cases ds) (use sint_eq[of _ 0] in \<open>auto simp: cstring_Nil cstring_Cons sint_eq\<close>)
qed

lemma strncmp_prefix:
  "cstring m a cs \<Longrightarrow> cstring m b ds \<Longrightarrow> strncmp_n n a b m = 0 \<longleftrightarrow> take n cs = take n ds"
proof (induction n arbitrary: a b cs ds)
  case (Suc n)
  show ?case
  proof (cases "cs = [] \<or> ds = []")
    case True
    then show ?thesis using Suc.prems
      by (cases cs; cases ds) (auto simp: cstring_Nil cstring_Cons sint_eq sint_eq[of _ 0, simplified])
  next
    case False
    then obtain c cs' d ds' where "cs = c # cs'" "ds = d # ds'" by (meson neq_Nil_conv)
    with Suc show ?thesis by (auto simp: cstring_Cons sint_eq)
  qed
qed simp

text \<open>Copying a string to a place that does not meet its own bytes.\<close>

lemma copy_string_ok:
  assumes "cstring m src cs" "length cs < 2 ^ 63" "apart dst (Suc (length cs)) src (Suc (length cs))"
  shows "copy_string dst src m =
    Some (dst + of_nat (Suc (length cs)), paint dst (Suc (length cs)) (\<lambda>i. m (src + i)) m)"
  using assms
proof (induction cs arbitrary: dst src m)
  case Nil
  then show ?case
    by (subst copy_string.simps) (auto simp: cstring_Nil paint_def fun_eq_iff unsigned_eq_0_iff)
next
  case (Cons c cs)
  let ?n = "length cs" and ?m = "m(dst := c)"
  have ne: "src + of_nat i \<noteq> dst" if "i \<le> Suc ?n" for i
  proof -
    have "apart src (Suc (length (c # cs))) dst (Suc (length (c # cs)))"
      using Cons.prems(3) unfolding apart_sym[of dst] .
    from apart_offset[OF this, of i] that Cons.prems(2) show ?thesis
      by (auto simp: word_less_nat_alt unat_word_ariths(1) unat_of_nat)
  qed
  have s: "m src = c" "c \<noteq> 0" "cstring m (src + 1) cs" using Cons.prems(1) by (auto simp: cstring_Cons)
  have same: "?m (src + 1 + of_nat i) = m (src + 1 + of_nat i)" if "i \<le> ?n" for i
    using ne[of "Suc i"] that by (simp add: add.assoc)
  then have "block (src + 1) ?n ?m = block (src + 1) ?n m"
    unfolding block_def by (intro map_cong refl) (simp del: fun_upd_apply)
  then have "cstring ?m (src + 1) cs" using s(3) same[of ?n] by (simp add: cstring_def del: fun_upd_apply)
  moreover have "apart (dst + 1) (Suc ?n) (src + 1) (Suc ?n)" using Cons.prems(3) by (simp add: apart_def)
  moreover have "length cs < 2 ^ 63" using Cons.prems(2) by simp
  ultimately have IH: "copy_string (dst + 1) (src + 1) ?m =
      Some (dst + 1 + of_nat (Suc ?n), paint (dst + 1) (Suc ?n) (\<lambda>i. ?m (src + 1 + i)) ?m)"
    by (metis Cons.IH)
  have "paint (dst + 1) (Suc ?n) (\<lambda>i. ?m (src + 1 + i)) ?m = paint dst (Suc (Suc ?n)) (\<lambda>i. m (src + i)) m"
  proof
    fix x
    show "paint (dst + 1) (Suc ?n) (\<lambda>i. ?m (src + 1 + i)) ?m x = paint dst (Suc (Suc ?n)) (\<lambda>i. m (src + i)) m x"
    proof (cases "x = dst")
      case True
      have "unat (- 1 :: u64) = 2 ^ 64 - 1" using unat_diff_neg[of 0 1] by simp
      then show ?thesis using True s(1) Cons.prems(2) by (simp add: paint_def)
    next
      case False
      then have u: "unat (x - (dst + 1)) = unat (x - dst) - 1" "x - dst \<noteq> 0"
        using unat_minus_one[of "x - dst"] by (simp_all add: algebra_simps)
      have xd: "x - (dst + 1) = of_nat (unat (x - (dst + 1)))" by simp
      have "?m (src + 1 + (x - (dst + 1))) = m (src + (x - dst))" if "unat (x - (dst + 1)) < Suc ?n"
        using same[of "unat (x - (dst + 1))"] that unfolding xd[symmetric] by (simp add: algebra_simps)
      moreover have "unat (x - dst) \<noteq> 0" using u(2) by (simp add: unsigned_eq_0_iff)
      ultimately show ?thesis using False u(1) by (auto simp: paint_def)
    qed
  qed
  then show ?case using s IH by (subst copy_string.simps) (simp add: Let_def add.assoc)
qed

subsection \<open>Properties of the C library\<close>

text \<open>
  C22. \<open>memmove\<close> is right for overlapping blocks: as long as neither block wraps around the
  address space, the destination holds afterwards the bytes the source held before, and no
  other byte changes.
\<close>

theorem memmove_overlap:
  assumes "unat dst + unat sz \<le> 2 ^ 64" "unat src + unat sz \<le> 2 ^ 64"
  shows "memmove dst src sz m = (dst, paint dst (unat sz) (\<lambda>i. m (src + i)) m) \<and>
    block dst (unat sz) (snd (memmove dst src sz m)) = block src (unat sz) m"
proof -
  have sz: "unat sz \<le> 2 ^ 64" using unat64[of sz] by simp
  have "memmove dst src sz m = (dst, paint dst (unat sz) (\<lambda>i. m (src + i)) m)"
  proof (cases "dst < src")
    case True
    then have "unat sz \<le> unat (dst - src)" using assms(2) by (simp add: unat_sub_if' word_less_nat_alt)
    then show ?thesis using True copy_up_paint[OF sz] by (simp add: memmove_def)
  next
    case False
    then have "dst = src \<or> unat sz \<le> unat (src - dst)"
      using assms(1) by (auto simp: unat_sub_if' word_less_nat_alt word_unat_eq_iff)
    then show ?thesis using False copy_down_paint[OF sz] by (simp add: memmove_def)
  qed
  then show ?thesis using paint_block[OF sz] by (simp add: block_def)
qed

definition mem_example :: mem where
  "mem_example = (\<lambda>_. 0)(0x1000 := 1, 0x1001 := 2, 0x1002 := 3, 0x2000 := 1, 0x2001 := 2)"

theorem memmove_overlap_witness:
  "block 0x1001 3 (snd (memmove 0x1001 0x1000 3 mem_example)) = [1, 2, 3]"
proof -
  have "block 0x1000 3 mem_example = [1, 2, 3]" by code_simp
  moreover have "block 0x1001 3 (snd (memmove 0x1001 0x1000 3 mem_example)) = block 0x1000 3 mem_example"
    using conjunct2[OF memmove_overlap[of "0x1001" 3 "0x1000" mem_example]] by simp
  ultimately show ?thesis by (rule trans[rotated])
qed

text \<open>
  \<open>memcpy\<close> copies a block exactly when the destination does not start inside the
  source after its first byte.
\<close>

theorem memcpy_disjoint:
  assumes "dst = src \<or> unat sz \<le> unat (dst - src)"
  shows "memcpy dst src sz m = (dst, paint dst (unat sz) (\<lambda>i. m (src + i)) m)"
  using copy_up_paint[OF _ assms] unat64[of sz] by (simp add: memcpy_def)

theorem memcpy_disjoint_witness:
  "memcpy 0x3000 0x1000 3 mem_example = (0x3000, paint 0x3000 3 (\<lambda>i. mem_example (0x1000 + i)) mem_example)"
  using memcpy_disjoint[of "0x3000" "0x1000" 3 mem_example] by simp

text \<open>
  C35. \<open>memcmp\<close> is 0 for equal blocks, and otherwise -1 or 1 as the first block is below or
  above the second in the lexicographic order of unsigned bytes.
\<close>

theorem memcmp_lexicographic:
  "memcmp a b sz m =
    (if block a (unat sz) m = block b (unat sz) m then 0
     else if ord_class.lexordp (block a (unat sz) m) (block b (unat sz) m) then - 1 else 1)"
  unfolding memcmp_def by (rule memcmp_from_block)

text \<open>
  On a zero-terminated string \<open>strlen\<close> returns its length and \<open>strcmp\<close> returns zero
  exactly for equal strings; \<open>strncmp\<close> returns zero exactly when the first \<open>n\<close> bytes agree.
\<close>

theorem string_scans:
  assumes "cstring m a cs" "cstring m b ds"
  shows "strlen a m = Some (of_nat (length cs)) \<and>
    (\<exists>r. strcmp a b m = Some r \<and> (r = 0 \<longleftrightarrow> cs = ds)) \<and>
    (strncmp a b n m = 0 \<longleftrightarrow> take (unat n) cs = take (unat n) ds)"
  using strlen_from_string[of m a 0 cs] strcmp_string[OF assms] strncmp_prefix[OF assms] assms(1)
  by (simp add: strlen_def strncmp_def)

theorem string_scans_witness:
  "strlen 0x1000 mem_example = Some 3 \<and> (\<exists>r. strcmp 0x1000 0x2000 mem_example = Some r \<and> r \<noteq> 0) \<and>
    strncmp 0x1000 0x2000 2 mem_example = 0"
  using string_scans[of mem_example "0x1000" "[1, 2, 3]" "0x2000" "[1, 2]" 2]
  by (simp add: cstring_Cons cstring_Nil mem_example_def)

text \<open>
  \<open>strcat\<close> appends the second string to the first when the two do not meet, and returns
  the address after the terminating zero byte instead of the destination.
\<close>

theorem strcat_appends:
  assumes "cstring m dst ds" "cstring m src cs" "length cs < 2 ^ 63"
    "apart (dst + of_nat (length ds)) (Suc (length cs)) src (Suc (length cs))"
  shows "strcat dst src m = Some (dst + of_nat (length ds + length cs + 1),
    paint (dst + of_nat (length ds)) (Suc (length cs)) (\<lambda>i. m (src + i)) m)"
  using find_end_string[OF assms(1)] copy_string_ok[OF assms(2-4)]
  by (simp add: strcat_def algebra_simps)

theorem strcat_appends_witness:
  "strcat 0x2000 0x1000 mem_example = Some (0x2006, paint 0x2002 4 (\<lambda>i. mem_example (0x1000 + i)) mem_example)"
proof -
  have "cstring mem_example 0x2000 [1, 2]" "cstring mem_example 0x1000 [1, 2, 3]"
    by (simp_all add: cstring_Cons cstring_Nil mem_example_def)
  from strcat_appends[OF this]
  have "strcat 0x2000 0x1000 mem_example = Some (0x2006,
      paint 0x2002 (Suc (length [1 :: u8, 2, 3])) (\<lambda>i. mem_example (0x1000 + i)) mem_example)"
    by (simp add: apart_def)
  moreover have "Suc (length [1 :: u8, 2, 3]) = 4" by simp
  ultimately show ?thesis by metis
qed

end
