(* ===== verification/Nya_Slab_Table.thy ===== *)
theory Nya_Slab_Table
  imports Nya_String Nya_Pager
begin

unbundle bit_operations_syntax

section \<open>The kernel heap: memory and the hash table of buffers\<close>

text \<open>
  The first part of \<open>kernel/arch/x86_64/slab.c\<close>: the hash table (open addressing with linear
  probing) that maps the address of a buffer to its control block. The structures of
  \<open>slab.h\<close> live in byte memory at the offsets the x86-64 ABI gives them:
  \<open>slab_ht\<close> is \<open>buckets\<close> at 0, \<open>size\<close> at 8 and \<open>capacity\<close> at 16; a \<open>hash_val\<close> is 24 bytes
  with \<open>val\<close> at 0, \<open>key\<close> at 8 and the 32-bit \<open>state\<close> at 16.

  A load or store in the first page of the address space is a page fault, \<open>NullDeref\<close>. The
  probing loops need not end (a table without an empty bucket), so they are partial
  functions: \<open>None\<close> is a call that does not return.
\<close>

subsection \<open>State\<close>

record kheap =
  kmem :: mem
  kpager :: pager
  cache_cache :: u64
  caches :: "u64 list"
  kconsole :: "string list"

definition ld64 :: "kheap \<Rightarrow> u64 \<Rightarrow> u64 res" where
  "ld64 s a = (if a < 4096 then Inl NullDeref else Inr (rd64 (kmem s) a))"

definition ld32 :: "kheap \<Rightarrow> u64 \<Rightarrow> u32 res" where
  "ld32 s a = (if a < 4096 then Inl NullDeref else Inr (rd32 (kmem s) a))"

definition st64 :: "u64 \<Rightarrow> u64 \<Rightarrow> kheap \<Rightarrow> kheap res" where
  "st64 a v s = (if a < 4096 then Inl NullDeref else Inr (s\<lparr>kmem := wr64 a v (kmem s)\<rparr>))"

definition st32 :: "u64 \<Rightarrow> u32 \<Rightarrow> kheap \<Rightarrow> kheap res" where
  "st32 a v s = (if a < 4096 then Inl NullDeref else Inr (s\<lparr>kmem := wr32 a v (kmem s)\<rparr>))"

definition kmemset :: "u64 \<Rightarrow> u32 \<Rightarrow> u64 \<Rightarrow> kheap \<Rightarrow> kheap" where
  "kmemset a v n s = s\<lparr>kmem := snd (memset a v n (kmem s))\<rparr>"

definition zero_frames :: "u64 \<Rightarrow> u64 \<Rightarrow> mem \<Rightarrow> mem" where
  "zero_frames fstart n m = snd (memset fstart 0 (n * PAGE_SIZE) m)"

text \<open>The frame allocator as the heap calls it: the result is a virtual address.\<close>

definition page_alloc :: "kheap \<Rightarrow> (u64 \<times> kheap) res" where
  "page_alloc s =
     bindR (kalloc_frame (frames (kpager s))) (\<lambda>(f, fr).
       Inr (phys_to_virt (kpager s) f, s\<lparr>kpager := (kpager s)\<lparr>frames := fr\<rparr>\<rparr>))"

definition pages_alloc :: "u64 \<Rightarrow> kheap \<Rightarrow> (u64 \<times> kheap) res" where
  "pages_alloc n s =
     bindR (kalloc_frames n (frames (kpager s))) (\<lambda>(f, fr).
       Inr (phys_to_virt (kpager s) f, s\<lparr>kpager := (kpager s)\<lparr>frames := fr\<rparr>\<rparr>))"

definition page_free :: "u64 \<Rightarrow> kheap \<Rightarrow> kheap res" where
  "page_free v s =
     bindR (kfree_frame (virt_to_phys (kpager s) v) (frames (kpager s))) (\<lambda>fr.
       Inr (s\<lparr>kpager := (kpager s)\<lparr>frames := fr\<rparr>\<rparr>))"

definition pages_free :: "u64 \<Rightarrow> u64 \<Rightarrow> kheap \<Rightarrow> kheap res" where
  "pages_free v n s =
     bindR (kfree_frames (virt_to_phys (kpager s) v) n (frames (kpager s))) (\<lambda>fr.
       Inr (s\<lparr>kpager := (kpager s)\<lparr>frames := fr\<rparr>\<rparr>))"

subsection \<open>The hash table\<close>

datatype hash_state = EMPTY | DELETED | FULL

fun hash_state_of :: "u32 \<Rightarrow> hash_state" where
  "hash_state_of w = (if w = 0 then EMPTY else if w = 2 then FULL else DELETED)"

fun hash_state_to :: "hash_state \<Rightarrow> u32" where
  "hash_state_to EMPTY = 0" | "hash_state_to DELETED = 1" | "hash_state_to FULL = 2"

definition hash :: "u64 \<Rightarrow> u32 \<Rightarrow> u64 res" where
  "hash inp sz = (if sz = 0 then Inl DivideByZero else Inr (inp mod scast sz))"

definition hash_buf :: "u64 \<Rightarrow> u64 \<Rightarrow> kheap \<Rightarrow> u64 res" where
  "hash_buf ht buf_addr s = bindR (ld64 s (ht + 16)) (\<lambda>cap. hash buf_addr (ucast cap))"

definition bucket_state :: "u64 \<Rightarrow> u64 \<Rightarrow> kheap \<Rightarrow> hash_state res" where
  "bucket_state b i s = bindR (ld32 s (b + 24 * i + 16)) (\<lambda>w. Inr (hash_state_of w))"

definition bucket_key :: "u64 \<Rightarrow> u64 \<Rightarrow> kheap \<Rightarrow> u64 res" where
  "bucket_key b i s = ld64 s (b + 24 * i + 8)"

definition bucket_val :: "u64 \<Rightarrow> u64 \<Rightarrow> kheap \<Rightarrow> u64 res" where
  "bucket_val b i s = ld64 s (b + 24 * i)"

definition next_hash :: "u64 \<Rightarrow> u64 \<Rightarrow> u64 res" where
  "next_hash h cap = (if cap = 0 then Inl DivideByZero else Inr ((h + 1) mod cap))"

definition ht_init :: "kheap \<Rightarrow> ((u64 \<times> u64 \<times> u64) \<times> kheap) res" where
  "ht_init s =
     bindR (page_alloc s) (\<lambda>(buckets, s).
       Inr ((buckets, 0, PAGE_SIZE div 24), kmemset buckets 0 PAGE_SIZE s))"

text \<open>
  The loop that \<open>ht_get\<close> and \<open>ht_erase\<close> share: the bucket of the key, or \<open>None\<close> when an
  empty bucket ends the search.
\<close>

partial_function (option) ht_find :: "u64 \<Rightarrow> u64 \<Rightarrow> u64 \<Rightarrow> kheap \<Rightarrow> u64 option res option" where
  "ht_find ht key h s =
     bindX (Some (bindR (ld64 s ht) (\<lambda>b. bindR (bucket_state b h s) (\<lambda>st.
              bindR (if st = FULL then bucket_key b h s else Inr 0) (\<lambda>k. Inr (st, k)))))) (\<lambda>(st, k).
       if st \<noteq> FULL \<or> k \<noteq> key
       then if st = EMPTY then Some (Inr None)
            else bindX (Some (bindR (ld64 s (ht + 16)) (next_hash h))) (\<lambda>h'. ht_find ht key h' s)
       else Some (Inr (Some h)))"

definition ht_get :: "u64 \<Rightarrow> u64 \<Rightarrow> kheap \<Rightarrow> u64 res option" where
  "ht_get ht key s =
     bindX (Some (hash_buf ht key s)) (\<lambda>h.
     bindX (ht_find ht key h s) (\<lambda>r.
       case r of None \<Rightarrow> Some (Inr 0)
       | Some i \<Rightarrow> Some (bindR (ld64 s ht) (\<lambda>b. bucket_val b i s))))"

text \<open>The first bucket from \<open>h\<close> on that is not in use, in a table of \<open>cap\<close> buckets at \<open>b\<close>.\<close>

partial_function (option) free_slot :: "u64 \<Rightarrow> u64 \<Rightarrow> u64 \<Rightarrow> kheap \<Rightarrow> u64 res option" where
  "free_slot b cap h s =
     bindX (Some (bucket_state b h s)) (\<lambda>st.
       if st = FULL then bindX (Some (next_hash h cap)) (\<lambda>h'. free_slot b cap h' s)
       else Some (Inr h))"

definition put_bucket :: "u64 \<Rightarrow> u64 \<Rightarrow> u64 \<Rightarrow> u64 \<Rightarrow> hash_state \<Rightarrow> kheap \<Rightarrow> kheap res" where
  "put_bucket b i val key st s =
     bindR (st32 (b + 24 * i + 16) (hash_state_to st) s) (\<lambda>s.
     bindR (st64 (b + 24 * i) val s) (st64 (b + 24 * i + 8) key))"

definition rehash :: "u64 \<Rightarrow> u64 \<Rightarrow> u64 \<Rightarrow> nat \<Rightarrow> kheap \<Rightarrow> kheap res option" where
  "rehash ht new new_cap i s =
     bindX (Some (bindR (ld64 s ht) (\<lambda>b. bindR (bucket_state b (of_nat i) s) (\<lambda>st.
              bindR (bucket_key b (of_nat i) s) (\<lambda>k. bindR (bucket_val b (of_nat i) s) (\<lambda>v.
                Inr (st, k, v))))))) (\<lambda>(st, k, v).
       if st = FULL
       then bindX (Some (hash k (ucast new_cap))) (\<lambda>h.
            bindX (free_slot new new_cap h s) (\<lambda>j. Some (put_bucket new j v k FULL s)))
       else Some (Inr s))"

fun rehash_all :: "u64 \<Rightarrow> u64 \<Rightarrow> u64 \<Rightarrow> nat \<Rightarrow> nat \<Rightarrow> kheap \<Rightarrow> kheap res option" where
  "rehash_all ht new new_cap i 0 s = Some (Inr s)"
| "rehash_all ht new new_cap i (Suc n) s =
     bindX (rehash ht new new_cap i s) (rehash_all ht new new_cap (Suc i) n)"

text \<open>The new buckets are not stored in the table; only its capacity changes.\<close>

definition ht_grow :: "u64 \<Rightarrow> kheap \<Rightarrow> kheap res option" where
  "ht_grow ht s =
     bindX (Some (ld64 s (ht + 16))) (\<lambda>cap.
       let frames = (cap * 2 + PAGE_SIZE - 1) div PAGE_SIZE;
           new_cap = frames * PAGE_SIZE div 24
       in bindX (Some (pages_alloc frames s)) (\<lambda>(new, s).
          bindX (rehash_all ht new new_cap 0 (unat cap) (kmemset new 0 (frames * PAGE_SIZE) s)) (\<lambda>s.
            Some (st64 (ht + 16) new_cap s))))"

text \<open>
  The test \<open>size / (double)capacity > 0.5\<close> is written with integers; the two agree for every
  capacity that a table in memory can have.
\<close>

definition ht_set :: "u64 \<Rightarrow> u64 \<Rightarrow> u64 \<Rightarrow> kheap \<Rightarrow> kheap res option" where
  "ht_set ht key val s =
     bindX (Some (bindR (hash_buf ht key s) (\<lambda>h. bindR (ld64 s (ht + 8)) (\<lambda>sz.
              bindR (ld64 s (ht + 16)) (\<lambda>cap. Inr (h, sz, cap)))))) (\<lambda>(h, sz, cap).
     bindX (if cap \<le> sz \<or> unat cap < 2 * unat sz then ht_grow ht s else Some (Inr s)) (\<lambda>s.
     bindX (Some (bindR (ld64 s ht) (\<lambda>b. bindR (ld64 s (ht + 16)) (\<lambda>cap. Inr (b, cap))))) (\<lambda>(b, cap).
     bindX (free_slot b cap h s) (\<lambda>i.
       Some (bindR (put_bucket b i val key FULL s) (\<lambda>s.
             bindR (ld64 s (ht + 8)) (\<lambda>sz. st64 (ht + 8) (sz + 1) s)))))))"

definition ht_erase :: "u64 \<Rightarrow> u64 \<Rightarrow> kheap \<Rightarrow> (bool \<times> kheap) res option" where
  "ht_erase ht key s =
     bindX (Some (hash_buf ht key s)) (\<lambda>h.
     bindX (ht_find ht key h s) (\<lambda>r.
       case r of None \<Rightarrow> Some (Inr (False, s))
       | Some i \<Rightarrow> Some (bindR (ld64 s ht) (\<lambda>b.
           bindR (st32 (b + 24 * i + 16) (hash_state_to DELETED) s) (\<lambda>s.
           bindR (ld64 s (ht + 8)) (\<lambda>sz.
           bindR (st64 (ht + 8) (sz - 1) s) (\<lambda>s. Inr (True, s))))))))"

declare ht_find.simps [code] free_slot.simps [code]

subsection \<open>The table as a function of the bucket number\<close>

definition ht_base :: "u64 \<Rightarrow> kheap \<Rightarrow> u64" where "ht_base ht s = rd64 (kmem s) ht"
definition ht_size :: "u64 \<Rightarrow> kheap \<Rightarrow> u64" where "ht_size ht s = rd64 (kmem s) (ht + 8)"
definition ht_cap :: "u64 \<Rightarrow> kheap \<Rightarrow> nat" where "ht_cap ht s = unat (rd64 (kmem s) (ht + 16))"

definition slot_addr :: "u64 \<Rightarrow> kheap \<Rightarrow> nat \<Rightarrow> nat \<Rightarrow> u64" where
  "slot_addr ht s i k = ht_base ht s + of_nat (24 * i + k)"

definition bst :: "u64 \<Rightarrow> kheap \<Rightarrow> nat \<Rightarrow> hash_state" where
  "bst ht s i = hash_state_of (rd32 (kmem s) (slot_addr ht s i 16))"

definition bkey :: "u64 \<Rightarrow> kheap \<Rightarrow> nat \<Rightarrow> u64" where
  "bkey ht s i = rd64 (kmem s) (slot_addr ht s i 8)"

definition bval :: "u64 \<Rightarrow> kheap \<Rightarrow> nat \<Rightarrow> u64" where
  "bval ht s i = rd64 (kmem s) (slot_addr ht s i 0)"

text \<open>
  A table in place: header and buckets are mapped, do not wrap around the address space and
  do not overlap, and the capacity fits the \<open>int\<close> parameter of \<open>hash\<close>.
\<close>

definition ht_ok :: "u64 \<Rightarrow> kheap \<Rightarrow> bool" where
  "ht_ok ht s \<longleftrightarrow> 4096 \<le> unat ht \<and> unat ht + 24 \<le> 2 ^ 64 \<and>
     4096 \<le> unat (ht_base ht s) \<and> unat (ht_base ht s) + 24 * ht_cap ht s \<le> 2 ^ 64 \<and>
     0 < ht_cap ht s \<and> ht_cap ht s < 2 ^ 31 \<and>
     (unat ht + 24 \<le> unat (ht_base ht s) \<or> unat (ht_base ht s) + 24 * ht_cap ht s \<le> unat ht)"

lemma slot_addr_nat:
  assumes "ht_ok ht s" "i < ht_cap ht s" "k < 24"
  shows "unat (slot_addr ht s i k) = unat (ht_base ht s) + 24 * i + k"
proof -
  have "24 * i + k < 24 * ht_cap ht s" using assms(2,3) by linarith
  then have "unat (ht_base ht s) + (24 * i + k) < 2 ^ 64" using assms(1) by (auto simp: ht_ok_def)
  from unat_add_field[OF this] show ?thesis by (simp add: slot_addr_def add.assoc)
qed

lemma slot_addr_word: "ht_base ht s + 24 * of_nat i = slot_addr ht s i 0"
  "ht_base ht s + 24 * of_nat i + 8 = slot_addr ht s i 8"
  "ht_base ht s + 24 * of_nat i + 16 = slot_addr ht s i 16"
  by (simp_all add: slot_addr_def)

lemma header_nat:
  assumes "ht_ok ht s"
  shows "unat (ht + 8) = unat ht + 8" "unat (ht + 16) = unat ht + 16"
  using assms unat_add_field[of ht 8] unat_add_field[of ht 16] by (simp_all add: ht_ok_def)

lemma ld_header:
  assumes "ht_ok ht s"
  shows "ld64 s ht = Inr (ht_base ht s)" "ld64 s (ht + 8) = Inr (ht_size ht s)"
    "ld64 s (ht + 16) = Inr (of_nat (ht_cap ht s))"
  using assms header_nat[OF assms]
  by (simp_all add: ld64_def word_less_nat_alt ht_base_def ht_size_def ht_cap_def ht_ok_def)

lemma ld_slot:
  assumes "ht_ok ht s" "i < ht_cap ht s"
  shows "bucket_state (ht_base ht s) (of_nat i) s = Inr (bst ht s i)"
    "bucket_key (ht_base ht s) (of_nat i) s = Inr (bkey ht s i)"
    "bucket_val (ht_base ht s) (of_nat i) s = Inr (bval ht s i)"
proof -
  have "\<not> slot_addr ht s i k < 4096" if "k < 24" for k
    using slot_addr_nat[OF assms that] assms(1) by (simp add: word_less_nat_alt ht_ok_def)
  then have a: "\<not> slot_addr ht s i 0 < 4096" "\<not> slot_addr ht s i 8 < 4096" "\<not> slot_addr ht s i 16 < 4096" by simp_all
  show "bucket_state (ht_base ht s) (of_nat i) s = Inr (bst ht s i)"
    unfolding bucket_state_def slot_addr_word(3) by (simp add: ld32_def a bst_def)
  show "bucket_key (ht_base ht s) (of_nat i) s = Inr (bkey ht s i)"
    unfolding bucket_key_def slot_addr_word(2) by (simp add: ld64_def a bkey_def)
  show "bucket_val (ht_base ht s) (of_nat i) s = Inr (bval ht s i)"
    unfolding bucket_val_def slot_addr_word(1) by (simp add: ld64_def a bval_def)
qed

text \<open>The probe sequence of a key.\<close>

definition probe :: "u64 \<Rightarrow> kheap \<Rightarrow> u64 \<Rightarrow> nat \<Rightarrow> nat" where
  "probe ht s key k = (unat key mod ht_cap ht s + k) mod ht_cap ht s"

lemma probe_bound: "ht_ok ht s \<Longrightarrow> probe ht s key k < ht_cap ht s"
  by (simp add: probe_def ht_ok_def)

lemma cap_word: "ht_ok ht s \<Longrightarrow> unat (of_nat (ht_cap ht s) :: u64) = ht_cap ht s"
  by (simp add: ht_ok_def unat_of_nat)

lemma hash_home:
  assumes "ht_ok ht s"
  shows "hash_buf ht key s = Inr (of_nat (probe ht s key 0))"
proof -
  let ?c = "ht_cap ht s"
  have c: "0 < ?c" "?c < 2 ^ 31" using assms by (auto simp: ht_ok_def)
  have u: "ucast (of_nat ?c :: u64) = (of_nat ?c :: u32)" by (rule ucast_frame_index(2)) (use c in simp)
  have z: "(of_nat ?c :: u32) \<noteq> 0" using c by (subst of_nat_word_eq_0) simp_all
  have "scast (of_nat ?c :: u32) = (of_nat ?c :: u64)" by (rule scast_of_nat32[OF c(2)])
  then have "hash key (of_nat ?c) = Inr (key mod of_nat ?c)" using z by (simp add: hash_def)
  moreover have "key mod of_nat ?c = of_nat (unat key mod ?c)"
    using cap_word[OF assms] c by (simp add: word_unat_eq_iff unat_mod unat_of_nat mod_mod_small)
  ultimately show ?thesis using u by (simp add: hash_buf_def ld_header[OF assms] probe_def)
qed

lemma hash_next:
  assumes "ht_ok ht s" "i < ht_cap ht s"
  shows "next_hash (of_nat i) (of_nat (ht_cap ht s)) = Inr (of_nat ((i + 1) mod ht_cap ht s))"
proof -
  let ?c = "ht_cap ht s"
  have c: "0 < ?c" "?c < 2 ^ 31" using assms by (auto simp: ht_ok_def)
  then have z: "(of_nat ?c :: u64) \<noteq> 0" using cap_word[OF assms(1)] by (metis unsigned_0 less_irrefl)
  have "unat (of_nat i + 1 :: u64) = i + 1" using assms(2) c by (simp add: unat_word_ariths(1) unat_of_nat)
  then have "(of_nat i + 1) mod of_nat ?c = (of_nat ((i + 1) mod ?c) :: u64)"
    using cap_word[OF assms(1)] c by (simp add: word_unat_eq_iff unat_mod unat_of_nat mod_mod_small)
  with z show ?thesis by (simp add: next_hash_def)
qed

lemma probe_Suc: "(probe ht s key k + 1) mod ht_cap ht s = probe ht s key (Suc k)"
  by (simp add: probe_def mod_Suc_eq)

subsection \<open>Probing\<close>

lemma ht_find_step:
  assumes "ht_ok ht s" "i < ht_cap ht s"
  shows "ht_find ht key (of_nat i) s =
    (if bst ht s i = FULL \<and> bkey ht s i = key then Some (Inr (Some (of_nat i)))
     else if bst ht s i = EMPTY then Some (Inr None)
     else ht_find ht key (of_nat ((i + 1) mod ht_cap ht s)) s)"
  by (subst ht_find.simps)
    (simp add: ld_header[OF assms(1)] ld_slot[OF assms] hash_next[OF assms, simplified])

lemma free_slot_step:
  assumes "ht_ok ht s" "i < ht_cap ht s"
  shows "free_slot (ht_base ht s) (of_nat (ht_cap ht s)) (of_nat i) s =
    (if bst ht s i = FULL
     then free_slot (ht_base ht s) (of_nat (ht_cap ht s)) (of_nat ((i + 1) mod ht_cap ht s)) s
     else Some (Inr (of_nat i)))"
  by (subst free_slot.simps)
    (simp add: ld_slot[OF assms] hash_next[OF assms, simplified])

lemma ht_find_skip:
  assumes "ht_ok ht s"
    "\<And>j. j < k \<Longrightarrow> bst ht s (probe ht s key j) \<noteq> EMPTY \<and>
      \<not> (bst ht s (probe ht s key j) = FULL \<and> bkey ht s (probe ht s key j) = key)"
  shows "ht_find ht key (of_nat (probe ht s key 0)) s = ht_find ht key (of_nat (probe ht s key k)) s"
  using assms(2)
proof (induction k)
  case (Suc k)
  have "ht_find ht key (of_nat (probe ht s key k)) s = ht_find ht key (of_nat (probe ht s key (Suc k))) s"
    using ht_find_step[OF assms(1) probe_bound[OF assms(1)], of key key k] Suc.prems[of k]
    by (simp add: probe_Suc[simplified])
  with Suc show ?case by simp
qed simp

lemma free_slot_skip:
  assumes "ht_ok ht s" "\<And>j. j < k \<Longrightarrow> bst ht s (probe ht s key j) = FULL"
  shows "free_slot (ht_base ht s) (of_nat (ht_cap ht s)) (of_nat (probe ht s key 0)) s =
    free_slot (ht_base ht s) (of_nat (ht_cap ht s)) (of_nat (probe ht s key k)) s"
  using assms(2)
proof (induction k)
  case (Suc k)
  have "free_slot (ht_base ht s) (of_nat (ht_cap ht s)) (of_nat (probe ht s key k)) s =
      free_slot (ht_base ht s) (of_nat (ht_cap ht s)) (of_nat (probe ht s key (Suc k))) s"
    using free_slot_step[OF assms(1) probe_bound[OF assms(1)], of key k] Suc.prems[of k]
    by (simp add: probe_Suc[simplified])
  with Suc show ?case by simp
qed simp

text \<open>Every bucket is on the probe sequence of every key.\<close>

lemma probe_reaches:
  assumes "ht_ok ht s" "i < ht_cap ht s"
  obtains k where "k < ht_cap ht s" "probe ht s key k = i"
proof -
  let ?c = "ht_cap ht s" and ?h = "unat key mod ht_cap ht s"
  have h: "?h < ?c" using assms(2) by simp
  show ?thesis
  proof (cases "?h \<le> i")
    case True
    then show ?thesis using that[of "i - ?h"] assms(2) by (simp add: probe_def)
  next
    case False
    then have "?h + (i + ?c - ?h) = i + ?c" using h by simp
    then show ?thesis using that[of "i + ?c - ?h"] False assms(2) h by (simp add: probe_def)
  qed
qed

lemma probe_inj:
  assumes "probe ht s key j = probe ht s key k" "j < ht_cap ht s" "k < ht_cap ht s"
  shows "j = k"
proof -
  have "j mod ht_cap ht s = k mod ht_cap ht s"
    using assms(1) unfolding probe_def nat_mod_eq_iff by (metis add.assoc add_left_cancel)
  with assms(2,3) show ?thesis by simp
qed

subsection \<open>The invariant and the map a table stands for\<close>

definition ht_full :: "u64 \<Rightarrow> kheap \<Rightarrow> nat set" where
  "ht_full ht s = {i. i < ht_cap ht s \<and> bst ht s i = FULL}"

definition ht_empty :: "u64 \<Rightarrow> kheap \<Rightarrow> nat set" where
  "ht_empty ht s = {i. i < ht_cap ht s \<and> bst ht s i = EMPTY}"

definition reached :: "u64 \<Rightarrow> kheap \<Rightarrow> nat \<Rightarrow> bool" where
  "reached ht s i \<longleftrightarrow> (\<exists>d < ht_cap ht s. probe ht s (bkey ht s i) d = i \<and>
     (\<forall>k<d. bst ht s (probe ht s (bkey ht s i) k) \<noteq> EMPTY))"

definition ht_inv :: "u64 \<Rightarrow> kheap \<Rightarrow> bool" where
  "ht_inv ht s \<longleftrightarrow> ht_ok ht s \<and> (\<forall>i \<in> ht_full ht s. reached ht s i) \<and>
     inj_on (bkey ht s) (ht_full ht s) \<and> ht_size ht s = of_nat (card (ht_full ht s)) \<and>
     ht_empty ht s \<noteq> {}"

definition ht_abs :: "u64 \<Rightarrow> kheap \<Rightarrow> u64 \<Rightarrow> u64 option" where
  "ht_abs ht s key = map_option (bval ht s)
     (find (\<lambda>i. bst ht s i = FULL \<and> bkey ht s i = key) [0..<ht_cap ht s])"

lemma ht_abs_Some:
  assumes "ht_inv ht s"
  shows "ht_abs ht s key = Some v \<longleftrightarrow> (\<exists>i \<in> ht_full ht s. bkey ht s i = key \<and> bval ht s i = v)"
proof
  assume "ht_abs ht s key = Some v"
  then show "\<exists>i \<in> ht_full ht s. bkey ht s i = key \<and> bval ht s i = v"
    by (auto simp: ht_abs_def find_Some_iff ht_full_def)
next
  assume "\<exists>i \<in> ht_full ht s. bkey ht s i = key \<and> bval ht s i = v"
  then obtain i where i: "i \<in> ht_full ht s" "bkey ht s i = key" "bval ht s i = v" by blast
  obtain j where j: "find (\<lambda>i. bst ht s i = FULL \<and> bkey ht s i = key) [0..<ht_cap ht s] = Some j"
    using i by (cases "find (\<lambda>i. bst ht s i = FULL \<and> bkey ht s i = key) [0..<ht_cap ht s]")
      (auto simp: find_None_iff ht_full_def)
  then have "j \<in> ht_full ht s" "bkey ht s j = key" by (auto simp: find_Some_iff ht_full_def)
  then have "j = i" using assms i by (metis ht_inv_def inj_onD)
  then show "ht_abs ht s key = Some v" using j i by (simp add: ht_abs_def)
qed

lemma ht_abs_None: "ht_abs ht s key = None \<longleftrightarrow> (\<forall>i \<in> ht_full ht s. bkey ht s i \<noteq> key)"
  by (auto simp: ht_abs_def find_None_iff ht_full_def)

lemma ht_find_ok:
  assumes inv: "ht_inv ht s"
  shows "(\<exists>i \<in> ht_full ht s. bkey ht s i = key \<and>
      ht_find ht key (of_nat (probe ht s key 0)) s = Some (Inr (Some (of_nat i)))) \<or>
    (ht_abs ht s key = None \<and> ht_find ht key (of_nat (probe ht s key 0)) s = Some (Inr None))"
proof (cases "ht_abs ht s key")
  case (Some v)
  have ok: "ht_ok ht s" using inv by (simp add: ht_inv_def)
  obtain i where i: "i \<in> ht_full ht s" "bkey ht s i = key" using Some ht_abs_Some[OF inv] by blast
  obtain d where d: "d < ht_cap ht s" "probe ht s key d = i"
    "\<And>k. k < d \<Longrightarrow> bst ht s (probe ht s key k) \<noteq> EMPTY"
    using inv i unfolding ht_inv_def reached_def by blast
  have inj: "inj_on (bkey ht s) (ht_full ht s)" using inv unfolding ht_inv_def by blast
  have skip: "\<not> (bst ht s (probe ht s key k) = FULL \<and> bkey ht s (probe ht s key k) = key)" if "k < d" for k
  proof
    assume hit: "bst ht s (probe ht s key k) = FULL \<and> bkey ht s (probe ht s key k) = key"
    then have "probe ht s key k \<in> ht_full ht s" using probe_bound[OF ok] by (simp add: ht_full_def)
    from inj_onD[OF inj _ this i(1)] have "probe ht s key k = i" using hit i(2) by blast
    then show False using probe_inj[of ht s key k d] d(1,2) that by simp
  qed
  have "ht_find ht key (of_nat (probe ht s key 0)) s = ht_find ht key (of_nat i) s"
    using ht_find_skip[OF ok, of d key] d skip by simp
  also have "\<dots> = Some (Inr (Some (of_nat i)))"
    using ht_find_step[OF ok, of i key] i by (simp add: ht_full_def)
  finally show ?thesis using i by blast
next
  case None
  have ok: "ht_ok ht s" using inv by (simp add: ht_inv_def)
  obtain e where e: "e \<in> ht_empty ht s" using inv by (auto simp: ht_inv_def)
  obtain k where k: "probe ht s key k = e" using probe_reaches[OF ok, of e key] e by (auto simp: ht_empty_def)
  define d where "d = (LEAST d. bst ht s (probe ht s key d) = EMPTY)"
  have "bst ht s (probe ht s key k) = EMPTY" using k e by (simp add: ht_empty_def)
  then have d: "bst ht s (probe ht s key d) = EMPTY" unfolding d_def by (rule LeastI)
  have "bst ht s (probe ht s key j) \<noteq> EMPTY" if "j < d" for j using that not_less_Least unfolding d_def by blast
  moreover have "\<not> (bst ht s (probe ht s key j) = FULL \<and> bkey ht s (probe ht s key j) = key)" for j
    using None probe_bound[OF ok] unfolding ht_abs_None ht_full_def by blast
  ultimately have "ht_find ht key (of_nat (probe ht s key 0)) s = ht_find ht key (of_nat (probe ht s key d)) s"
    using ht_find_skip[OF ok, of d key] by blast
  also have "\<dots> = Some (Inr None)" using ht_find_step[OF ok probe_bound[OF ok], of key key d] d by simp
  finally show ?thesis using None by blast
qed

lemma ht_get_ok:
  assumes inv: "ht_inv ht s"
  shows "ht_get ht key s = Some (Inr (case ht_abs ht s key of None \<Rightarrow> 0 | Some v \<Rightarrow> v))"
proof -
  have ok: "ht_ok ht s" using inv by (simp add: ht_inv_def)
  from ht_find_ok[OF inv, of key] show ?thesis
  proof
    assume "\<exists>i \<in> ht_full ht s. bkey ht s i = key \<and>
      ht_find ht key (of_nat (probe ht s key 0)) s = Some (Inr (Some (of_nat i)))"
    then obtain i where i: "i \<in> ht_full ht s" "bkey ht s i = key"
      "ht_find ht key (of_nat (probe ht s key 0)) s = Some (Inr (Some (of_nat i)))" by blast
    then have "ht_abs ht s key = Some (bval ht s i)" using ht_abs_Some[OF inv] by blast
    then show ?thesis using i ld_slot(3)[OF ok, of i]
      by (simp add: ht_get_def hash_home[OF ok] ld_header[OF ok] ht_full_def)
  qed (simp add: ht_get_def hash_home[OF ok])
qed

subsection \<open>Stores into the table\<close>

lemma slot_range:
  assumes "ht_ok ht s" "i < ht_cap ht s" "k + n \<le> 24" "0 < n"
  shows "unat (slot_addr ht s i k) + n \<le> unat (ht_base ht s) + 24 * ht_cap ht s"
    "unat (slot_addr ht s i k) + n \<le> 2 ^ 64" "unat (ht_base ht s) \<le> unat (slot_addr ht s i k)"
    "\<not> slot_addr ht s i k < 4096"
proof -
  have u: "unat (slot_addr ht s i k) = unat (ht_base ht s) + 24 * i + k"
    using slot_addr_nat[OF assms(1,2), of k] assms(3,4) by simp
  have "24 * i + 24 \<le> 24 * ht_cap ht s" using assms(2) by linarith
  then show r: "unat (slot_addr ht s i k) + n \<le> unat (ht_base ht s) + 24 * ht_cap ht s" using u assms(3) by linarith
  have b: "unat (ht_base ht s) + 24 * ht_cap ht s \<le> 2 ^ 64" "4096 \<le> unat (ht_base ht s)"
    using assms(1) by (simp_all add: ht_ok_def)
  show "unat (slot_addr ht s i k) + n \<le> 2 ^ 64" using r b(1) by linarith
  show "unat (ht_base ht s) \<le> unat (slot_addr ht s i k)" using u by linarith
  show "\<not> slot_addr ht s i k < 4096" using u b(2) by (simp add: word_less_nat_alt)
qed

lemma slot_apart:
  assumes ok: "ht_ok ht s" and i: "i < ht_cap ht s" "k + n \<le> 24" "0 < n"
    and j: "j < ht_cap ht s" "l + m \<le> 24" "0 < m" and ne: "i \<noteq> j \<or> k + n \<le> l \<or> l + m \<le> k"
  shows "apart (slot_addr ht s i k) n (slot_addr ht s j l) m"
proof (rule apart_nat)
  have u: "unat (slot_addr ht s i k) = unat (ht_base ht s) + 24 * i + k"
    "unat (slot_addr ht s j l) = unat (ht_base ht s) + 24 * j + l"
    using slot_addr_nat[OF ok i(1), of k] slot_addr_nat[OF ok j(1), of l] i j by simp_all
  have "24 * i + 24 \<le> 24 * j \<or> 24 * j + 24 \<le> 24 * i \<or> i = j" by linarith
  then show "unat (slot_addr ht s i k) + n \<le> unat (slot_addr ht s j l) \<or>
    unat (slot_addr ht s j l) + m \<le> unat (slot_addr ht s i k)" unfolding u using ne i(2) j(2) by linarith
qed (use slot_range[OF ok i] slot_range[OF ok j] i j in simp_all)

lemma header_apart:
  assumes ok: "ht_ok ht s" and i: "i < ht_cap ht s" "k + n \<le> 24" "0 < n"
  shows "apart ht 8 (slot_addr ht s i k) n" "apart (ht + 8) 8 (slot_addr ht s i k) n"
    "apart (ht + 16) 8 (slot_addr ht s i k) n"
proof -
  note r = slot_range[OF ok i] and h = header_nat[OF ok]
  have o: "unat ht + 24 \<le> 2 ^ 64"
    "unat ht + 24 \<le> unat (ht_base ht s) \<or> unat (ht_base ht s) + 24 * ht_cap ht s \<le> unat ht"
    using ok by (simp_all add: ht_ok_def)
  show "apart ht 8 (slot_addr ht s i k) n" by (rule apart_nat) (use r o i in auto)
  show "apart (ht + 8) 8 (slot_addr ht s i k) n" by (rule apart_nat) (use r o i h in auto)
  show "apart (ht + 16) 8 (slot_addr ht s i k) n" by (rule apart_nat) (use r o i h in auto)
qed

lemma store_slot:
  fixes w :: "'a::len word"
  assumes ok: "ht_ok ht s" and j: "j < ht_cap ht s" "l + m \<le> 24" "0 < m"
  defines "t \<equiv> s\<lparr>kmem := wr m (slot_addr ht s j l) w (kmem s)\<rparr>"
  shows "ht_base ht t = ht_base ht s" "ht_size ht t = ht_size ht s" "ht_cap ht t = ht_cap ht s"
    "slot_addr ht t = slot_addr ht s" "ht_ok ht t"
    "\<And>i k n. i < ht_cap ht s \<Longrightarrow> k + n \<le> 24 \<Longrightarrow> 0 < n \<Longrightarrow> i \<noteq> j \<or> k + n \<le> l \<or> l + m \<le> k \<Longrightarrow>
      rd n (kmem t) (slot_addr ht s i k) = rd n (kmem s) (slot_addr ht s i k)"
proof -
  note h = header_apart[OF ok j]
  have "rd64 (kmem t) ht = rd64 (kmem s) ht" "rd64 (kmem t) (ht + 8) = rd64 (kmem s) (ht + 8)"
    "rd64 (kmem t) (ht + 16) = rd64 (kmem s) (ht + 16)"
    unfolding t_def using h by (simp_all add: rd_wr_apart)
  then show e: "ht_base ht t = ht_base ht s" "ht_size ht t = ht_size ht s" "ht_cap ht t = ht_cap ht s"
    by (simp_all add: ht_base_def ht_size_def ht_cap_def)
  show "slot_addr ht t = slot_addr ht s" by (simp add: fun_eq_iff slot_addr_def e)
  show "ht_ok ht t" using ok by (simp add: ht_ok_def e)
  show "rd n (kmem t) (slot_addr ht s i k) = rd n (kmem s) (slot_addr ht s i k)"
    if "i < ht_cap ht s" "k + n \<le> 24" "0 < n" "i \<noteq> j \<or> k + n \<le> l \<or> l + m \<le> k" for i k n
    using rd_wr_apart[OF slot_apart[OF ok that(1-3) j that(4)]] by (simp add: t_def)
qed

lemma store_size:
  fixes w :: u64
  assumes ok: "ht_ok ht s"
  defines "t \<equiv> s\<lparr>kmem := wr64 (ht + 8) w (kmem s)\<rparr>"
  shows "st64 (ht + 8) w s = Inr t" "ht_base ht t = ht_base ht s" "ht_size ht t = w" "ht_cap ht t = ht_cap ht s"
    "slot_addr ht t = slot_addr ht s" "ht_ok ht t"
    "\<And>i. i < ht_cap ht s \<Longrightarrow> bst ht t i = bst ht s i \<and> bkey ht t i = bkey ht s i \<and> bval ht t i = bval ht s i"
proof -
  have h: "4096 \<le> unat ht" "unat ht + 24 \<le> 2 ^ 64" using ok by (simp_all add: ht_ok_def)
  have a: "apart ht 8 (ht + 8) 8" "apart (ht + 16) 8 (ht + 8) 8"
    by (rule apart_nat; use h header_nat[OF ok] in simp)+
  have "rd64 (kmem t) ht = rd64 (kmem s) ht" "rd64 (kmem t) (ht + 16) = rd64 (kmem s) (ht + 16)"
    unfolding t_def using a by (simp_all add: rd_wr_apart)
  then show e: "ht_base ht t = ht_base ht s" "ht_size ht t = w" "ht_cap ht t = ht_cap ht s"
    by (simp_all add: ht_base_def ht_size_def ht_cap_def) (simp add: t_def)
  show sa: "slot_addr ht t = slot_addr ht s" by (simp add: fun_eq_iff slot_addr_def e)
  show "ht_ok ht t" using ok by (simp add: ht_ok_def e)
  show "st64 (ht + 8) w s = Inr t" using h header_nat[OF ok] by (simp add: st64_def t_def word_less_nat_alt)
  fix i assume i: "i < ht_cap ht s"
  have r: "rd n (kmem t) (slot_addr ht s i k) = rd n (kmem s) (slot_addr ht s i k)" if "k + n \<le> 24" "0 < n" for k n
    using rd_wr_apart[of "slot_addr ht s i k" n "ht + 8" 8] header_apart(2)[OF ok i that] by (simp add: t_def apart_sym)
  show "bst ht t i = bst ht s i \<and> bkey ht t i = bkey ht s i \<and> bval ht t i = bval ht s i"
    by (simp add: bst_def bkey_def bval_def sa r)
qed

lemma hash_state_roundtrip [simp]: "hash_state_of (hash_state_to st) = st"
  by (cases st) simp_all

lemma put_bucket_ok:
  assumes ok: "ht_ok ht s" and j: "j < ht_cap ht s"
  shows "\<exists>t. put_bucket (ht_base ht s) (of_nat j) val key st s = Inr t \<and> ht_ok ht t \<and>
    ht_base ht t = ht_base ht s \<and> ht_size ht t = ht_size ht s \<and> ht_cap ht t = ht_cap ht s \<and>
    kpager t = kpager s \<and> caches t = caches s \<and>
    (\<forall>i < ht_cap ht s. bst ht t i = (if i = j then st else bst ht s i) \<and>
       bkey ht t i = (if i = j then key else bkey ht s i) \<and> bval ht t i = (if i = j then val else bval ht s i))"
proof -
  let ?s1 = "s\<lparr>kmem := wr32 (slot_addr ht s j 16) (hash_state_to st) (kmem s)\<rparr>"
  let ?s2 = "?s1\<lparr>kmem := wr64 (slot_addr ht s j 0) val (kmem ?s1)\<rparr>"
  let ?s3 = "?s2\<lparr>kmem := wr64 (slot_addr ht s j 8) key (kmem ?s2)\<rparr>"
  have f: "16 + 4 \<le> (24::nat)" "0 + 8 \<le> (24::nat)" "8 + 8 \<le> (24::nat)" "(0::nat) < 4" "(0::nat) < 8" by simp_all
  note a1 = store_slot[OF ok j f(1,4), where w = "hash_state_to st"]
  have j1: "j < ht_cap ht ?s1" using j unfolding a1(3) .
  note a2 = store_slot[OF a1(5) j1 f(2,5), where w = val, unfolded a1(1-4)]
  have j2: "j < ht_cap ht ?s2" using j unfolding a2(3) .
  note a3 = store_slot[OF a2(5) j2 f(3,5), where w = key, unfolded a2(1-4)]
  have run: "put_bucket (ht_base ht s) (of_nat j) val key st s = Inr ?s3"
    unfolding put_bucket_def unfolding slot_addr_word(2,3) unfolding slot_addr_word(1)
    using slot_range(4)[OF ok j f(1,4)] slot_range(4)[OF ok j f(2,5)] slot_range(4)[OF ok j f(3,5)]
    by (simp add: st32_def st64_def)
  have view: "bst ht ?s3 i = (if i = j then st else bst ht s i) \<and>
       bkey ht ?s3 i = (if i = j then key else bkey ht s i) \<and> bval ht ?s3 i = (if i = j then val else bval ht s i)"
    if i: "i < ht_cap ht s" for i
  proof -
    have st16: "rd32 (kmem ?s3) (slot_addr ht s i 16) = rd32 (kmem ?s2) (slot_addr ht s i 16)"
      "rd32 (kmem ?s2) (slot_addr ht s i 16) = rd32 (kmem ?s1) (slot_addr ht s i 16)"
      "i \<noteq> j \<Longrightarrow> rd32 (kmem ?s1) (slot_addr ht s i 16) = rd32 (kmem s) (slot_addr ht s i 16)"
      by (rule a3(6)[OF i f(1,4)] a2(6)[OF i f(1,4)] a1(6)[OF i f(1,4)]; simp)+
    have st0: "rd64 (kmem ?s3) (slot_addr ht s i 0) = rd64 (kmem ?s2) (slot_addr ht s i 0)"
      "i \<noteq> j \<Longrightarrow> rd64 (kmem ?s2) (slot_addr ht s i 0) = rd64 (kmem ?s1) (slot_addr ht s i 0)"
      "rd64 (kmem ?s1) (slot_addr ht s i 0) = rd64 (kmem s) (slot_addr ht s i 0)"
      by (rule a3(6)[OF i f(2,5)] a2(6)[OF i f(2,5)] a1(6)[OF i f(2,5)]; simp)+
    have st8: "i \<noteq> j \<Longrightarrow> rd64 (kmem ?s3) (slot_addr ht s i 8) = rd64 (kmem ?s2) (slot_addr ht s i 8)"
      "rd64 (kmem ?s2) (slot_addr ht s i 8) = rd64 (kmem ?s1) (slot_addr ht s i 8)"
      "rd64 (kmem ?s1) (slot_addr ht s i 8) = rd64 (kmem s) (slot_addr ht s i 8)"
      by (rule a3(6)[OF i f(3,5)] a2(6)[OF i f(3,5)] a1(6)[OF i f(3,5)]; simp)+
    have "rd32 (kmem ?s3) (slot_addr ht s i 16) = (if i = j then hash_state_to st else rd32 (kmem s) (slot_addr ht s i 16))"
    proof (cases "i = j")
      case True
      have "rd32 (kmem ?s1) (slot_addr ht s j 16) = hash_state_to st" by simp
      then show ?thesis using True st16(1,2) by metis
    qed (use st16 in metis)
    moreover have "rd64 (kmem ?s3) (slot_addr ht s i 8) = (if i = j then key else rd64 (kmem s) (slot_addr ht s i 8))"
    proof (cases "i = j")
      case False
      then show ?thesis using st8 by metis
    qed simp
    moreover have "rd64 (kmem ?s3) (slot_addr ht s i 0) = (if i = j then val else rd64 (kmem s) (slot_addr ht s i 0))"
    proof (cases "i = j")
      case True
      have "rd64 (kmem ?s2) (slot_addr ht s j 0) = val" by simp
      then show ?thesis using True st0(1) by metis
    qed (use st0 in metis)
    ultimately show ?thesis unfolding bst_def bkey_def bval_def a3(4) by (simp del: hash_state_of.simps)
  qed
  show ?thesis using run a3(1-3,5) view by (intro exI[of _ ?s3]) simp
qed

subsection \<open>Insertion and removal\<close>

text \<open>How the invariant follows for a table in which one bucket has changed.\<close>

lemma probe_cong: "ht_cap ht t = ht_cap ht s \<Longrightarrow> probe ht t = probe ht s"
  by (simp add: probe_def fun_eq_iff)

lemma free_slot_ok:
  assumes inv: "ht_inv ht s"
  obtains d where "d < ht_cap ht s" "bst ht s (probe ht s key d) \<noteq> FULL" "\<And>k. k < d \<Longrightarrow> bst ht s (probe ht s key k) = FULL"
    "free_slot (ht_base ht s) (of_nat (ht_cap ht s)) (of_nat (probe ht s key 0)) s =
       Some (Inr (of_nat (probe ht s key d)))"
proof -
  have ok: "ht_ok ht s" using inv by (simp add: ht_inv_def)
  obtain e where e: "e \<in> ht_empty ht s" using inv by (auto simp: ht_inv_def)
  obtain k where k: "k < ht_cap ht s" "probe ht s key k = e"
    using probe_reaches[OF ok, of e key] e by (auto simp: ht_empty_def)
  let ?P = "\<lambda>d. bst ht s (probe ht s key d) \<noteq> FULL"
  define d where "d = (LEAST d. ?P d)"
  have pk: "?P k" using k e by (simp add: ht_empty_def)
  then have d: "?P d" unfolding d_def by (rule LeastI)
  have dk: "d \<le> k" unfolding d_def using pk by (rule Least_le)
  have before: "bst ht s (probe ht s key j) = FULL" if "j < d" for j using that not_less_Least unfolding d_def by blast
  have "free_slot (ht_base ht s) (of_nat (ht_cap ht s)) (of_nat (probe ht s key 0)) s =
      free_slot (ht_base ht s) (of_nat (ht_cap ht s)) (of_nat (probe ht s key d)) s"
    using free_slot_skip[OF ok before] .
  also have "\<dots> = Some (Inr (of_nat (probe ht s key d)))"
    using free_slot_step[OF ok probe_bound[OF ok], of key d] d by simp
  finally show ?thesis using that[of d] dk k(1) d before by simp
qed

definition one_slot :: "u64 \<Rightarrow> kheap \<Rightarrow> nat \<Rightarrow> hash_state \<Rightarrow> u64 \<Rightarrow> u64 \<Rightarrow> kheap \<Rightarrow> bool" where
  "one_slot ht s j st key val t \<longleftrightarrow> ht_ok ht t \<and> ht_cap ht t = ht_cap ht s \<and>
     (\<forall>i < ht_cap ht s. bst ht t i = (if i = j then st else bst ht s i) \<and>
       bkey ht t i = (if i = j then key else bkey ht s i) \<and> bval ht t i = (if i = j then val else bval ht s i))"

lemma reached_keep:
  assumes t: "one_slot ht s j st key val t" and st: "st \<noteq> EMPTY"
    and i: "i < ht_cap ht s" "i \<noteq> j" "reached ht s i" and ok: "ht_ok ht s"
  shows "reached ht t i"
proof -
  have c: "ht_cap ht t = ht_cap ht s" and v: "\<And>i. i < ht_cap ht s \<Longrightarrow> bst ht t i = (if i = j then st else bst ht s i)"
    and k: "bkey ht t i = bkey ht s i" using t i by (auto simp: one_slot_def)
  obtain d where d: "d < ht_cap ht s" "probe ht s (bkey ht s i) d = i"
    "\<And>k. k < d \<Longrightarrow> bst ht s (probe ht s (bkey ht s i) k) \<noteq> EMPTY" using i(3) by (auto simp: reached_def)
  have "bst ht t (probe ht s (bkey ht s i) k) \<noteq> EMPTY" if "k < d" for k
    using v[OF probe_bound[OF ok]] d(3)[OF that] st by simp
  then show ?thesis using d(1,2) unfolding reached_def k probe_cong[OF c] c by blast
qed

lemma insert_inv:
  assumes inv: "ht_inv ht s" and key: "ht_abs ht s key = None" and room: "2 \<le> card (ht_empty ht s)"
    and d: "d < ht_cap ht s" "bst ht s (probe ht s key d) \<noteq> FULL" "\<And>k. k < d \<Longrightarrow> bst ht s (probe ht s key k) = FULL"
    and t: "one_slot ht s (probe ht s key d) FULL key val t" "ht_size ht t = ht_size ht s + 1"
  shows "ht_inv ht t" "ht_abs ht t = (ht_abs ht s)(key \<mapsto> val)"
proof -
  let ?j = "probe ht s key d"
  have ok: "ht_ok ht s" using inv by (simp add: ht_inv_def)
  have j: "?j < ht_cap ht s" by (rule probe_bound[OF ok])
  have c: "ht_cap ht t = ht_cap ht s" "ht_ok ht t" using t(1) by (auto simp: one_slot_def)
  have v: "bst ht t i = (if i = ?j then FULL else bst ht s i)" "bkey ht t i = (if i = ?j then key else bkey ht s i)"
    "bval ht t i = (if i = ?j then val else bval ht s i)" if "i < ht_cap ht s" for i
    using t(1) that by (auto simp: one_slot_def)
  have full: "ht_full ht t = insert ?j (ht_full ht s)" using v(1) j c by (auto simp: ht_full_def)
  have nj: "?j \<notin> ht_full ht s" using d(2) by (simp add: ht_full_def)
  have fin: "finite (ht_full ht s)" by (simp add: ht_full_def)
  have "reached ht t ?j"
  proof -
    have "bst ht t (probe ht s key k) \<noteq> EMPTY" if "k < d" for k
      using v(1)[OF probe_bound[OF ok, of key k]] d(3)[OF that] by simp
    then show ?thesis using d(1) v(2)[OF j] unfolding reached_def probe_cong[OF c(1)] c(1) by auto
  qed
  moreover have "reached ht t i" if "i \<in> ht_full ht s" for i
    using reached_keep[OF t(1) _ _ _ _ ok, of i] that nj inv by (auto simp: ht_inv_def ht_full_def)
  moreover have "inj_on (bkey ht t) (ht_full ht t)"
  proof -
    have "inj_on (bkey ht t) (ht_full ht s) = inj_on (bkey ht s) (ht_full ht s)"
      by (rule inj_on_cong) (use v(2) nj in \<open>auto simp: ht_full_def\<close>)
    moreover have "bkey ht t ?j \<notin> bkey ht t ` (ht_full ht s - {?j})"
      using key v(2) j nj unfolding ht_abs_None by (auto simp: ht_full_def)
    ultimately show ?thesis using inv full by (simp add: ht_inv_def)
  qed
  moreover have "ht_size ht t = of_nat (card (ht_full ht t))"
    using t(2) inv full nj fin by (simp add: ht_inv_def)
  moreover have "ht_empty ht t \<noteq> {}"
  proof -
    have "ht_empty ht t = ht_empty ht s - {?j}" unfolding ht_empty_def c(1) by (rule set_eqI) (use v(1) in \<open>auto split: if_splits\<close>)
    moreover have "card (ht_empty ht s - {?j}) \<ge> 1"
      using room card_Diff1_le[of "ht_empty ht s" ?j] by (cases "?j \<in> ht_empty ht s") simp_all
    ultimately show ?thesis by (metis card.empty not_one_le_zero)
  qed
  ultimately show it: "ht_inv ht t" using c(2) full by (auto simp: ht_inv_def)
  show "ht_abs ht t = (ht_abs ht s)(key \<mapsto> val)"
  proof
    fix x
    show "ht_abs ht t x = ((ht_abs ht s)(key \<mapsto> val)) x"
    proof (cases "x = key")
      case True
      have "ht_abs ht t key = Some val" using ht_abs_Some[OF it] full v[OF j] by auto
      with True show ?thesis by simp
    next
      case False
      have keep: "bkey ht t i = bkey ht s i" "bval ht t i = bval ht s i" if "i \<in> ht_full ht s" for i
        using v(2,3)[of i] that nj by (auto simp: ht_full_def)
      have "ht_abs ht t x = Some y \<longleftrightarrow> ht_abs ht s x = Some y" for y
        unfolding ht_abs_Some[OF it] ht_abs_Some[OF inv] full using False v(2)[OF j] keep by auto
      then have "ht_abs ht t x = ht_abs ht s x" by (metis not_None_eq)
      with False show ?thesis by simp
    qed
  qed
qed

lemma erase_inv:
  assumes inv: "ht_inv ht s" and i: "i \<in> ht_full ht s" "bkey ht s i = key"
    and t: "one_slot ht s i DELETED key (bval ht s i) t" "ht_size ht t = ht_size ht s - 1"
  shows "ht_inv ht t" "ht_abs ht t = (ht_abs ht s)(key := None)"
proof -
  have ok: "ht_ok ht s" and inj: "inj_on (bkey ht s) (ht_full ht s)" using inv by (simp_all add: ht_inv_def)
  have c: "ht_cap ht t = ht_cap ht s" "ht_ok ht t" using t(1) by (auto simp: one_slot_def)
  have v: "bst ht t j = (if j = i then DELETED else bst ht s j)" "bkey ht t j = bkey ht s j" "bval ht t j = bval ht s j"
    if "j < ht_cap ht s" for j using t(1) that i by (auto simp: one_slot_def)
  have full: "ht_full ht t = ht_full ht s - {i}"
    unfolding ht_full_def c(1) by (rule set_eqI) (use v(1) in \<open>auto split: if_splits\<close>)
  have empty: "ht_empty ht t = ht_empty ht s"
    unfolding ht_empty_def c(1) by (rule set_eqI) (use v(1) i in \<open>auto simp: ht_full_def split: if_splits\<close>)
  have fin: "finite (ht_full ht s)" by (simp add: ht_full_def)
  have sub: "j < ht_cap ht s" if "j \<in> ht_full ht s" for j using that by (simp add: ht_full_def)
  have "\<forall>j \<in> ht_full ht t. reached ht t j"
    using reached_keep[OF t(1) _ _ _ _ ok] inv unfolding full by (auto simp: ht_inv_def sub)
  moreover have "inj_on (bkey ht t) (ht_full ht t)"
  proof -
    have "inj_on (bkey ht t) (ht_full ht t) = inj_on (bkey ht s) (ht_full ht t)"
      by (rule inj_on_cong) (use v(2) full sub in auto)
    then show ?thesis using inj_on_subset[OF inj, of "ht_full ht t"] full by auto
  qed
  moreover have "ht_size ht t = of_nat (card (ht_full ht t))"
  proof -
    have "card (ht_full ht s) = Suc (card (ht_full ht t))"
      unfolding full using i(1) fin by (metis card_Suc_Diff1)
    then show ?thesis using t(2) inv by (simp add: ht_inv_def)
  qed
  ultimately show it: "ht_inv ht t" using c(2) empty inv by (simp add: ht_inv_def)
  show "ht_abs ht t = (ht_abs ht s)(key := None)"
  proof
    fix x
    show "ht_abs ht t x = ((ht_abs ht s)(key := None)) x"
    proof (cases "x = key")
      case True
      have "ht_abs ht t key = None"
        unfolding ht_abs_None full using inj i v(2) sub by (auto dest: inj_onD)
      with True show ?thesis by simp
    next
      case False
      have "ht_abs ht t x = Some y \<longleftrightarrow> ht_abs ht s x = Some y" for y
        unfolding ht_abs_Some[OF it] ht_abs_Some[OF inv] full using False i v(2,3) sub by auto
      then have "ht_abs ht t x = ht_abs ht s x" by (metis not_None_eq)
      with False show ?thesis by simp
    qed
  qed
qed

text \<open>The table has room: \<open>ht_set\<close> does not try to grow it and an empty bucket stays.\<close>

definition ht_room :: "u64 \<Rightarrow> kheap \<Rightarrow> bool" where
  "ht_room ht s \<longleftrightarrow> 2 * unat (ht_size ht s) \<le> ht_cap ht s \<and> 2 \<le> card (ht_empty ht s)"

lemma ht_set_ok:
  assumes inv: "ht_inv ht s" and room: "ht_room ht s" and key: "ht_abs ht s key = None"
  shows "\<exists>t. ht_set ht key val s = Some (Inr t) \<and> ht_inv ht t \<and> ht_abs ht t = (ht_abs ht s)(key \<mapsto> val)"
proof -
  have ok: "ht_ok ht s" using inv by (simp add: ht_inv_def)
  obtain d where d: "d < ht_cap ht s" "bst ht s (probe ht s key d) \<noteq> FULL" "\<And>k. k < d \<Longrightarrow> bst ht s (probe ht s key k) = FULL"
    "free_slot (ht_base ht s) (of_nat (ht_cap ht s)) (of_nat (probe ht s key 0)) s =
       Some (Inr (of_nat (probe ht s key d)))" using free_slot_ok[OF inv, of key] by blast
  obtain u where u: "put_bucket (ht_base ht s) (of_nat (probe ht s key d)) val key FULL s = Inr u"
    "ht_ok ht u" "ht_size ht u = ht_size ht s" "one_slot ht s (probe ht s key d) FULL key val u"
    using put_bucket_ok[OF ok probe_bound[OF ok], of key d val key FULL] by (auto simp: one_slot_def)
  let ?t = "u\<lparr>kmem := wr64 (ht + 8) (ht_size ht s + 1) (kmem u)\<rparr>"
  note sz = store_size[OF u(2), where w = "ht_size ht s + 1"]
  have "\<not> (of_nat (ht_cap ht s) \<le> ht_size ht s \<or> unat (of_nat (ht_cap ht s) :: u64) < 2 * unat (ht_size ht s))"
    using room ok cap_word[OF ok] by (auto simp: ht_room_def ht_ok_def word_le_nat_alt)
  then have "ht_set ht key val s = Some (Inr ?t)"
    using d(4) u(1,3) sz(1) by (simp add: ht_set_def hash_home[OF ok] ld_header[OF ok] ld_header[OF u(2)])
  moreover have "one_slot ht s (probe ht s key d) FULL key val ?t" "ht_size ht ?t = ht_size ht s + 1"
    using sz u(4) by (auto simp: one_slot_def)
  moreover have "2 \<le> card (ht_empty ht s)" using room by (simp add: ht_room_def)
  ultimately show ?thesis using insert_inv[OF inv key _ d(1-3)] by blast
qed

lemma one_slot_state:
  assumes ok: "ht_ok ht s" and i: "i < ht_cap ht s"
  shows "one_slot ht s i st (bkey ht s i) (bval ht s i) (s\<lparr>kmem := wr32 (slot_addr ht s i 16) (hash_state_to st) (kmem s)\<rparr>)"
    (is "one_slot _ _ _ _ _ _ ?t")
proof -
  have f: "16 + 4 \<le> (24::nat)" "0 + 8 \<le> (24::nat)" "8 + 8 \<le> (24::nat)" "(0::nat) < 4" "(0::nat) < 8" by simp_all
  note a = store_slot[OF ok i f(1,4), where w = "hash_state_to st"]
  have "rd32 (kmem ?t) (slot_addr ht s j 16) = (if j = i then hash_state_to st else rd32 (kmem s) (slot_addr ht s j 16))"
    "rd64 (kmem ?t) (slot_addr ht s j 8) = rd64 (kmem s) (slot_addr ht s j 8)"
    "rd64 (kmem ?t) (slot_addr ht s j 0) = rd64 (kmem s) (slot_addr ht s j 0)"
    if j: "j < ht_cap ht s" for j
  proof -
    show "rd64 (kmem ?t) (slot_addr ht s j 8) = rd64 (kmem s) (slot_addr ht s j 8)"
      by (rule a(6)[OF j f(3,5)]) simp
    show "rd64 (kmem ?t) (slot_addr ht s j 0) = rd64 (kmem s) (slot_addr ht s j 0)"
      by (rule a(6)[OF j f(2,5)]) simp
    show "rd32 (kmem ?t) (slot_addr ht s j 16) = (if j = i then hash_state_to st else rd32 (kmem s) (slot_addr ht s j 16))"
    proof (cases "j = i")
      case False
      then show ?thesis using a(6)[OF j f(1,4), where 'b = 32] by simp
    qed simp
  qed
  then show ?thesis unfolding one_slot_def bst_def bkey_def bval_def a(4)
    using a(3,5) by (simp del: hash_state_of.simps)
qed

lemma ht_erase_ok:
  assumes inv: "ht_inv ht s"
  shows "\<exists>t. ht_erase ht key s = Some (Inr (ht_abs ht s key \<noteq> None, t)) \<and> ht_inv ht t \<and>
    ht_abs ht t = (ht_abs ht s)(key := None)"
proof -
  have ok: "ht_ok ht s" using inv by (simp add: ht_inv_def)
  from ht_find_ok[OF inv, of key] show ?thesis
  proof
    assume "\<exists>i \<in> ht_full ht s. bkey ht s i = key \<and>
      ht_find ht key (of_nat (probe ht s key 0)) s = Some (Inr (Some (of_nat i)))"
    then obtain i where i: "i \<in> ht_full ht s" "bkey ht s i = key"
      "ht_find ht key (of_nat (probe ht s key 0)) s = Some (Inr (Some (of_nat i)))" by blast
    have ic: "i < ht_cap ht s" using i(1) by (simp add: ht_full_def)
    let ?u = "s\<lparr>kmem := wr32 (slot_addr ht s i 16) (hash_state_to DELETED) (kmem s)\<rparr>"
    have u: "one_slot ht s i DELETED key (bval ht s i) ?u" using one_slot_state[OF ok ic, of DELETED] i(2) by simp
    have f: "16 + 4 \<le> (24::nat)" "(0::nat) < 4" by simp_all
    note a = store_slot[OF ok ic f, where w = "hash_state_to DELETED"]
    let ?t = "?u\<lparr>kmem := wr64 (ht + 8) (ht_size ht s - 1) (kmem ?u)\<rparr>"
    note sz = store_size[OF a(5), where w = "ht_size ht s - 1"]
    have run: "st32 (slot_addr ht s i 16) (hash_state_to DELETED) s = Inr ?u"
      using slot_range(4)[OF ok ic f] by (simp add: st32_def)
    have "ht_erase ht key s = Some (Inr (True, ?t))"
      unfolding ht_erase_def hash_home[OF ok] using i(3)
      by (simp add: ld_header(1)[OF ok] slot_addr_word(3) run ld_header[OF a(5)] a(2) sz(1) del: hash_state_to.simps)
    moreover have "one_slot ht s i DELETED key (bval ht s i) ?t" "ht_size ht ?t = ht_size ht s - 1"
      using sz u by (auto simp: one_slot_def)
    moreover have "ht_abs ht s key \<noteq> None" using i(1,2) ht_abs_None by blast
    ultimately show ?thesis using erase_inv[OF inv i(1,2)] by auto
  next
    assume "ht_abs ht s key = None \<and> ht_find ht key (of_nat (probe ht s key 0)) s = Some (Inr None)"
    moreover from this have "(ht_abs ht s)(key := None) = ht_abs ht s" by auto
    ultimately show ?thesis using inv by (simp add: ht_erase_def hash_home[OF ok])
  qed
qed

subsection \<open>The contract of the buffer table\<close>

text \<open>
  What the slab allocator relies on: the table behaves as a finite map from buffer
  addresses to control blocks, a null result standing for an absent key.
\<close>

locale buffer_table =
  fixes lookup :: "u64 \<Rightarrow> 's \<Rightarrow> u64 res option"
    and store :: "u64 \<Rightarrow> u64 \<Rightarrow> 's \<Rightarrow> 's res option"
    and remove :: "u64 \<Rightarrow> 's \<Rightarrow> (bool \<times> 's) res option"
    and inv :: "'s \<Rightarrow> bool" and room :: "'s \<Rightarrow> bool" and abs :: "'s \<Rightarrow> u64 \<Rightarrow> u64 option"
  assumes lookup_law: "inv s \<Longrightarrow> lookup k s = Some (Inr (case abs s k of None \<Rightarrow> 0 | Some v \<Rightarrow> v))"
    and store_law: "inv s \<Longrightarrow> room s \<Longrightarrow> abs s k = None \<Longrightarrow>
      \<exists>t. store k v s = Some (Inr t) \<and> inv t \<and> abs t = (abs s)(k \<mapsto> v)"
    and remove_law: "inv s \<Longrightarrow>
      \<exists>t. remove k s = Some (Inr (abs s k \<noteq> None, t)) \<and> inv t \<and> abs t = (abs s)(k := None)"

context buffer_table begin

lemma store_lookup:
  assumes "inv s" "room s" "abs s k = None"
  shows "\<exists>t. store k v s = Some (Inr t) \<and> inv t \<and> lookup k t = Some (Inr v) \<and>
    (\<forall>x. x \<noteq> k \<longrightarrow> lookup x t = lookup x s)"
  using store_law[OF assms, of v] lookup_law assms(1) by fastforce

lemma store_remove:
  assumes "inv s" "room s" "abs s k = None"
  shows "\<exists>t u. store k v s = Some (Inr t) \<and> remove k t = Some (Inr (True, u)) \<and> inv u \<and>
    (\<forall>x. lookup x u = lookup x s)"
proof -
  obtain t where t: "store k v s = Some (Inr t)" "inv t" "abs t = (abs s)(k \<mapsto> v)"
    using store_law[OF assms] by blast
  obtain u where u: "remove k t = Some (Inr (True, u))" "inv u" "abs u = (abs t)(k := None)"
    using remove_law[OF t(2), of k] t(3) by auto
  have "abs u = abs s" using u(3) t(3) assms(3) by auto
  then have "lookup x u = lookup x s" for x using lookup_law u(2) assms(1) by metis
  with t u show ?thesis by blast
qed

end

interpretation buf2bufctl: buffer_table "ht_get ht" "ht_set ht" "ht_erase ht" "ht_inv ht" "ht_room ht" "ht_abs ht" for ht
  by unfold_locales (use ht_get_ok ht_set_ok ht_erase_ok in blast)+

subsection \<open>A table without an empty bucket\<close>

lemma ht_find_diverges:
  assumes "ht_ok ht s" "ht_empty ht s = {}" "ht_abs ht s key = None" "i < ht_cap ht s"
  shows "ht_find ht key (of_nat i) s = None"
proof -
  let ?P = "\<lambda>ht key h s r. ht_ok ht s \<and> ht_empty ht s = {} \<and> ht_abs ht s key = None \<longrightarrow>
    (\<forall>i < ht_cap ht s. h \<noteq> of_nat i)"
  have "?P ht key h s r" if "ht_find ht key h s = Some r" for h r
  proof (rule ht_find.raw_induct[where P = ?P, OF _ that])
    fix f ht key h s r
    assume IH: "\<And>ht key h s r. f ht key h s = Some r \<Longrightarrow> ?P ht key h s r"
      and eq: "bindX (Some (bindR (ld64 s ht) (\<lambda>b. bindR (bucket_state b h s) (\<lambda>st.
              bindR (if st = FULL then bucket_key b h s else Inr 0) (\<lambda>k. Inr (st, k)))))) (\<lambda>(st, k).
       if st \<noteq> FULL \<or> k \<noteq> key
       then if st = EMPTY then Some (Inr None)
            else bindX (Some (bindR (ld64 s (ht + 16)) (next_hash h))) (\<lambda>h'. f ht key h' s)
       else Some (Inr (Some h))) = Some r"
    show "?P ht key h s r"
    proof (intro impI allI notI)
      fix i assume c: "ht_ok ht s \<and> ht_empty ht s = {} \<and> ht_abs ht s key = None" and i: "i < ht_cap ht s" "h = of_nat i"
      then have ok: "ht_ok ht s" by simp
      have ne: "bst ht s i \<noteq> EMPTY" "\<not> (bst ht s i = FULL \<and> bkey ht s i = key)"
        using c i(1) unfolding ht_abs_None by (auto simp: ht_empty_def ht_full_def)
      have "f ht key (of_nat ((i + 1) mod ht_cap ht s)) s = Some r"
        using eq ne ld_slot[OF ok i(1)] hash_next[OF ok i(1)]
        by (auto simp: i(2) ld_header[OF ok] split: if_splits)
      from IH[OF this] c show False using i(1) by (metis mod_less_divisor gr_implies_not0 neq0_conv)
    qed
  qed
  with assms show ?thesis by (cases "ht_find ht key (of_nat i) s") auto
qed

subsection \<open>Properties of the buffer table\<close>


text \<open>A table of four empty buckets, for the witnesses.\<close>

definition ht_example :: kheap where
  "ht_example = \<lparr>kmem = wr64 0x2010 4 (wr64 0x2000 0x3000 (\<lambda>_. 0)),
     kpager = \<lparr>pg_mem = (\<lambda>_. 0), pml4 = 0, hhdm = 0, cr3 = 0, frames = pfa_boot\<rparr>, cache_cache = 0, caches = [], kconsole = []\<rparr>"

lemma ht_example_empty:
  "ht_cap 0x2000 ht_example = 4" "ht_full 0x2000 ht_example = {}" "ht_empty 0x2000 ht_example = {0..<4}"
proof -
  have "rd64 (kmem ht_example) 0x2010 = 4" "rd64 (kmem ht_example) 0x2000 = 0x3000" by code_simp+
  then show c: "ht_cap 0x2000 ht_example = 4" by (simp add: ht_cap_def)
  have "bst 0x2000 ht_example 0 = EMPTY" "bst 0x2000 ht_example 1 = EMPTY" "bst 0x2000 ht_example 2 = EMPTY"
    "bst 0x2000 ht_example 3 = EMPTY" by code_simp+
  moreover have "i = 0 \<or> i = 1 \<or> i = 2 \<or> i = 3" if "i < 4" for i :: nat using that by auto
  ultimately have e: "bst 0x2000 ht_example i = EMPTY" if "i < 4" for i using that by metis
  then show "ht_full 0x2000 ht_example = {}" "ht_empty 0x2000 ht_example = {0..<4}"
    by (auto simp: ht_full_def ht_empty_def c)
qed

lemma ht_example_inv: "ht_inv 0x2000 ht_example" "ht_room 0x2000 ht_example" "ht_abs 0x2000 ht_example key = None"
proof -
  have b: "ht_base 0x2000 ht_example = 0x3000" "ht_size 0x2000 ht_example = 0" by code_simp+
  have "ht_ok 0x2000 ht_example" by (simp add: ht_ok_def b ht_example_empty)
  then show "ht_inv 0x2000 ht_example" by (simp add: ht_inv_def ht_example_empty b)
  show "ht_room 0x2000 ht_example" by (simp add: ht_room_def ht_example_empty b)
  show "ht_abs 0x2000 ht_example key = None" by (simp add: ht_abs_None ht_example_empty)
qed


text \<open>
  C23. Erasing a key ends, reports whether the key was there, and leaves exactly the other
  keys; erasing what was just inserted restores every lookup.
\<close>

theorem ht_erase_exact:
  assumes "ht_inv ht s"
  shows "(\<exists>t. ht_erase ht key s = Some (Inr (ht_abs ht s key \<noteq> None, t)) \<and> ht_inv ht t \<and>
      ht_abs ht t = (ht_abs ht s)(key := None)) \<and>
    (ht_room ht s \<and> ht_abs ht s key = None \<longrightarrow>
      (\<exists>t u. ht_set ht key val s = Some (Inr t) \<and> ht_erase ht key t = Some (Inr (True, u)) \<and> ht_inv ht u \<and>
        (\<forall>x. ht_get ht x u = ht_get ht x s)))"
  using buf2bufctl.remove_law[OF assms] buf2bufctl.store_remove[OF assms] by blast

theorem ht_erase_exact_witness:
  "\<exists>t u. ht_set 0x2000 0xabcd 0x5555 ht_example = Some (Inr t) \<and> ht_erase 0x2000 0xabcd t = Some (Inr (True, u)) \<and>
    ht_inv 0x2000 u"
  using ht_erase_exact[OF ht_example_inv(1), of "0xabcd" "0x5555"] ht_example_inv(2,3) by blast

text \<open>
  C39. Looking up an absent key in a table that has no empty bucket left, for instance after
  as many insertions and removals as it has buckets, never ends.
\<close>

theorem ht_get_diverges:
  assumes "ht_ok ht s" "ht_empty ht s = {}" "ht_abs ht s key = None"
  shows "ht_get ht key s = None"
  using ht_find_diverges[OF assms probe_bound[OF assms(1)], of key 0]
  by (simp add: ht_get_def hash_home[OF assms(1)])

definition ht_tombstones :: kheap where
  "ht_tombstones = ht_example\<lparr>kmem := wr32 0x3010 1 (wr64 0x2010 1 (kmem ht_example))\<rparr>"

theorem ht_get_diverges_witness: "ht_get 0x2000 7 ht_tombstones = None"
proof -
  have b: "ht_base 0x2000 ht_tombstones = 0x3000" "rd64 (kmem ht_tombstones) 0x2010 = 1"
    "bst 0x2000 ht_tombstones 0 = DELETED" by code_simp+
  then have c: "ht_cap 0x2000 ht_tombstones = 1" by (simp add: ht_cap_def)
  have "ht_ok 0x2000 ht_tombstones" by (simp add: ht_ok_def b c)
  moreover have "ht_empty 0x2000 ht_tombstones = {}" "ht_abs 0x2000 ht_tombstones 7 = None"
    using b(3) by (auto simp: ht_empty_def ht_abs_def c)
  ultimately show ?thesis by (rule ht_get_diverges)
qed

end
