(* ===== verification/Nya_Slab.thy ===== *)
theory Nya_Slab
  imports Nya_Slab_Table
begin

unbundle bit_operations_syntax

section \<open>The slab allocator\<close>

text \<open>
  The rest of \<open>kernel/arch/x86_64/slab.c\<close>. The structures of \<open>slab.h\<close> live in byte memory
  at the offsets of the x86-64 ABI:

  \<^item> \<open>kmem_slab\<close> (48 bytes): \<open>prev\<close> 0, \<open>next\<close> 8, \<open>back\<close> 16, \<open>freelist\<close> 24, \<open>pstart\<close> 32, and the
    32-bit \<open>refs\<close> 40 and \<open>buf_cnt\<close> 44;
  \<^item> \<open>kmem_bufctl\<close> (24 bytes): \<open>buf\<close> 0, \<open>back\<close> 8, \<open>next\<close> 16;
  \<^item> \<open>kmem_cache\<close> (168 bytes): \<open>buf2bufctl\<close> 0, \<open>head\<close> 24, \<open>tail\<close> 32, \<open>fl_ptr\<close> 40, \<open>name\<close> 48,
    \<open>size\<close> 56, \<open>align\<close> 64, \<open>hslab\<close> 72, \<open>tslab\<close> 120.

  \<open>SMALL_OBJ_SIZE\<close> is the double \<open>4096 / 8.0\<close>, so the comparison with the object size is
  that with 512. Every operation may fault and its loops over lists need not end, so the
  results are \<open>res option\<close>.
\<close>

subsection \<open>Fields\<close>

fun stores :: "(u64 \<times> u64) list \<Rightarrow> kheap \<Rightarrow> kheap res" where
  "stores [] s = Inr s"
| "stores ((a, v) # avs) s = bindR (st64 a v s) (stores avs)"

definition slab_full :: "u64 \<Rightarrow> kheap \<Rightarrow> bool res" where
  "slab_full slab s =
     bindR (ld32 s (slab + 40)) (\<lambda>refs. bindR (ld32 s (slab + 44)) (\<lambda>cnt. Inr (refs = cnt)))"

definition add_refs :: "u64 \<Rightarrow> u32 \<Rightarrow> kheap \<Rightarrow> (u32 \<times> kheap) res" where
  "add_refs slab d s =
     bindR (ld32 s (slab + 40)) (\<lambda>r. bindR (st32 (slab + 40) (r + d) s) (\<lambda>s. Inr (r + d, s)))"

subsection \<open>Lists of slabs\<close>

definition insert_slab :: "u64 \<Rightarrow> u64 \<Rightarrow> kheap \<Rightarrow> kheap res" where
  "insert_slab it slab s =
     bindR (ld64 s it) (\<lambda>p.
     bindR (st64 (p + 8) slab s) (\<lambda>s.
     bindR (ld64 s it) (\<lambda>p.
       stores [(slab, p), (it, slab), (slab + 8, it)] s)))"

definition append_slab :: "u64 \<Rightarrow> u64 \<Rightarrow> kheap \<Rightarrow> kheap res" where
  "append_slab cache slab s =
     bindR (ld64 s (cache + 32)) (\<lambda>tl.
     bindR (insert_slab tl slab s) (\<lambda>s.
     bindR (ld64 s (cache + 40)) (\<lambda>fl.
     bindR (ld64 s (cache + 32)) (\<lambda>tl.
       if fl = tl then st64 (cache + 40) slab s else Inr s))))"

definition rm_slab :: "u64 \<Rightarrow> kheap \<Rightarrow> kheap res" where
  "rm_slab slab s =
     bindR (ld64 s slab) (\<lambda>p.
     bindR (ld64 s (slab + 8)) (\<lambda>n.
     bindR (st64 (p + 8) n s) (\<lambda>s.
     bindR (ld64 s (slab + 8)) (\<lambda>n.
     bindR (ld64 s slab) (\<lambda>p.
       stores [(n, p), (slab + 8, 0), (slab, 0)] s)))))"

subsection \<open>Growing a cache\<close>

text \<open>The loop that links the buffers of a page; the result is the pointer it ends with.\<close>

partial_function (option) link_bufs :: "u64 \<Rightarrow> u64 \<Rightarrow> u64 \<Rightarrow> u64 \<Rightarrow> kheap \<Rightarrow> (u64 \<times> kheap) res option" where
  "link_bufs p sz eff_size slab s =
     (if p + eff_size < slab
      then bindX (Some (st64 (p + sz) (p + eff_size) s)) (link_bufs (p + eff_size) sz eff_size slab)
      else Some (Inr (p, s)))"

declare link_bufs.simps [code]

definition grow_small :: "u64 \<Rightarrow> u64 \<Rightarrow> kheap \<Rightarrow> (u64 \<times> kheap) res option" where
  "grow_small cache sz s =
     bindS (page_alloc s) (\<lambda>(pstart, s).
       let new_slab = (pstart + PAGE_SIZE - 48) AND NOT (8 - 1);
           eff_size = sz + 24
       in bindS (bindR (stores [(new_slab, 0), (new_slab + 8, 0)] s) (\<lambda>s.
                 bindR (st32 (new_slab + 40) 0 s) (\<lambda>s.
                 bindR (stores [(new_slab + 24, pstart), (new_slab + 32, pstart)] s)
                   (st32 (new_slab + 44) (ucast ((PAGE_SIZE - 48) div eff_size)))))) (\<lambda>s.
          bindX (link_bufs pstart sz eff_size new_slab s) (\<lambda>(p, s).
          bindS (st64 (p - 8) 0 s) (\<lambda>s. Some (Inr (new_slab, s))))))"

definition init_bufctl :: "u64 \<Rightarrow> u64 \<Rightarrow> u64 \<Rightarrow> u64 \<Rightarrow> u32 \<Rightarrow> nat \<Rightarrow> kheap \<Rightarrow> kheap res" where
  "init_bufctl new_slab buf_start pstart sz cnt i s =
     (let buf = buf_start + 24 * of_nat i
      in bindR (stores [(buf, pstart + of_nat i * sz), (buf + 16, 0)] s) (\<lambda>s.
         bindR (if int i < sint (cnt - 1) then st64 (buf + 16) (buf + 24) s else Inr s)
           (st64 (buf + 8) new_slab)))"

definition grow_large :: "u64 \<Rightarrow> u64 \<Rightarrow> kheap \<Rightarrow> (u64 \<times> kheap) res option" where
  "grow_large cache sz s =
     (let bytes = sz * 8;
          nframes = (bytes + PAGE_SIZE - 1) div PAGE_SIZE
      in bindS (pages_alloc nframes s) (\<lambda>(pstart, s).
         let buffers = nframes * PAGE_SIZE div sz;
             slab_frames = (48 + buffers * 24 + PAGE_SIZE - 1) div PAGE_SIZE
         in bindS (pages_alloc slab_frames s) (\<lambda>(new_slab, s).
            let buf_start = new_slab + 48; cnt = ucast buffers :: u32
            in bindS (bindR (stores [(new_slab, 0), (new_slab + 8, 0)] s) (\<lambda>s.
                      bindR (st32 (new_slab + 40) 0 s) (\<lambda>s.
                      bindR (stores [(new_slab + 24, buf_start), (new_slab + 32, pstart)] s) (\<lambda>s.
                      bindR (st32 (new_slab + 44) cnt s)
                        (for_range (init_bufctl new_slab buf_start pstart sz cnt) 0 (nat (sint cnt)))))))
                 (\<lambda>s. Some (Inr (new_slab, s))))))"

definition kmem_cache_grow :: "u64 \<Rightarrow> kheap \<Rightarrow> kheap res option" where
  "kmem_cache_grow cache s =
     bindS (ld64 s (cache + 56)) (\<lambda>sz.
     bindX (if sz \<le> 512 then grow_small cache sz s else grow_large cache sz s) (\<lambda>(new_slab, s).
       Some (append_slab cache new_slab s)))"

subsection \<open>Allocation and release\<close>

definition take_ref :: "u64 \<Rightarrow> u64 \<Rightarrow> kheap \<Rightarrow> kheap res" where
  "take_ref cache slab s =
     bindR (add_refs slab 1 s) (\<lambda>(refs, s).
     bindR (ld32 s (slab + 44)) (\<lambda>cnt.
       if sint cnt \<le> sint refs
       then bindR (ld64 s (cache + 40)) (\<lambda>fl. bindR (ld64 s (fl + 8)) (\<lambda>n. st64 (cache + 40) n s))
       else Inr s))"

definition take_small :: "u64 \<Rightarrow> u64 \<Rightarrow> u64 \<Rightarrow> kheap \<Rightarrow> (u64 \<times> kheap) res" where
  "take_small cache slab sz s =
     bindR (ld64 s (slab + 24)) (\<lambda>buf.
     bindR (ld64 s (buf + sz)) (\<lambda>nxt.
     bindR (stores [(slab + 24, nxt), (buf + sz, 0xDEADBEEF)] s) (\<lambda>s.
     bindR (take_ref cache slab s) (\<lambda>s. Inr (buf, s)))))"

definition take_large :: "u64 \<Rightarrow> u64 \<Rightarrow> kheap \<Rightarrow> (u64 \<times> kheap) res" where
  "take_large cache slab s =
     bindR (ld64 s (slab + 24)) (\<lambda>bufctl.
     bindR (ld64 s (bufctl + 16)) (\<lambda>nxt.
     bindR (stores [(slab + 24, nxt), (bufctl + 16, 0xDEADBEEF)] s) (\<lambda>s.
     bindR (take_ref cache slab s) (\<lambda>s.
     bindR (ld64 s bufctl) (\<lambda>buf. Inr (buf, s))))))"

definition kmem_cache_alloc :: "u64 \<Rightarrow> kheap \<Rightarrow> (u64 \<times> kheap) res option" where
  "kmem_cache_alloc cache s =
     bindS (bindR (ld64 s (cache + 40)) (\<lambda>fl. bindR (ld64 s (cache + 32)) (\<lambda>tl. Inr (fl, tl)))) (\<lambda>(fl, tl).
     bindX (if fl = 0 \<or> fl = tl then kmem_cache_grow cache s else Some (Inr s)) (\<lambda>s.
     bindS (bindR (ld64 s (cache + 40)) (\<lambda>fl. slab_full fl s)) (\<lambda>full.
     bindX (if full then kmem_cache_grow cache s else Some (Inr s)) (\<lambda>s.
     bindS (bindR (ld64 s (cache + 40)) (\<lambda>slab. bindR (ld64 s (cache + 56)) (\<lambda>sz. Inr (slab, sz)))) (\<lambda>(slab, sz).
       Some (if sz \<le> 512 then take_small cache slab sz s else take_large cache slab s))))))"

definition free_large_slab :: "u64 \<Rightarrow> u64 \<Rightarrow> kheap \<Rightarrow> kheap res" where
  "free_large_slab cache slab s =
     bindR (ld32 s (slab + 44)) (\<lambda>cnt.
     bindR (ld64 s (slab + 32)) (\<lambda>pstart.
     bindR (ld64 s (cache + 56)) (\<lambda>sz.
       let nframes = (48 + scast cnt * 24) div PAGE_SIZE;
           page_addr = pstart AND NOT (PAGE_SIZE - 1);
           buf_frames = (scast cnt * sz + PAGE_SIZE - 1) div PAGE_SIZE
       in bindR (pages_free page_addr buf_frames s) (pages_free slab nframes))))"

partial_function (option) skip_used :: "u64 \<Rightarrow> u64 \<Rightarrow> kheap \<Rightarrow> u64 res option" where
  "skip_used cache tmp s =
     (if tmp = 0 then Some (Inr tmp)
      else bindX (Some (ld64 s (cache + 32))) (\<lambda>tl.
        if tmp = tl then Some (Inr tmp)
        else bindX (Some (ld32 s (tmp + 40))) (\<lambda>refs.
          if sint refs > 0 then bindX (Some (ld64 s (tmp + 8))) (\<lambda>n. skip_used cache n s)
          else Some (Inr tmp))))"

partial_function (option) reap_from :: "bool \<Rightarrow> u64 \<Rightarrow> u64 \<Rightarrow> kheap \<Rightarrow> kheap res option" where
  "reap_from small cache tmp s =
     (if tmp = 0 then Some (Inr s)
      else bindX (Some (ld64 s (cache + 32))) (\<lambda>tl.
        if tmp = tl then Some (Inr s)
        else bindX (Some (ld64 s (tmp + 8))) (\<lambda>n.
          bindX (Some (if small then page_free (tmp AND NOT (PAGE_SIZE - 1)) s else free_large_slab cache tmp s))
            (reap_from small cache n))))"

declare skip_used.simps [code] reap_from.simps [code]

definition kmem_cache_reap :: "u64 \<Rightarrow> kheap \<Rightarrow> kheap res option" where
  "kmem_cache_reap cache s =
     bindS (ld64 s (cache + 40)) (\<lambda>fl.
     bindX (skip_used cache fl s) (\<lambda>tmp.
     bindS (ld64 s (cache + 56)) (\<lambda>sz. reap_from (sz \<le> 512) cache tmp s)))"

text \<open>The two branches of \<open>kmem_cache_free\<close>: the slab and whether it is still alive.\<close>

definition free_small :: "u64 \<Rightarrow> u64 \<Rightarrow> kheap \<Rightarrow> ((u64 \<times> bool) \<times> kheap) res" where
  "free_small buf sz s =
     (let page = buf AND NOT (PAGE_SIZE - 1); slab = page + PAGE_SIZE - 48
      in bindR (ld64 s (buf + sz)) (\<lambda>_.
         bindR (ld64 s (slab + 24)) (\<lambda>fl.
         bindR (stores [(buf + sz, fl), (slab + 24, buf)] s) (\<lambda>s.
         bindR (add_refs slab (- 1) s) (\<lambda>(refs, s).
           if refs = 0
           then bindR (rm_slab slab s) (\<lambda>s. bindR (page_free page s) (\<lambda>s. Inr ((slab, False), s)))
           else Inr ((slab, True), s))))))"

definition free_large :: "u64 \<Rightarrow> u64 \<Rightarrow> kheap \<Rightarrow> ((u64 \<times> bool) \<times> kheap) res option" where
  "free_large cache buf s =
     bindX (ht_get cache buf s) (\<lambda>bufctl.
     bindS (ld64 s (bufctl + 8)) (\<lambda>slab.
       Some (bindR (ld64 s (bufctl + 16)) (\<lambda>_.
             bindR (ld64 s (slab + 24)) (\<lambda>fl.
             bindR (stores [(bufctl + 16, fl), (slab + 24, bufctl)] s) (\<lambda>s.
             bindR (add_refs slab (- 1) s) (\<lambda>(refs, s).
               if refs = 0
               then bindR (rm_slab slab s) (\<lambda>s. bindR (free_large_slab cache slab s) (\<lambda>s. Inr ((slab, False), s)))
               else Inr ((slab, True), s))))))))"

definition kmem_cache_free :: "u64 \<Rightarrow> u64 \<Rightarrow> kheap \<Rightarrow> kheap res option" where
  "kmem_cache_free cache buf s =
     bindS (ld64 s (cache + 56)) (\<lambda>sz.
     bindX (if sz \<le> 512 then Some (free_small buf sz s) else free_large cache buf s) (\<lambda>((slab, alive), s).
       Some (if \<not> alive then Inr s
             else bindR (ld32 s (slab + 40)) (\<lambda>refs.
                  bindR (ld32 s (slab + 44)) (\<lambda>cnt.
                    if refs = cnt - 1
                    then bindR (rm_slab slab s) (\<lambda>s.
                         bindR (ld64 s (cache + 40)) (\<lambda>fl.
                         bindR (insert_slab fl slab s) (st64 (cache + 40) slab)))
                    else Inr s)))))"

subsection \<open>Caches and the general-purpose allocator\<close>

definition kmem_cache_init :: "u64 \<Rightarrow> u64 \<Rightarrow> kheap \<Rightarrow> kheap res" where
  "kmem_cache_init cache sz s = st64 (cache + 56) sz s"

definition init_cache :: "u64 \<Rightarrow> nat \<Rightarrow> kheap \<Rightarrow> kheap res option" where
  "init_cache tmp_name i s =
     bindX (kmem_cache_alloc (cache_cache s) s) (\<lambda>(c, s).
     bindS (if i < length (caches s) then Inr (s\<lparr>caches := (caches s)[i := c]\<rparr>) else Inl OutOfBounds) (\<lambda>s.
     bindS (st64 (c + 56) (2 * 2 ^ i) s) (\<lambda>s.
       let s = kmemset (c + 120) 0 48 (kmemset (c + 72) 0 48 s)
       in Some (stores [(c + 24, c + 72), (c + 32, c + 120), (c + 40, c + 72), (c + 48, tmp_name)] s))))"

fun init_caches :: "u64 \<Rightarrow> nat \<Rightarrow> nat \<Rightarrow> kheap \<Rightarrow> kheap res option" where
  "init_caches tmp_name i 0 s = Some (Inr s)"
| "init_caches tmp_name i (Suc n) s = bindX (init_cache tmp_name i s) (init_caches tmp_name (Suc i) n)"

definition slab_alloc_init :: "u64 \<Rightarrow> u64 \<Rightarrow> kheap \<Rightarrow> kheap res option" where
  "slab_alloc_init cc_name tmp_name s =
     (let c = cache_cache s; h = c + 72; t = c + 120
      in bindS (st64 (c + 56) 168 s) (\<lambda>s.
         let s = kmemset t 0 48 (kmemset h 0 48 s)
         in bindS (bindR (stores [(c + 24, h), (c + 32, t), (h, 0), (h + 8, t), (h + 24, 0)] s) (\<lambda>s.
                   bindR (st32 (h + 40) 0 s) (\<lambda>s.
                   bindR (stores [(t, h), (t, h), (t + 24, 0)] s) (\<lambda>s.
                   bindR (st32 (t + 40) 0 s) (stores [(c + 40, t), (c + 48, cc_name)]))))) (\<lambda>s.
            bindX (kmem_cache_grow c s) (init_caches tmp_name 0 12))))"

definition kmem_cache_create :: "u64 \<Rightarrow> u64 \<Rightarrow> u32 \<Rightarrow> kheap \<Rightarrow> (u64 \<times> kheap) res option" where
  "kmem_cache_create name sz align s =
     bindX (kmem_cache_alloc (cache_cache s) s) (\<lambda>(c, s).
       let h = c + 72; t = c + 120
       in bindS (bindR (stores [(c + 48, name), (c + 56, sz), (c + 64, scast align), (c + 24, h), (c + 32, t),
                     (h, 0), (h + 8, t), (h + 24, 0)] s) (\<lambda>s.
                 bindR (st32 (h + 40) 0 s) (\<lambda>s.
                 bindR (stores [(t, h), (t + 8, 0), (t + 24, 0)] s) (\<lambda>s.
                 bindR (st32 (t + 40) 0 s) (st64 (c + 40) t))))) (\<lambda>s.
          bindS (ht_init s) (\<lambda>((buckets, n, cap), s).
          bindS (stores [(c, buckets), (c + 8, n), (c + 16, cap)] s) (\<lambda>s. Some (Inr (0, s))))))"

fun size_class :: "u64 \<Rightarrow> nat \<Rightarrow> nat \<Rightarrow> nat" where
  "size_class sz k 0 = k"
| "size_class sz k (Suc n) = (if sz > 2 * 2 ^ k then size_class sz (Suc k) n else k)"

definition kmalloc :: "u64 \<Rightarrow> kheap \<Rightarrow> (u64 \<times> kheap) res option" where
  "kmalloc sz s =
     (let k = size_class sz 0 12
      in if 12 \<le> k then Some (Inr (0, s))
         else if k < length (caches s) then kmem_cache_alloc (caches s ! k) s
         else Some (Inl OutOfBounds))"

fun find_bufctl :: "u64 \<Rightarrow> nat \<Rightarrow> nat \<Rightarrow> kheap \<Rightarrow> (nat \<times> u64) res option" where
  "find_bufctl p k 0 s = Some (Inr (k, 0))"
| "find_bufctl p k (Suc n) s =
     (if k < length (caches s)
      then bindX (ht_get (caches s ! k) p s) (\<lambda>b.
             if b \<noteq> 0 then Some (Inr (k, b)) else find_bufctl p (Suc k) n s)
      else Some (Inl OutOfBounds))"

definition kfree :: "u64 \<Rightarrow> kheap \<Rightarrow> kheap res option" where
  "kfree p s =
     bindX (find_bufctl p 0 12 s) (\<lambda>(k, bufctl).
       let s = (if k = 12 \<or> bufctl = 0 then s\<lparr>kconsole := kconsole s @ [''Invalid FREE\<newline>'']\<rparr> else s)
       in bindS (bindR (ld64 s (bufctl + 8)) (\<lambda>slab. ld64 s (slab + 16))) (\<lambda>cache.
          kmem_cache_free cache p s))"

end
