(* ===== verification/Nya_Slab_Alloc.thy ===== *)
theory Nya_Slab_Alloc
  imports Nya_Slab
begin

unbundle bit_operations_syntax

section \<open>What the slab allocator promises\<close>

text \<open>
  Small objects: how a page is carved into buffers, what successive allocations hand out,
  and what the caches built at boot do on the first allocation.
\<close>

subsection \<open>Offsets in a page\<close>

lemma kmem_update: "kmem (s\<lparr>kmem := m\<rparr>) = m"
  by simp

definition page_ok :: "u64 \<Rightarrow> bool" where
  "page_ok p \<longleftrightarrow> 4096 \<le> unat p \<and> unat p + 8192 \<le> 2 ^ 64"

lemma page_nat: "page_ok p \<Longrightarrow> i < 8192 \<Longrightarrow> unat (p + of_nat i) = unat p + i"
  by (rule unat_add_field) (simp add: page_ok_def)

lemma page_mapped: "page_ok p \<Longrightarrow> i < 8192 \<Longrightarrow> \<not> p + of_nat i < 4096"
  using page_nat[of p i] by (simp add: word_less_nat_alt page_ok_def)

lemma page_apart:
  assumes "page_ok p" "i + n \<le> 4096" "j + m \<le> 4096" "0 < n" "0 < m" "i + n \<le> j \<or> j + m \<le> i"
  shows "apart (p + of_nat i) n (p + of_nat j) m"
proof (rule apart_nat)
  have u: "unat (p + of_nat i) = unat p + i" "unat (p + of_nat j) = unat p + j"
    using page_nat[OF assms(1), of i] page_nat[OF assms(1), of j] assms by simp_all
  show "unat (p + of_nat i) + n \<le> 2 ^ 64" "unat (p + of_nat j) + m \<le> 2 ^ 64"
    using assms unfolding u page_ok_def by linarith+
  show "unat (p + of_nat i) + n \<le> unat (p + of_nat j) \<or> unat (p + of_nat j) + m \<le> unat (p + of_nat i)"
    using assms(6) unfolding u by linarith
qed (use assms in simp_all)

text \<open>A store below offset \<open>l\<close> of the page changes no byte at or after \<open>l\<close>, nor outside it.\<close>

lemma wr_below:
  assumes "i + n \<le> l" "l \<le> 4096" "l \<le> unat (x - p)"
  shows "wr n (p + of_nat i) v m x = m x"
proof (rule wr_other)
  have ui: "unat (of_nat i :: u64) = i" "unat (of_nat n :: u64) = n" using assms by (simp_all add: unat_of_nat)
  then have "of_nat i \<le> x - p" using assms by (simp add: word_le_nat_alt)
  then have "unat (x - p - of_nat i) = unat (x - p) - i" using ui by (simp add: unat_sub)
  then show "of_nat n \<le> x - (p + of_nat i)" using assms ui by (simp add: word_le_nat_alt algebra_simps)
qed

lemma rd_same:
  assumes "\<And>x. l \<le> unat (x - p) \<Longrightarrow> m' x = m x" "\<And>i. i < n \<Longrightarrow> l \<le> unat (a + of_nat i - p)"
  shows "rd n m' a = rd n m a"
  using assms by (intro rd_cong) simp

lemma page_offset: "page_ok p \<Longrightarrow> i < 4096 \<Longrightarrow> unat (p + of_nat i - p) = i"
  by (simp add: unat_of_nat)

subsection \<open>Carving a page\<close>

text \<open>The number of the last buffer that starts below the slab header.\<close>

definition last_buf :: "nat \<Rightarrow> nat" where
  "last_buf e = 4047 div e"

lemma last_buf_bounds:
  assumes "0 < e"
  shows "last_buf e * e < 4048" "4048 \<le> Suc (last_buf e) * e"
proof -
  have "4047 = last_buf e * e + 4047 mod e" unfolding last_buf_def by simp
  moreover have "4047 mod e < e" using assms by simp
  ultimately show "last_buf e * e < 4048" "4048 \<le> Suc (last_buf e) * e" by simp_all
qed

lemma link_bufs_ok:
  assumes p: "page_ok p" and e: "e = z + 24" "e \<le> 536" and k: "k \<le> last_buf e"
  shows "\<exists>t. link_bufs (p + of_nat (k * e)) (of_nat z) (of_nat e) (p + of_nat 4048) s =
      Some (Inr (p + of_nat (last_buf e * e), t)) \<and> t = s\<lparr>kmem := kmem t\<rparr> \<and>
    (\<forall>j. k \<le> j \<and> j < last_buf e \<longrightarrow> rd64 (kmem t) (p + of_nat (j * e + z)) = p + of_nat (Suc j * e)) \<and>
    (\<forall>x. 4048 \<le> unat (x - p) \<longrightarrow> kmem t x = kmem s x) \<and>
    (\<forall>j. j < k \<longrightarrow> rd64 (kmem t) (p + of_nat (j * e + z)) = rd64 (kmem s) (p + of_nat (j * e + z)))"
  using k
proof (induction "last_buf e - k" arbitrary: k s)
  case 0
  then have k: "k = last_buf e" by simp
  have "4048 \<le> Suc k * e" "k * e < 4048" using last_buf_bounds[of e] e k by simp_all
  then have "\<not> p + of_nat (k * e + e) < p + of_nat 4048"
    using page_nat[OF p, of "k * e + e"] page_nat[OF p, of 4048] e by (simp add: word_less_nat_alt)
  then have "link_bufs (p + of_nat (k * e)) (of_nat z) (of_nat e) (p + of_nat 4048) s = Some (Inr (p + of_nat (k * e), s))"
    by (subst link_bufs.simps) (simp add: add.assoc)
  then show ?case using k by (intro exI[of _ s]) auto
next
  case (Suc d)
  have kl: "k < last_buf e" using Suc.hyps(2) by simp
  have "Suc k * e \<le> last_buf e * e" using kl by (intro mult_le_mono1) simp
  then have b: "k * e + e < 4048" using last_buf_bounds(1)[of e] e by simp
  let ?a = "p + of_nat (k * e + z)" and ?v = "p + of_nat (k * e + e)"
  let ?s = "s\<lparr>kmem := wr64 ?a ?v (kmem s)\<rparr>"
  have go: "p + of_nat (k * e + e) < p + of_nat 4048"
    using page_nat[OF p, of "k * e + e"] page_nat[OF p, of 4048] b by (simp add: word_less_nat_alt)
  have "st64 ?a ?v s = Inr ?s" using page_mapped[OF p, of "k * e + z"] b e by (simp add: st64_def)
  then have step: "link_bufs (p + of_nat (k * e)) (of_nat z) (of_nat e) (p + of_nat 4048) s =
      link_bufs (p + of_nat (Suc k * e)) (of_nat z) (of_nat e) (p + of_nat 4048) ?s"
    using go by (subst link_bufs.simps) (simp add: ac_simps)
  have "d = last_buf e - Suc k" "Suc k \<le> last_buf e" using Suc.hyps(2) by simp_all
  from Suc.hyps(1)[OF this, of ?s] obtain t where
    t: "link_bufs (p + of_nat (Suc k * e)) (of_nat z) (of_nat e) (p + of_nat 4048) ?s =
      Some (Inr (p + of_nat (last_buf e * e), t))" "t = ?s\<lparr>kmem := kmem t\<rparr>"
    "\<And>j. Suc k \<le> j \<Longrightarrow> j < last_buf e \<Longrightarrow> rd64 (kmem t) (p + of_nat (j * e + z)) = p + of_nat (Suc j * e)"
    "\<And>x. 4048 \<le> unat (x - p) \<Longrightarrow> kmem t x = kmem ?s x"
    "\<And>j. j < Suc k \<Longrightarrow> rd64 (kmem t) (p + of_nat (j * e + z)) = rd64 (kmem ?s) (p + of_nat (j * e + z))"
    by blast
  have kk: "rd64 (kmem t) ?a = ?v" using t(5)[of k] by simp
  have before: "rd64 (kmem t) (p + of_nat (j * e + z)) = rd64 (kmem s) (p + of_nat (j * e + z))" if "j < k" for j
  proof -
    have "Suc j * e \<le> k * e" using that by (intro mult_le_mono1) simp
    then have "apart (p + of_nat (j * e + z)) 8 ?a 8" using b e by (intro page_apart[OF p]) simp_all
    then have "rd64 (kmem ?s) (p + of_nat (j * e + z)) = rd64 (kmem s) (p + of_nat (j * e + z))" by (simp add: rd_wr_apart)
    then show ?thesis using t(5)[of j] that by simp
  qed
  have out: "kmem t x = kmem s x" if "4048 \<le> unat (x - p)" for x
    using t(4)[OF that] wr_below[of "k * e + z" 8 4048 x p ?v "kmem s"] that b e by simp
  have links: "rd64 (kmem t) (p + of_nat (j * e + z)) = p + of_nat (Suc j * e)" if "k \<le> j" "j < last_buf e" for j
    using that t(3)[of j] kk by (cases "j = k") (simp_all add: add.commute)
  have "t = s\<lparr>kmem := kmem t\<rparr>" using t(2) by simp
  with step t(1) links out before show ?case by (intro exI[of _ t]) auto
qed

subsection \<open>Allocating from a carved page\<close>

definition buf_cnt :: "nat \<Rightarrow> nat" where
  "buf_cnt e = 4048 div e"

text \<open>
  The cache at \<open>c\<close> of objects of \<open>z\<close> bytes has the page \<open>p\<close> as its current slab, and the
  free buffers of that page are those with the numbers \<open>fs\<close>, in the order of the list that
  is threaded through them: the slab represents a stack of buffer numbers.
\<close>

definition small_slab :: "u64 \<Rightarrow> u64 \<Rightarrow> nat \<Rightarrow> nat list \<Rightarrow> kheap \<Rightarrow> bool" where
  "small_slab c p z fs s \<longleftrightarrow> page_ok p \<and> 4096 dvd unat p \<and> 4096 \<le> unat c \<and> unat c + 168 \<le> 2 ^ 64 \<and>
     (unat c + 168 \<le> unat p \<or> unat p + 4096 \<le> unat c) \<and> z \<le> 512 \<and>
     fs \<noteq> [] \<and> distinct fs \<and> set fs \<subseteq> {..<buf_cnt (z + 24)} \<and>
     rd64 (kmem s) (c + of_nat 40) = p + of_nat 4048 \<and> rd64 (kmem s) (c + of_nat 32) \<noteq> p + of_nat 4048 \<and>
     rd64 (kmem s) (c + of_nat 56) = of_nat z \<and>
     rd64 (kmem s) (p + of_nat 4072) = p + of_nat (hd fs * (z + 24)) \<and>
     rd32 (kmem s) (p + of_nat 4088) = of_nat (buf_cnt (z + 24) - length fs) \<and>
     rd32 (kmem s) (p + of_nat 4092) = of_nat (buf_cnt (z + 24)) \<and>
     (\<forall>i. Suc i < length fs \<longrightarrow>
        rd64 (kmem s) (p + of_nat (fs ! i * (z + 24) + z)) = p + of_nat (fs ! Suc i * (z + 24)))"

lemma cache_apart:
  assumes "page_ok p" "unat c + 168 \<le> 2 ^ 64" "unat c + 168 \<le> unat p \<or> unat p + 4096 \<le> unat c"
    "i + n \<le> 168" "j + m \<le> 4096" "0 < n" "0 < m"
  shows "apart (c + of_nat i) n (p + of_nat j) m"
proof (rule apart_nat)
  have u: "unat (c + of_nat i) = unat c + i" "unat (p + of_nat j) = unat p + j"
    using unat_add_field[of c i] page_nat[OF assms(1), of j] assms by simp_all
  show "unat (c + of_nat i) + n \<le> 2 ^ 64" "unat (p + of_nat j) + m \<le> 2 ^ 64"
    using assms unfolding u page_ok_def by linarith+
  show "unat (c + of_nat i) + n \<le> unat (p + of_nat j) \<or> unat (p + of_nat j) + m \<le> unat (c + of_nat i)"
    using assms unfolding u by linarith
qed (use assms in simp_all)

lemma buf_cnt_bounds:
  assumes "0 < e" "j < buf_cnt e"
  shows "Suc j * e \<le> 4048" "Suc j < buf_cnt e \<Longrightarrow> j < last_buf e" "buf_cnt e \<le> 4048"
proof -
  have "Suc j * e \<le> buf_cnt e * e" using assms(2) by (intro mult_le_mono1) simp
  also have b: "buf_cnt e * e \<le> 4048" unfolding buf_cnt_def by simp
  finally show "Suc j * e \<le> 4048" .
  show "buf_cnt e \<le> 4048" unfolding buf_cnt_def by simp
  assume j: "Suc j < buf_cnt e"
  show "j < last_buf e"
  proof (rule ccontr)
    assume "\<not> j < last_buf e"
    then have "Suc (Suc (last_buf e)) * e \<le> buf_cnt e * e" using j by (intro mult_le_mono1) simp
    then show False using b last_buf_bounds(2)[OF assms(1)] assms(1) by simp
  qed
qed

lemma small_slab_page:
  assumes "small_slab c p z fs s"
  shows "page_ok p" "4096 dvd unat p" "z \<le> 512" "0 < length fs" "length fs \<le> buf_cnt (z + 24)" "buf_cnt (z + 24) \<le> 4048"
    "buf_cnt (z + 24) - length fs < buf_cnt (z + 24)" "k \<in> set fs \<Longrightarrow> Suc k * (z + 24) \<le> 4048"
proof -
  show "page_ok p" "4096 dvd unat p" "z \<le> 512" "0 < length fs" using assms by (simp_all add: small_slab_def)
  have d: "distinct fs" "set fs \<subseteq> {..<buf_cnt (z + 24)}" using assms by (simp_all add: small_slab_def)
  have "card (set fs) \<le> card {..<buf_cnt (z + 24)}" by (rule card_mono) (use d in simp_all)
  then show le: "length fs \<le> buf_cnt (z + 24)" using distinct_card[OF d(1)] by simp
  show "buf_cnt (z + 24) \<le> 4048" unfolding buf_cnt_def by simp
  show "buf_cnt (z + 24) - length fs < buf_cnt (z + 24)" using le \<open>0 < length fs\<close> by linarith
  show "Suc k * (z + 24) \<le> 4048" if "k \<in> set fs" using buf_cnt_bounds(1)[of "z + 24" k] d(2) that by auto
qed

lemma small_slab_fields:
  assumes "small_slab c p z fs s"
  shows "ld64 s (c + 40) = Inr (p + of_nat 4048)" "\<exists>tl. ld64 s (c + 32) = Inr tl \<and> tl \<noteq> p + of_nat 4048"
    "ld64 s (c + 56) = Inr (of_nat z)" "ld64 s (p + of_nat 4048 + 24) = Inr (p + of_nat (hd fs * (z + 24)))"
    "ld32 s (p + of_nat 4048 + 40) = Inr (of_nat (buf_cnt (z + 24) - length fs))"
    "ld32 s (p + of_nat 4048 + 44) = Inr (of_nat (buf_cnt (z + 24)))" "p + of_nat 4048 \<noteq> (0 :: u64)"
proof -
  have p: "page_ok p" and c: "4096 \<le> unat c" "unat c + 168 \<le> 2 ^ 64" using assms by (simp_all add: small_slab_def)
  have "\<not> c + of_nat i < 4096" if "i < 168" for i
    using unat_add_field[of c i] that c by (simp add: word_less_nat_alt)
  from this[of 40] this[of 32] this[of 56]
  have cm: "\<not> c + 40 < 4096" "\<not> c + 32 < 4096" "\<not> c + 56 < 4096" by simp_all
  have pm: "\<not> p + 4072 < 4096" "\<not> p + 4088 < 4096" "\<not> p + 4092 < 4096" "\<not> p + 4048 < 4096"
    using page_mapped[OF p, of 4072] page_mapped[OF p, of 4088] page_mapped[OF p, of 4092] page_mapped[OF p, of 4048] by simp_all
  have f: "rd64 (kmem s) (c + of_nat 40) = p + of_nat 4048" "rd64 (kmem s) (c + of_nat 32) \<noteq> p + of_nat 4048"
    "rd64 (kmem s) (c + of_nat 56) = of_nat z" "rd64 (kmem s) (p + of_nat 4072) = p + of_nat (hd fs * (z + 24))"
    "rd32 (kmem s) (p + of_nat 4088) = of_nat (buf_cnt (z + 24) - length fs)"
    "rd32 (kmem s) (p + of_nat 4092) = of_nat (buf_cnt (z + 24))"
    using assms unfolding small_slab_def by blast+
  have o: "p + of_nat 4048 + 24 = p + of_nat 4072" "p + of_nat 4048 + 40 = p + of_nat 4088"
    "p + of_nat 4048 + 44 = p + of_nat 4092" "c + 40 = c + of_nat 40" "c + 32 = c + of_nat 32" "c + 56 = c + of_nat 56"
    by simp_all
  show "ld64 s (c + 40) = Inr (p + of_nat 4048)" "\<exists>tl. ld64 s (c + 32) = Inr tl \<and> tl \<noteq> p + of_nat 4048"
    "ld64 s (c + 56) = Inr (of_nat z)" "ld64 s (p + of_nat 4048 + 24) = Inr (p + of_nat (hd fs * (z + 24)))"
    "ld32 s (p + of_nat 4048 + 40) = Inr (of_nat (buf_cnt (z + 24) - length fs))"
    "ld32 s (p + of_nat 4048 + 44) = Inr (of_nat (buf_cnt (z + 24)))"
    unfolding ld64_def ld32_def o f(1,3,4,5,6) using cm pm f(2) by simp_all
  show "p + of_nat 4048 \<noteq> (0 :: u64)" using pm(4) by auto
qed

lemma small_counts:
  assumes "u < n" "n \<le> 4048"
  shows "(of_nat u :: u32) \<noteq> of_nat n" "sint (of_nat u + 1 :: u32) = int u + 1" "sint (of_nat n :: u32) = int n"
proof -
  have small: "sint (of_nat n :: u32) = int n" if "n < 2 ^ 31" for n
    using that by (simp add: sint_uint signed_take_bit_int_eq_self take_bit_nat_eq_self unsigned_of_nat)
  show "sint (of_nat n :: u32) = int n" using assms by (intro small) simp
  have "sint (of_nat (Suc u) :: u32) = int (Suc u)" using assms by (intro small) simp
  then show "sint (of_nat u + 1 :: u32) = int u + 1" by (simp add: add.commute)
  have "unat (of_nat u :: u32) = u" "unat (of_nat n :: u32) = n" using assms by (simp_all add: unat_of_nat)
  then show "(of_nat u :: u32) \<noteq> of_nat n" using assms by (metis less_irrefl)
qed

text \<open>
  The stores of one allocation or release: the word after the buffer \<open>j\<close>, the head of the free
  list and the reference count.
\<close>

definition patched :: "u64 \<Rightarrow> nat \<Rightarrow> nat \<Rightarrow> u32 \<Rightarrow> u64 \<Rightarrow> u64 \<Rightarrow> mem \<Rightarrow> mem" where
  "patched p z j refs link fl m = wr32 (p + of_nat 4088) refs
     (wr64 (p + of_nat (j * (z + 24) + z)) link (wr64 (p + of_nat 4072) fl m))"

lemma patched_page:
  assumes "page_ok p" "Suc j * (z + 24) \<le> 4048" "i + n \<le> 4096" "0 < n"
    "i + n \<le> j * (z + 24) + z \<or> j * (z + 24) + z + 8 \<le> i" "i + n \<le> 4072 \<or> 4080 \<le> i" "i + n \<le> 4088 \<or> 4092 \<le> i"
  shows "rd n (patched p z j refs link fl m) (p + of_nat i) = rd n m (p + of_nat i)"
proof -
  have "apart (p + of_nat i) n (p + of_nat (j * (z + 24) + z)) 8" "apart (p + of_nat i) n (p + of_nat 4072) 8"
    "apart (p + of_nat i) n (p + of_nat 4088) 4" using assms by (intro page_apart[OF assms(1)]; simp)+
  then show ?thesis by (simp add: patched_def rd_wr_apart)
qed

lemma patched_fields:
  assumes "page_ok p" "Suc j * (z + 24) \<le> 4048"
  shows "rd64 (patched p z j refs link fl m) (p + of_nat 4072) = fl"
    "rd64 (patched p z j refs link fl m) (p + of_nat (j * (z + 24) + z)) = link"
    "rd32 (patched p z j refs link fl m) (p + of_nat 4088) = refs"
    "rd32 (patched p z j refs link fl m) (p + of_nat 4092) = rd32 m (p + of_nat 4092)"
proof -
  have "apart (p + of_nat 4072) 8 (p + of_nat (j * (z + 24) + z)) 8" "apart (p + of_nat 4072) 8 (p + of_nat 4088) 4"
    "apart (p + of_nat (j * (z + 24) + z)) 8 (p + of_nat 4088) 4"
    using assms(2) by (intro page_apart[OF assms(1)]; simp)+
  then show "rd64 (patched p z j refs link fl m) (p + of_nat 4072) = fl"
    "rd64 (patched p z j refs link fl m) (p + of_nat (j * (z + 24) + z)) = link"
    unfolding patched_def by (simp_all only: rd_wr_apart rd64_wr64)
  show "rd32 (patched p z j refs link fl m) (p + of_nat 4088) = refs" unfolding patched_def rd32_wr32 ..
  show "rd32 (patched p z j refs link fl m) (p + of_nat 4092) = rd32 m (p + of_nat 4092)"
    using assms(2) by (intro patched_page[OF assms]) simp_all
qed

lemma patched_cache:
  assumes "small_slab c p z fs s" "Suc j * (z + 24) \<le> 4048" "i + n \<le> 168" "0 < n"
  shows "rd n (patched p z j refs link fl m) (c + of_nat i) = rd n m (c + of_nat i)"
proof -
  have "apart (c + of_nat i) n (p + of_nat a) b" if "a + b \<le> 4096" "0 < b" for a b
    using assms that unfolding small_slab_def by (intro cache_apart) auto
  from this[of "j * (z + 24) + z" 8] this[of 4072 8] this[of 4088 4] show ?thesis
    using assms(2) by (simp add: patched_def rd_wr_apart)
qed

lemma patched_link:
  assumes "page_ok p" "Suc j * (z + 24) \<le> 4048" "Suc k * (z + 24) \<le> 4048" "j \<noteq> k"
  shows "rd64 (patched p z j refs link fl m) (p + of_nat (k * (z + 24) + z)) = rd64 m (p + of_nat (k * (z + 24) + z))"
proof -
  have "Suc j * (z + 24) \<le> k * (z + 24) \<or> Suc k * (z + 24) \<le> j * (z + 24)"
    using assms(4) by (cases "j < k") (auto intro!: mult_le_mono1 simp del: mult_Suc)
  then show ?thesis using assms(2,3) by (intro patched_page[OF assms(1,2)]) auto
qed

text \<open>Writing a new head, link and count gives the slab of the new stack.\<close>

lemma patched_slab:
  assumes sl: "small_slab c p z fs s" and j: "Suc j * (z + 24) \<le> 4048"
    and gs: "gs \<noteq> []" "distinct gs" "set gs \<subseteq> {..<buf_cnt (z + 24)}"
    and fl: "fl = p + of_nat (hd gs * (z + 24))" and refs: "refs = of_nat (buf_cnt (z + 24) - length gs)"
    and links: "\<And>i. Suc i < length gs \<Longrightarrow>
      (if gs ! i = j then link else rd64 (kmem s) (p + of_nat (gs ! i * (z + 24) + z))) = p + of_nat (gs ! Suc i * (z + 24))"
  shows "small_slab c p z gs (s\<lparr>kmem := patched p z j refs link fl (kmem s)\<rparr>)"
proof -
  let ?m = "patched p z j refs link fl (kmem s)"
  note p = small_slab_page(1)[OF sl]
  have c: "rd64 ?m (c + of_nat 40) = rd64 (kmem s) (c + of_nat 40)" "rd64 ?m (c + of_nat 32) = rd64 (kmem s) (c + of_nat 32)"
    "rd64 ?m (c + of_nat 56) = rd64 (kmem s) (c + of_nat 56)" by (rule patched_cache[OF sl j]; simp)+
  have l: "rd64 ?m (p + of_nat (gs ! i * (z + 24) + z)) = p + of_nat (gs ! Suc i * (z + 24))" if i: "Suc i < length gs" for i
  proof (cases "gs ! i = j")
    case True
    then show ?thesis using patched_fields(2)[OF p j] links[OF i] by simp
  next
    case False
    have "gs ! i \<in> set gs" using i by simp
    then have "gs ! i < buf_cnt (z + 24)" using gs(3) by blast
    then have "Suc (gs ! i) * (z + 24) \<le> 4048" by (intro buf_cnt_bounds(1)) simp_all
    then have "rd64 ?m (p + of_nat (gs ! i * (z + 24) + z)) = rd64 (kmem s) (p + of_nat (gs ! i * (z + 24) + z))"
      using False by (intro patched_link[OF p j]) auto
    then show ?thesis using links[OF i] False by simp
  qed
  have h: "rd64 ?m (p + of_nat 4072) = p + of_nat (hd gs * (z + 24))"
    "rd32 ?m (p + of_nat 4088) = of_nat (buf_cnt (z + 24) - length gs)"
    "rd32 ?m (p + of_nat 4092) = rd32 (kmem s) (p + of_nat 4092)"
    unfolding patched_fields[OF p j] by (fact fl refs refl)+
  show ?thesis using sl gs l unfolding small_slab_def kmem_update c h by blast
qed

lemma take_small_run:
  assumes sl: "small_slab c p z fs s"
  defines "j \<equiv> hd fs" and "u \<equiv> buf_cnt (z + 24) - length fs"
  defines "t \<equiv> s\<lparr>kmem := patched p z j (of_nat u + 1) 0xDEADBEEF (rd64 (kmem s) (p + of_nat (j * (z + 24) + z))) (kmem s)\<rparr>"
  shows "take_small c (p + of_nat 4048) (of_nat z) s =
    (if 1 < length fs then Inr (p + of_nat (j * (z + 24)), t)
     else bindR (bindR (ld64 t (c + 40)) (\<lambda>fl. bindR (ld64 t (fl + 8)) (\<lambda>n. st64 (c + 40) n t)))
            (\<lambda>s. Inr (p + of_nat (j * (z + 24)), s)))"
proof -
  let ?a = "p + of_nat (j * (z + 24) + z)"
  define nxt where "nxt = rd64 (kmem s) ?a"
  let ?m2 = "wr64 ?a 0xDEADBEEF (wr64 (p + of_nat 4072) nxt (kmem s))"
  note g = small_slab_page[OF sl]
  have u: "u < buf_cnt (z + 24)" using g(7) by (simp add: u_def)
  have "j \<in> set fs" using g(4) unfolding j_def by simp
  then have room: "Suc j * (z + 24) \<le> 4048" by (rule g(8))
  then have az: "j * (z + 24) + z + 24 \<le> 4048" by simp
  note f = small_slab_fields[OF sl, folded j_def u_def] and cnt = small_counts[OF u g(6)]
  have o: "p + of_nat 4048 + 24 = p + of_nat 4072" "p + of_nat 4048 + 40 = p + of_nat 4088"
    "p + of_nat 4048 + 44 = p + of_nat 4092" "p + of_nat (j * (z + 24)) + of_nat z = ?a" by simp_all
  have pm: "\<not> ?a < 4096" "\<not> p + of_nat 4072 < 4096" "\<not> p + of_nat 4088 < 4096" "\<not> p + of_nat 4092 < 4096"
    by (rule page_mapped[OF g(1)]; use az in simp)+
  have r40: "rd32 ?m2 (p + of_nat 4088) = of_nat u"
  proof -
    have "apart (p + of_nat 4088) 4 ?a 8" "apart (p + of_nat 4088) 4 (p + of_nat 4072) 8"
      using az by (intro page_apart[OF g(1)]; simp)+
    moreover have "rd32 (kmem s) (p + of_nat 4088) = of_nat u" using sl unfolding small_slab_def u_def by blast
    ultimately show ?thesis by (simp only: rd_wr_apart)
  qed
  have r44: "rd32 (kmem t) (p + of_nat 4092) = of_nat (buf_cnt (z + 24))"
    unfolding t_def kmem_update patched_fields[OF g(1) room] using sl unfolding small_slab_def by blast
  have ld1: "ld64 s (p + of_nat 4072) = Inr (p + of_nat (j * (z + 24)))" using f(4) unfolding o(1) .
  have ld2: "ld64 s ?a = Inr nxt" unfolding ld64_def nxt_def if_not_P[OF pm(1)] ..
  have st: "stores [(p + of_nat 4072, nxt), (?a, 0xDEADBEEF)] s = Inr (s\<lparr>kmem := ?m2\<rparr>)"
    using pm(1,2) by (simp add: st64_def del: of_nat_add of_nat_mult of_nat_numeral)
  have tr: "take_ref c (p + of_nat 4048) (s\<lparr>kmem := ?m2\<rparr>) =
    (if 1 < length fs then Inr t
     else bindR (ld64 t (c + 40)) (\<lambda>fl. bindR (ld64 t (fl + 8)) (\<lambda>n. st64 (c + 40) n t)))"
  proof -
    have "add_refs (p + of_nat 4048) 1 (s\<lparr>kmem := ?m2\<rparr>) = Inr (of_nat u + 1, t)"
      unfolding add_refs_def o ld32_def st32_def kmem_update if_not_P[OF pm(3)] t_def patched_def
      using r40 by (simp add: nxt_def)
    moreover have "ld32 t (p + of_nat 4048 + 44) = Inr (of_nat (buf_cnt (z + 24)))"
      unfolding o ld32_def if_not_P[OF pm(4)] r44 ..
    moreover have "(sint (of_nat (buf_cnt (z + 24)) :: u32) \<le> sint (of_nat u + 1 :: u32)) = (\<not> 1 < length fs)"
      unfolding cnt(2,3) using g(4,5) by (auto simp: u_def)
    ultimately show ?thesis unfolding take_ref_def by simp
  qed
  show ?thesis unfolding take_small_def o ld1 bindR_Inr ld2 st tr by simp
qed

lemma small_alloc_run:
  assumes sl: "small_slab c p z fs s"
  shows "kmem_cache_alloc c s = Some (take_small c (p + of_nat 4048) (of_nat z) s)"
proof -
  note f = small_slab_fields[OF sl] and g = small_slab_page[OF sl]
  note cnt = small_counts[OF g(7,6)]
  obtain tl where tl: "ld64 s (c + 32) = Inr tl" "tl \<noteq> p + of_nat 4048" using f(2) by blast
  have ne: "\<not> (p + of_nat 4048 = 0 \<or> p + of_nat 4048 = tl)" using f(7) tl(2) by auto
  have full: "slab_full (p + of_nat 4048) s = Inr False" unfolding slab_full_def f(5,6) using cnt(1) by simp
  have "(of_nat z :: u64) \<le> 512" using g(3) by (simp add: word_le_nat_alt unat_of_nat)
  then show ?thesis unfolding kmem_cache_alloc_def f(1,3) tl(1) bindR_Inr using ne full
    by (simp add: f(1,3) del: of_nat_numeral)
qed

text \<open>Allocation pops the stack.\<close>

lemma small_alloc_step:
  assumes sl: "small_slab c p z (j # fs) s" and fs: "fs \<noteq> []"
  shows "\<exists>t. kmem_cache_alloc c s = Some (Inr (p + of_nat (j * (z + 24)), t)) \<and> small_slab c p z fs t \<and>
    (\<exists>refs link. t = s\<lparr>kmem := patched p z j refs 0xDEADBEEF link (kmem s)\<rparr>)"
proof -
  let ?nxt = "rd64 (kmem s) (p + of_nat (j * (z + 24) + z))"
  let ?u = "buf_cnt (z + 24) - length (j # fs)"
  let ?t = "s\<lparr>kmem := patched p z j (of_nat ?u + 1) 0xDEADBEEF ?nxt (kmem s)\<rparr>"
  note g = small_slab_page[OF sl]
  have room: "Suc j * (z + 24) \<le> 4048" by (rule g(8)) simp
  have run: "kmem_cache_alloc c s = Some (Inr (p + of_nat (j * (z + 24)), ?t))"
    unfolding small_alloc_run[OF sl] take_small_run[OF sl] using fs by (simp del: of_nat_add of_nat_mult of_nat_diff)
  have chain: "rd64 (kmem s) (p + of_nat ((j # fs) ! i * (z + 24) + z)) = p + of_nat ((j # fs) ! Suc i * (z + 24))"
    if "Suc i < length (j # fs)" for i using sl that unfolding small_slab_def by blast
  have d: "distinct (j # fs)" "set (j # fs) \<subseteq> {..<buf_cnt (z + 24)}" using sl unfolding small_slab_def by blast+
  have "Suc ?u = buf_cnt (z + 24) - length fs" using g(5) by simp
  then have refs: "of_nat ?u + 1 = (of_nat (buf_cnt (z + 24) - length fs) :: u32)" by (metis of_nat_Suc add.commute)
  have "small_slab c p z fs ?t"
  proof (rule patched_slab[OF sl room fs _ _ _ refs])
    show "distinct fs" "set fs \<subseteq> {..<buf_cnt (z + 24)}" using d by simp_all
    show "?nxt = p + of_nat (hd fs * (z + 24))" using chain[of 0] fs by (cases fs) simp_all
    show "(if fs ! i = j then 0xDEADBEEF else rd64 (kmem s) (p + of_nat (fs ! i * (z + 24) + z))) =
      p + of_nat (fs ! Suc i * (z + 24))" if "Suc i < length fs" for i
      using chain[of "Suc i"] that d nth_mem[of i fs] by auto
  qed
  with run show ?thesis by blast
qed

text \<open>Release pushes the buffer back, as long as another buffer of the page is in use.\<close>

lemma page_base:
  assumes "4096 dvd unat p" "page_ok p" "i < 4096"
  shows "(p + of_nat i) AND NOT (PAGE_SIZE - 1) = p"
proof -
  let ?x = "p + of_nat i"
  obtain k where k: "unat p = 4096 * k" using assms(1) by blast
  have "unat (take_bit 12 ?x) = unat ?x mod 4096" by (simp add: unat_take_bit)
  also have "\<dots> = i" using page_nat[OF assms(2), of i] assms(3) k by simp
  finally have "take_bit 12 ?x = of_nat i" by (metis of_nat_unat64)
  moreover have "push_bit 12 (drop_bit 12 ?x) + take_bit 12 ?x = ?x" by (rule bits_ident)
  ultimately have "push_bit 12 (drop_bit 12 ?x) = p" by simp
  moreover have "w AND NOT (mask 12) = push_bit 12 (drop_bit 12 w)" for w :: u64
    by (rule bit_word_eqI) (auto simp: bit_and_iff bit_not_iff bit_mask_iff bit_push_bit_iff bit_drop_bit_eq)
  moreover have "PAGE_SIZE - 1 = (mask 12 :: u64)" by (simp add: mask_eq_exp_minus_1)
  ultimately show ?thesis by metis
qed

lemma small_free_step:
  assumes sl: "small_slab c p z fs s" and k: "k < buf_cnt (z + 24)" "k \<notin> set fs" and live: "length fs + 2 \<le> buf_cnt (z + 24)"
  shows "\<exists>t. kmem_cache_free c (p + of_nat (k * (z + 24))) s = Some (Inr t) \<and> small_slab c p z (k # fs) t"
proof -
  define u where "u = buf_cnt (z + 24) - length fs"
  let ?b = "p + of_nat (k * (z + 24))" and ?a = "p + of_nat (k * (z + 24) + z)" and ?h = "p + of_nat 4048"
  let ?fl = "p + of_nat (hd fs * (z + 24))"
  let ?m2 = "wr64 (p + of_nat 4072) ?b (wr64 ?a ?fl (kmem s))"
  let ?m = "wr32 (p + of_nat 4088) (of_nat u - 1) ?m2"
  note g = small_slab_page[OF sl] and f = small_slab_fields[OF sl]
  have room: "Suc k * (z + 24) \<le> 4048" by (rule buf_cnt_bounds(1)) (use k in simp_all)
  then have az: "k * (z + 24) + z + 24 \<le> 4048" by simp
  have o: "?h + 24 = p + of_nat 4072" "?h + 40 = p + of_nat 4088" "?h + 44 = p + of_nat 4092" "?b + of_nat z = ?a"
    "p + PAGE_SIZE - 48 = ?h" by simp_all
  have pm: "\<not> ?a < 4096" "\<not> p + of_nat 4072 < 4096" "\<not> p + of_nat 4088 < 4096" "\<not> p + of_nat 4092 < 4096"
    by (rule page_mapped[OF g(1)]; use az in simp)+
  have base: "?b AND NOT (PAGE_SIZE - 1) = p" by (rule page_base[OF g(2,1)]) (use az in simp)
  have ap: "apart (p + of_nat 4072) 8 ?a 8" "apart (p + of_nat 4088) 4 ?a 8" "apart (p + of_nat 4088) 4 (p + of_nat 4072) 8"
    using az by (intro page_apart[OF g(1)]; simp)+
  have comm: "wr64 (p + of_nat 4072) ?b (wr64 ?a ?fl (kmem s)) = wr64 ?a ?fl (wr64 (p + of_nat 4072) ?b (kmem s))"
    by (rule wr_wr_apart[OF ap(1)])
  then have patched: "?m = patched p z k (of_nat u - 1) ?fl ?b (kmem s)" by (simp only: patched_def)
  have r: "rd32 (kmem s) (p + of_nat 4088) = of_nat u" "rd32 (kmem s) (p + of_nat 4092) = of_nat (buf_cnt (z + 24))"
    using sl unfolding small_slab_def u_def by blast+
  have r40: "rd32 ?m2 (p + of_nat 4088) = of_nat u" using ap(2,3) r(1) by (simp only: rd_wr_apart)
  have r44: "rd32 ?m (p + of_nat 4092) = of_nat (buf_cnt (z + 24))" unfolding patched patched_fields[OF g(1) room] by (rule r(2))
  have ub: "Suc (u - 1) = u" "2 \<le> u" "u < buf_cnt (z + 24)" using live g(4,5,7) by (simp_all add: u_def)
  have u1: "of_nat u - 1 = (of_nat (u - 1) :: u32)" using ub(1) by (metis of_nat_Suc add_diff_cancel_left')
  have small: "unat (of_nat n :: u32) = n" if "n \<le> 4048" for n using that by (simp add: unat_of_nat)
  have "u - 1 \<le> 4048" "u - 1 \<noteq> 0" using ub g(6) by linarith+
  then have nz: "of_nat u - 1 \<noteq> (0 :: u32)" using small[of "u - 1"] unfolding u1 by (metis unat_0)
  have ncnt: "of_nat u - 1 \<noteq> (of_nat (buf_cnt (z + 24)) - 1 :: u32)"
    using small[of u] small[of "buf_cnt (z + 24)"] ub g(6) by auto
  have st: "stores [(?a, ?fl), (p + of_nat 4072, ?b)] s = Inr (s\<lparr>kmem := ?m2\<rparr>)"
    using pm(1,2) by (simp add: st64_def del: of_nat_add of_nat_mult of_nat_numeral)
  have ar: "add_refs ?h (- 1) (s\<lparr>kmem := ?m2\<rparr>) = Inr (of_nat u - 1, s\<lparr>kmem := ?m\<rparr>)"
    unfolding add_refs_def o ld32_def st32_def kmem_update if_not_P[OF pm(3)] r40 by simp
  have ld: "ld64 s ?a = Inr (rd64 (kmem s) ?a)" unfolding ld64_def if_not_P[OF pm(1)] ..
  have fs: "free_small ?b (of_nat z) s = Inr ((?h, True), s\<lparr>kmem := ?m\<rparr>)"
    unfolding free_small_def base Let_def o(5) o(4) ld bindR_Inr f(4) unfolding o st bindR_Inr ar using nz by simp
  have l40: "ld32 (s\<lparr>kmem := ?m\<rparr>) (?h + 40) = Inr (of_nat u - 1)" 
    unfolding o ld32_def kmem_update if_not_P[OF pm(3)] rd32_wr32 ..
  have l44: "ld32 (s\<lparr>kmem := ?m\<rparr>) (?h + 44) = Inr (of_nat (buf_cnt (z + 24)))"
    unfolding o ld32_def kmem_update if_not_P[OF pm(4)] r44 ..
  have "(of_nat z :: u64) \<le> 512" using g(3) by (simp add: word_le_nat_alt unat_of_nat)
  then have run: "kmem_cache_free c ?b s = Some (Inr (s\<lparr>kmem := ?m\<rparr>))"
    unfolding kmem_cache_free_def f(3) using fs l40 l44 ncnt by (simp del: of_nat_add of_nat_mult of_nat_numeral)
  have chain: "rd64 (kmem s) (p + of_nat (fs ! i * (z + 24) + z)) = p + of_nat (fs ! Suc i * (z + 24))"
    if "Suc i < length fs" for i using sl that unfolding small_slab_def by blast
  have d: "distinct fs" "set fs \<subseteq> {..<buf_cnt (z + 24)}" "fs \<noteq> []" using sl unfolding small_slab_def by blast+
  have "small_slab c p z (k # fs) (s\<lparr>kmem := ?m\<rparr>)" unfolding patched
  proof (rule patched_slab[OF sl room])
    show "k # fs \<noteq> []" "distinct (k # fs)" "set (k # fs) \<subseteq> {..<buf_cnt (z + 24)}" using d k by simp_all
    show "?b = p + of_nat (hd (k # fs) * (z + 24))" by simp
    show "of_nat u - 1 = (of_nat (buf_cnt (z + 24) - length (k # fs)) :: u32)" unfolding u1 by (simp add: u_def)
    show "(if (k # fs) ! i = k then ?fl else rd64 (kmem s) (p + of_nat ((k # fs) ! i * (z + 24) + z))) =
      p + of_nat ((k # fs) ! Suc i * (z + 24))" if "Suc i < length (k # fs)" for i
    proof (cases i)
      case 0
      then show ?thesis using d(3) by (simp add: hd_conv_nth)
    next
      case (Suc n)
      then have "fs ! n \<in> set fs" using that by simp
      then show ?thesis using chain[of n] that Suc k(2) by auto
    qed
  qed
  with run show ?thesis by blast
qed

subsection \<open>Growing a cache of small objects\<close>

lemma aligned_and:
  assumes "2 ^ k dvd unat (w :: u64)"
  shows "w AND NOT (mask k) = w"
proof -
  have "take_bit k w = 0" using assms by (metis unat_take_bit dvd_eq_mod_eq_0 unsigned_eq_0_iff)
  then have "\<not> bit w n" if "n < k" for n using that by (metis bit_0_eq bit_take_bit_iff bot_apply bot_bool_def)
  then show ?thesis by (intro bit_word_eqI) (auto simp: bit_and_iff bit_not_iff bit_mask_iff)
qed

lemma slab_header:
  assumes p: "page_ok p" "4096 dvd unat p"
  shows "(p + PAGE_SIZE - 48) AND NOT (8 - 1) = p + of_nat 4048"
proof -
  obtain k where k: "unat p = 4096 * k" using p(2) by blast
  have "unat (p + of_nat 4048) = unat p + 4048" by (rule page_nat[OF p(1)]) simp
  also have "\<dots> = 8 * (512 * k + 506)" unfolding k by simp
  finally have "unat (p + of_nat 4048) = 8 * (512 * k + 506)" .
  then have "2 ^ 3 dvd unat (p + of_nat 4048)" by simp
  from aligned_and[OF this] have "(p + of_nat 4048) AND NOT (mask 3) = p + of_nat 4048" .
  moreover have "(mask 3 :: u64) = 8 - 1" by (simp add: mask_eq_exp_minus_1)
  ultimately show ?thesis by (simp add: add_diff_eq add.commute)
qed

lemma grow_small_ok:
  assumes alloc: "page_alloc s = Inr (p, s1)" and p: "page_ok p" "4096 dvd unat p" and z: "z \<le> 512"
  obtains t where "grow_small c (of_nat z) s = Some (Inr (p + of_nat 4048, t))" "t = s1\<lparr>kmem := kmem t\<rparr>"
    "rd64 (kmem t) (p + of_nat 4072) = p" "rd32 (kmem t) (p + of_nat 4088) = 0"
    "rd32 (kmem t) (p + of_nat 4092) = of_nat (buf_cnt (z + 24))"
    "\<And>k. k < last_buf (z + 24) \<Longrightarrow> rd64 (kmem t) (p + of_nat (k * (z + 24) + z)) = p + of_nat (Suc k * (z + 24))"
    "\<And>x. 4096 \<le> unat (x - p) \<Longrightarrow> kmem t x = kmem s1 x"
proof -
  let ?h = "p + of_nat 4048" and ?e = "z + 24"
  define n where "n = last_buf ?e"
  let ?cnt = "of_nat (buf_cnt ?e) :: u32"
  let ?m = "wr32 (p + of_nat 4092) ?cnt (wr64 (p + of_nat 4080) p (wr64 (p + of_nat 4072) p
    (wr32 (p + of_nat 4088) 0 (wr64 (p + of_nat 4056) 0 (wr64 ?h 0 (kmem s1))))))"
  have o: "?h + 8 = p + of_nat 4056" "?h + 40 = p + of_nat 4088" "?h + 24 = p + of_nat 4072" "?h + 32 = p + of_nat 4080"
    "?h + 44 = p + of_nat 4092" by simp_all
  have pm: "\<not> p + of_nat i < 4096" if "i < 8192" for i using page_mapped[OF p(1) that] .
  have div: "(ucast ((PAGE_SIZE - 48) div (of_nat z + 24) :: u64) :: u32) = ?cnt"
  proof -
    have "(of_nat z + 24 :: u64) = of_nat ?e" by simp
    moreover have "unat (of_nat ?e :: u64) = ?e" using z by (simp only: unat_of_nat) simp
    ultimately have "unat ((PAGE_SIZE - 48) div (of_nat z + 24) :: u64) = buf_cnt ?e" by (simp add: unat_div buf_cnt_def)
    then have "(PAGE_SIZE - 48) div (of_nat z + 24) = (of_nat (buf_cnt ?e) :: u64)" by (metis of_nat_unat64)
    moreover have "buf_cnt ?e < 2 ^ 32" unfolding buf_cnt_def by (rule order_le_less_trans[of _ 4048]) simp_all
    ultimately show ?thesis using ucast_frame_index(2) by metis
  qed
  have init: "bindR (stores [(?h, 0), (?h + 8, 0)] s1) (\<lambda>s. bindR (st32 (?h + 40) 0 s) (\<lambda>s.
       bindR (stores [(?h + 24, p), (?h + 32, p)] s) (st32 (?h + 44) ?cnt))) = Inr (s1\<lparr>kmem := ?m\<rparr>)"
    unfolding o using pm by (simp add: st64_def st32_def del: of_nat_numeral)
  obtain u where u: "link_bufs (p + of_nat (0 * ?e)) (of_nat z) (of_nat ?e) ?h (s1\<lparr>kmem := ?m\<rparr>) =
      Some (Inr (p + of_nat (n * ?e), u))" "u = s1\<lparr>kmem := kmem u\<rparr>"
    "\<And>j. j < n \<Longrightarrow> rd64 (kmem u) (p + of_nat (j * ?e + z)) = p + of_nat (Suc j * ?e)"
    "\<And>x. 4048 \<le> unat (x - p) \<Longrightarrow> kmem u x = ?m x"
    using link_bufs_ok[OF p(1), of ?e z 0 "s1\<lparr>kmem := ?m\<rparr>"] z unfolding n_def by auto
  have nb: "n * ?e < 4048" "4048 \<le> Suc n * ?e" using last_buf_bounds[of ?e] unfolding n_def by simp_all
  then have n1: "1 \<le> n" using z by (cases n) auto
  then have "?e \<le> n * ?e" by simp
  then have n24: "24 \<le> n * ?e" by (rule order_trans[rotated]) simp
  let ?q = "n * ?e - 8"
  have q: "p + of_nat (n * ?e) - 8 = p + of_nat ?q" 
  proof -
    have "(of_nat ?q :: u64) = of_nat (n * ?e) - 8" using n24 by (subst of_nat_diff) simp_all
    then show ?thesis by (simp only: add_diff_eq)
  qed
  let ?t = "u\<lparr>kmem := wr64 (p + of_nat ?q) 0 (kmem u)\<rparr>"
  have st: "st64 (p + of_nat (n * ?e) - 8) 0 u = Inr ?t"
    unfolding q st64_def using pm[of ?q] nb(1) by (simp only: if_False)
  have ef: "(of_nat z + 24 :: u64) = of_nat ?e" by simp
  have u0: "link_bufs p (of_nat z) (of_nat ?e) ?h (s1\<lparr>kmem := ?m\<rparr>) = Some (Inr (p + of_nat (n * ?e), u))"
    using u(1) by simp
  have run: "grow_small c (of_nat z) s = Some (Inr (?h, ?t))"
    unfolding grow_small_def alloc Let_def
    by (simp only: Option.bind.simps sum.case prod.case slab_header[OF p] div init) (simp only: ef u0 Option.bind.simps sum.case prod.case st)
  have hdr: "kmem ?t x = ?m x" if "4048 \<le> unat (x - p)" for x
    unfolding kmem_update using wr_below[of ?q 8 4048 x p 0 "kmem u"] u(4)[OF that] that nb(1) n24 by simp
  have hr: "rd k (kmem ?t) (p + of_nat i) = rd k ?m (p + of_nat i)" if "4048 \<le> i" "i + k \<le> 4096" for i k
  proof (rule rd_same[OF hdr])
    fix j assume "j < k"
    then show "4048 \<le> unat (p + of_nat i + of_nat j - p)"
      using page_offset[OF p(1), of "i + j"] that by (simp add: add.assoc)
  qed
  have ap: "apart (p + of_nat i) k (p + of_nat j) l" if "i + k \<le> 4096" "j + l \<le> 4096" "0 < k" "0 < l" "i + k \<le> j \<or> j + l \<le> i"
    for i k j l using page_apart[OF p(1) that] .
  show ?thesis
  proof (rule that[OF run])
    obtain m' where "u = s1\<lparr>kmem := m'\<rparr>" using u(2) by blast
    then show "?t = s1\<lparr>kmem := kmem ?t\<rparr>" by simp
    have a: "apart (p + of_nat 4072) 8 (p + of_nat 4080) 8" "apart (p + of_nat 4072) 8 (p + of_nat 4092) 4"
      "apart (p + of_nat 4088) 4 (p + of_nat 4092) 4" "apart (p + of_nat 4088) 4 (p + of_nat 4080) 8"
      "apart (p + of_nat 4088) 4 (p + of_nat 4072) 8" by (rule ap; simp)+
    have h: "rd64 (kmem ?t) (p + of_nat 4072) = rd64 ?m (p + of_nat 4072)"
      "rd32 (kmem ?t) (p + of_nat 4088) = rd32 ?m (p + of_nat 4088)"
      "rd32 (kmem ?t) (p + of_nat 4092) = rd32 ?m (p + of_nat 4092)" by (rule hr; simp)+
    show "rd64 (kmem ?t) (p + of_nat 4072) = p" unfolding h using a(1,2) by (simp only: rd_wr_apart rd64_wr64)
    show "rd32 (kmem ?t) (p + of_nat 4088) = 0" unfolding h using a(3-5) by (simp only: rd_wr_apart rd32_wr32)
    show "rd32 (kmem ?t) (p + of_nat 4092) = of_nat (buf_cnt ?e)" unfolding h by (simp only: rd32_wr32)
    show "rd64 (kmem ?t) (p + of_nat (k * ?e + z)) = p + of_nat (Suc k * ?e)" if "k < last_buf ?e" for k
    proof -
      have "Suc k * ?e \<le> n * ?e" using that unfolding n_def by (intro mult_le_mono1) simp
      then have "apart (p + of_nat (k * ?e + z)) 8 (p + of_nat ?q) 8" using nb(1) n24 by (intro ap) simp_all
      then have "rd64 (kmem ?t) (p + of_nat (k * ?e + z)) = rd64 (kmem u) (p + of_nat (k * ?e + z))"
        unfolding kmem_update by (rule rd_wr_apart)
      also have "\<dots> = p + of_nat (Suc k * ?e)" using u(3)[of k] that unfolding n_def by blast
      finally show ?thesis .
    qed
    show "kmem ?t x = kmem s1 x" if "4096 \<le> unat (x - p)" for x
    proof -
      have w: "wr k (p + of_nat i) v m x = m x" if "i + k \<le> 4096" for k i m and v :: "'a::len word"
        using wr_below[of i k 4096 x p v m] that \<open>4096 \<le> unat (x - p)\<close> by simp
      have "kmem ?t x = ?m x" using hdr[of x] that by simp
      also have "\<dots> = kmem s1 x" by (simp only: w)
      finally show ?thesis .
    qed
  qed
qed

text \<open>A cache with no slab yet, as \<open>kmem_cache_create\<close> and \<open>slab_alloc_init\<close> build it.\<close>

definition fresh_cache :: "u64 \<Rightarrow> nat \<Rightarrow> kheap \<Rightarrow> bool" where
  "fresh_cache c z s \<longleftrightarrow> 4096 \<le> unat c \<and> unat c + 168 \<le> 2 ^ 64 \<and> z \<le> 512 \<and>
     rd64 (kmem s) (c + of_nat 32) = c + of_nat 120 \<and> rd64 (kmem s) (c + of_nat 40) = c + of_nat 120 \<and>
     rd64 (kmem s) (c + of_nat 56) = of_nat z \<and> rd64 (kmem s) (c + of_nat 120) = c + of_nat 72"

lemma cache_field_apart:
  assumes "unat c + 168 \<le> 2 ^ 64" "i + n \<le> 168" "j + m \<le> 168" "0 < n" "0 < m" "i + n \<le> j \<or> j + m \<le> i"
  shows "apart (c + of_nat i) n (c + of_nat j) m"
proof (rule apart_nat)
  have u: "unat (c + of_nat i) = unat c + i" "unat (c + of_nat j) = unat c + j"
    using unat_add_field[of c i] unat_add_field[of c j] assms by simp_all
  show "unat (c + of_nat i) + n \<le> 2 ^ 64" "unat (c + of_nat j) + m \<le> 2 ^ 64"
    using assms unfolding u by linarith+
  show "unat (c + of_nat i) + n \<le> unat (c + of_nat j) \<or> unat (c + of_nat j) + m \<le> unat (c + of_nat i)"
    using assms(6) unfolding u by linarith
qed (use assms in simp_all)

lemma append_first_slab:
  assumes fc: "fresh_cache c z s" and p: "page_ok p" "unat c + 168 \<le> unat p \<or> unat p + 4096 \<le> unat c"
  defines "h \<equiv> p + of_nat 4048"
  shows "append_slab c h s = Inr (s\<lparr>kmem := wr64 (c + of_nat 40) h (wr64 (p + of_nat 4056) (c + of_nat 120)
    (wr64 (c + of_nat 120) h (wr64 h (c + of_nat 72) (wr64 (c + of_nat 80) h (kmem s)))))\<rparr>)"
proof -
  let ?m1 = "wr64 (c + of_nat 80) h (kmem s)"
  let ?m4 = "wr64 (p + of_nat 4056) (c + of_nat 120) (wr64 (c + of_nat 120) h (wr64 h (c + of_nat 72) ?m1))"
  have c: "4096 \<le> unat c" "unat c + 168 \<le> 2 ^ 64" using fc by (simp_all add: fresh_cache_def)
  have cm: "\<not> c + of_nat i < 4096" if "i < 168" for i
    using unat_add_field[of c i] that c by (simp add: word_less_nat_alt)
  have hm: "\<not> h < 4096" "\<not> p + of_nat 4056 < 4096" unfolding h_def by (rule page_mapped[OF p(1)]; simp)+
  have o: "c + 32 = c + of_nat 32" "c + 40 = c + of_nat 40" "c + of_nat 72 + 8 = c + of_nat 80" "h + 8 = p + of_nat 4056"
    by (simp_all add: h_def)
  have f: "rd64 (kmem s) (c + of_nat 32) = c + of_nat 120" "rd64 (kmem s) (c + of_nat 40) = c + of_nat 120"
    "rd64 (kmem s) (c + of_nat 120) = c + of_nat 72" using fc unfolding fresh_cache_def by blast+
  have cc: "apart (c + of_nat i) 8 (c + of_nat j) 8" if "i + 8 \<le> 168" "j + 8 \<le> 168" "i + 8 \<le> j \<or> j + 8 \<le> i" for i j
    using cache_field_apart[OF c(2) that(1,2) _ _ that(3)] by simp
  have cp: "apart (c + of_nat i) 8 (p + of_nat j) 8" if "i + 8 \<le> 168" "j + 8 \<le> 4096" for i j
    using cache_apart[OF p(1) c(2) p(2) that] by simp
  have "apart (c + of_nat 120) 8 (c + of_nat 80) 8" by (rule cc) simp_all
  then have r1: "rd64 ?m1 (c + of_nat 120) = c + of_nat 72" using f(3) by (simp only: rd_wr_apart)
  have r4: "rd64 ?m4 (c + of_nat i) = rd64 (kmem s) (c + of_nat i)" if "i \<in> {32, 40}" for i
  proof -
    have "apart (c + of_nat i) 8 (p + of_nat 4056) 8" "apart (c + of_nat i) 8 (c + of_nat 120) 8"
      "apart (c + of_nat i) 8 h 8" "apart (c + of_nat i) 8 (c + of_nat 80) 8"
      unfolding h_def using that by (intro cp cc; auto)+
    then show ?thesis by (simp only: rd_wr_apart)
  qed
  have m: "\<not> c + of_nat 120 < 4096" "\<not> c + of_nat 80 < 4096" "\<not> c + of_nat 32 < 4096" "\<not> c + of_nat 40 < 4096"
    by (rule cm; simp)+
  have ld: "ld64 s (c + of_nat 120) = Inr (c + of_nat 72)" "ld64 (s\<lparr>kmem := ?m1\<rparr>) (c + of_nat 120) = Inr (c + of_nat 72)"
    "st64 (c + of_nat 80) h s = Inr (s\<lparr>kmem := ?m1\<rparr>)"
    unfolding ld64_def st64_def kmem_update if_not_P[OF m(1)] if_not_P[OF m(2)] f(3) r1 by (rule refl)+
  have sts: "stores [(h, c + of_nat 72), (c + of_nat 120, h), (p + of_nat 4056, c + of_nat 120)] (s\<lparr>kmem := ?m1\<rparr>) =
      Inr (s\<lparr>kmem := ?m4\<rparr>)"
    using m(1) hm by (simp add: st64_def del: of_nat_numeral)
  have ins: "insert_slab (c + of_nat 120) h s = Inr (s\<lparr>kmem := ?m4\<rparr>)"
    unfolding insert_slab_def ld bindR_Inr o sts by (rule refl)
  have r: "rd64 ?m4 (c + of_nat 32) = c + of_nat 120" "rd64 ?m4 (c + of_nat 40) = c + of_nat 120"
    using r4[of 32] r4[of 40] f(1,2) by simp_all
  have ld': "ld64 s (c + of_nat 32) = Inr (c + of_nat 120)" "ld64 (s\<lparr>kmem := ?m4\<rparr>) (c + of_nat 32) = Inr (c + of_nat 120)"
    "ld64 (s\<lparr>kmem := ?m4\<rparr>) (c + of_nat 40) = Inr (c + of_nat 120)"
    unfolding ld64_def kmem_update if_not_P[OF m(3)] if_not_P[OF m(4)] f(1) r by (rule refl)+
  show ?thesis unfolding append_slab_def o ld' bindR_Inr ins
    using m(4) by (simp add: st64_def del: of_nat_numeral)
qed


text \<open>The first slab of a cache: the whole of \<open>kmem_cache_grow\<close> on a small cache without slabs.\<close>

lemma grow_fresh:
  assumes fc: "fresh_cache c z s" and alloc: "page_alloc s = Inr (p, s1)" and p: "page_ok p" "4096 dvd unat p"
    and cp: "unat c + 168 \<le> unat p \<or> unat p + 4096 \<le> unat c"
  shows "\<exists>t. kmem_cache_grow c s = Some (Inr t) \<and> small_slab c p z [0..<buf_cnt (z + 24)] t \<and> t = s1\<lparr>kmem := kmem t\<rparr>"
proof -
  have z: "z \<le> 512" and c: "4096 \<le> unat c" "unat c + 168 \<le> 2 ^ 64" using fc by (simp_all add: fresh_cache_def)
  have m1: "kmem s1 = kmem s" using alloc by (auto simp: page_alloc_def bindR_def split: sum.splits)
  obtain t where t: "grow_small c (of_nat z) s = Some (Inr (p + of_nat 4048, t))"
    "rd64 (kmem t) (p + of_nat 4072) = p" "rd32 (kmem t) (p + of_nat 4088) = 0"
    "rd32 (kmem t) (p + of_nat 4092) = of_nat (buf_cnt (z + 24))"
    "\<And>k. k < last_buf (z + 24) \<Longrightarrow> rd64 (kmem t) (p + of_nat (k * (z + 24) + z)) = p + of_nat (Suc k * (z + 24))"
    "\<And>x. 4096 \<le> unat (x - p) \<Longrightarrow> kmem t x = kmem s1 x" "t = s1\<lparr>kmem := kmem t\<rparr>"
    using grow_small_ok[OF alloc p z, of c] by metis
  have same: "rd64 (kmem t) (c + of_nat i) = rd64 (kmem s) (c + of_nat i)" if "i + 8 \<le> 168" for i
  proof -
    have "apart (c + of_nat i) 8 (p + of_nat 0) 4096"
      using cache_apart[OF p(1) c(2) cp, of i 8 0 4096] that by simp
    then have "4096 \<le> unat (c + of_nat i + of_nat k - p)" if "k < 8" for k
      using apart_offset[of "c + of_nat i" 8 "p + of_nat 0" 4096 k] that by (simp add: word_less_nat_alt)
    then show ?thesis using t(6) m1 by (intro rd_cong) simp
  qed
  have fc': "fresh_cache c z t"
    using fc same[of 32] same[of 40] same[of 56] same[of 120] unfolding fresh_cache_def by simp
  let ?h = "p + of_nat 4048"
  let ?m = "wr64 (c + of_nat 40) ?h (wr64 (p + of_nat 4056) (c + of_nat 120)
    (wr64 (c + of_nat 120) ?h (wr64 ?h (c + of_nat 72) (wr64 (c + of_nat 80) ?h (kmem t)))))"
  have "(of_nat z :: u64) \<le> 512" using z by (simp add: word_le_nat_alt unat_of_nat)
  moreover have "ld64 s (c + 56) = Inr (of_nat z)"
    using fc unat_add_field[of c 56] c unfolding fresh_cache_def by (simp add: ld64_def word_less_nat_alt)
  ultimately have run: "kmem_cache_grow c s = Some (Inr (t\<lparr>kmem := ?m\<rparr>))"
    unfolding kmem_cache_grow_def using t(1) append_first_slab[OF fc' p(1) cp] by (simp del: of_nat_numeral)
  have page: "rd n ?m (p + of_nat i) = rd n (kmem t) (p + of_nat i)"
    if "i + n \<le> 4096" "0 < n" "i + n \<le> 4048 \<or> 4064 \<le> i" for i n
  proof -
    have "apart (p + of_nat i) n (p + of_nat 4056) 8" "apart (p + of_nat i) n ?h 8"
      using that by (intro page_apart[OF p(1)]; auto)+
    moreover have "apart (p + of_nat i) n (c + of_nat j) 8" if "j + 8 \<le> 168" for j
      using cache_apart[OF p(1) c(2) cp that \<open>i + n \<le> 4096\<close> _ \<open>0 < n\<close>] by (subst apart_sym) simp
    then have "apart (p + of_nat i) n (c + of_nat 40) 8" "apart (p + of_nat i) n (c + of_nat 120) 8"
      "apart (p + of_nat i) n (c + of_nat 80) 8" by (simp_all del: of_nat_numeral)
    ultimately show ?thesis by (simp only: rd_wr_apart)
  qed
  have cache: "rd64 ?m (c + of_nat i) = rd64 (kmem t) (c + of_nat i)" if "i \<in> {32, 56}" for i
  proof -
    have "apart (c + of_nat i) 8 (p + of_nat 4056) 8" "apart (c + of_nat i) 8 ?h 8"
      using that by (intro cache_apart[OF p(1) c(2) cp]; auto)+
    moreover have "apart (c + of_nat i) 8 (c + of_nat 40) 8" "apart (c + of_nat i) 8 (c + of_nat 120) 8"
      "apart (c + of_nat i) 8 (c + of_nat 80) 8"
      using that by (intro cache_field_apart[OF c(2)]; auto)+
    ultimately show ?thesis by (simp only: rd_wr_apart)
  qed
  have ne: "c + of_nat 120 \<noteq> ?h"
  proof
    assume "c + of_nat 120 = ?h"
    moreover have "unat (c + of_nat 120) = unat c + 120" by (rule unat_add_field) (use c in simp)
    moreover have "unat ?h = unat p + 4048" by (rule page_nat[OF p(1)]) simp
    ultimately have "unat c + 120 = unat p + 4048" by argo
    then show False using cp by simp
  qed
  have "rd64 ?m (p + of_nat 4072) = rd64 (kmem t) (p + of_nat 4072)" "rd32 ?m (p + of_nat 4088) = rd32 (kmem t) (p + of_nat 4088)"
    "rd32 ?m (p + of_nat 4092) = rd32 (kmem t) (p + of_nat 4092)" by (rule page; simp)+
  then have hdr: "rd64 ?m (p + of_nat 4072) = p" "rd32 ?m (p + of_nat 4088) = 0"
    "rd32 ?m (p + of_nat 4092) = of_nat (buf_cnt (z + 24))" using t(2-4) by argo+
  have links: "rd64 ?m (p + of_nat (k * (z + 24) + z)) = p + of_nat (Suc k * (z + 24))" if "k < last_buf (z + 24)" for k
  proof -
    have "Suc k * (z + 24) \<le> last_buf (z + 24) * (z + 24)" using that by (intro mult_le_mono1) simp
    then have "k * (z + 24) + z + 24 < 4048" using last_buf_bounds(1)[of "z + 24"] by simp
    then have "rd64 ?m (p + of_nat (k * (z + 24) + z)) = rd64 (kmem t) (p + of_nat (k * (z + 24) + z))"
      by (intro page) simp_all
    then show ?thesis using t(5)[OF that] by argo
  qed
  have pos: "0 < buf_cnt (z + 24)" using z by (simp add: buf_cnt_def div_greater_zero_iff)
  have chain: "rd64 ?m (p + of_nat ([0..<buf_cnt (z + 24)] ! i * (z + 24) + z)) = p + of_nat ([0..<buf_cnt (z + 24)] ! Suc i * (z + 24))"
    if "Suc i < length [0..<buf_cnt (z + 24)]" for i
    using links[of i] buf_cnt_bounds(2)[of "z + 24" i] that by simp
  have "small_slab c p z [0..<buf_cnt (z + 24)] (t\<lparr>kmem := ?m\<rparr>)"
    unfolding small_slab_def kmem_update using p c cp z hdr pos cache[of 32] cache[of 56] fc' ne chain
    unfolding fresh_cache_def by (simp add: hd_upt atLeast0LessThan del: of_nat_mult of_nat_add)
  moreover have "t\<lparr>kmem := ?m\<rparr> = s1\<lparr>kmem := kmem (t\<lparr>kmem := ?m\<rparr>)\<rparr>" by (subst t(7)) simp
  ultimately show ?thesis using run by blast
qed


subsection \<open>Properties of the slab allocator\<close>

lemma alloc_fresh:
  assumes fc: "fresh_cache c z s" and g: "kmem_cache_grow c s = Some (Inr t)" and sl: "small_slab c p z fs t"
  shows "kmem_cache_alloc c s = kmem_cache_alloc c t"
proof -
  have c: "4096 \<le> unat c" "unat c + 168 \<le> 2 ^ 64" "z \<le> 512" using fc by (simp_all add: fresh_cache_def)
  have ld: "ld64 s (c + 40) = Inr (c + 120)" "ld64 s (c + 32) = Inr (c + 120)"
    using fc unat_add_field[of c 40] unat_add_field[of c 32] c unfolding fresh_cache_def
    by (simp_all add: ld64_def word_less_nat_alt)
  note f = small_slab_fields[OF sl] and cnt = small_counts[OF small_slab_page(7,6)[OF sl]]
  have full: "slab_full (p + of_nat 4048) t = Inr False" unfolding slab_full_def f(5,6) using cnt(1) by simp
  have "(of_nat z :: u64) \<le> 512" using c(3) by (simp add: word_le_nat_alt unat_of_nat)
  then show ?thesis unfolding small_alloc_run[OF sl] unfolding kmem_cache_alloc_def ld bindR_Inr using g full
    by (simp add: f(1,3) del: of_nat_numeral)
qed

text \<open>A run of allocations from one cache.\<close>

fun cache_allocs :: "u64 \<Rightarrow> nat \<Rightarrow> kheap \<Rightarrow> (u64 list \<times> kheap) res option" where
  "cache_allocs c 0 s = Some (Inr ([], s))"
| "cache_allocs c (Suc n) s =
     bindX (kmem_cache_alloc c s) (\<lambda>(b, s). bindX (cache_allocs c n s) (\<lambda>(bs, s). Some (Inr (b # bs, s))))"

lemma cache_allocs_run:
  assumes "small_slab c p z (js @ fs) s" "fs \<noteq> []"
  shows "\<exists>t. cache_allocs c (length js) s = Some (Inr (map (\<lambda>k. p + of_nat (k * (z + 24))) js, t)) \<and>
    small_slab c p z fs t"
  using assms
proof (induction js arbitrary: s)
  case (Cons j js)
  then obtain t where t: "kmem_cache_alloc c s = Some (Inr (p + of_nat (j * (z + 24)), t))" "small_slab c p z (js @ fs) t"
    using small_alloc_step[of c p z j "js @ fs" s] by auto
  show ?case using Cons.IH[OF t(2) Cons.prems(2)] t(1) by (auto simp del: of_nat_mult of_nat_add)
qed simp

text \<open>
  C6. A new cache of small objects carves the frame it is given: the first \<open>n\<close> allocations,
  as long as the page has more buffers than that, end without a fault and return
  consecutive, disjoint buffers that all lie below the slab header of the page.
\<close>

theorem kmem_cache_alloc_carves:
  assumes "fresh_cache c z s" "page_alloc s = Inr (p, s1)" "page_ok p" "4096 dvd unat p"
    "unat c + 168 \<le> unat p \<or> unat p + 4096 \<le> unat c" "n < 4048 div (z + 24)"
  shows "\<exists>bufs t. cache_allocs c n s = Some (Inr (bufs, t)) \<and> length bufs = n \<and>
    (\<forall>k<n. unat (bufs ! k) = unat p + k * (z + 24)) \<and>
    (\<forall>k<n. unat (bufs ! k) + z \<le> unat p + 4048) \<and>
    (\<forall>i<n. \<forall>k<i. unat (bufs ! k) + z \<le> unat (bufs ! i))"
proof -
  obtain t where t: "kmem_cache_grow c s = Some (Inr t)" "small_slab c p z [0..<buf_cnt (z + 24)] t"
    using grow_fresh[OF assms(1-5)] by blast
  have n: "n < buf_cnt (z + 24)" using assms(6) by (simp add: buf_cnt_def)
  have "[0..<buf_cnt (z + 24)] = [0..<n] @ [n..<buf_cnt (z + 24)]" using n upt_add_eq_append[of 0 n "buf_cnt (z + 24) - n"] by simp
  with t(2) have t': "small_slab c p z ([0..<n] @ [n..<buf_cnt (z + 24)]) t" by simp
  let ?bufs = "map (\<lambda>k. p + of_nat (k * (z + 24))) [0..<n]"
  have "cache_allocs c n s = cache_allocs c n t \<or> n = 0"
    using alloc_fresh[OF assms(1) t] by (cases n) simp_all
  then have run: "\<exists>u. cache_allocs c n s = Some (Inr (?bufs, u))"
    using cache_allocs_run[OF t'] n by (cases "n = 0") auto
  have lt: "k * (z + 24) + z + 24 \<le> 4048" if "k < n" for k
    using buf_cnt_bounds(1)[of "z + 24" k] that n by simp
  then have at: "unat (?bufs ! k) = unat p + k * (z + 24)" if "k < n" for k
    using page_nat[OF assms(3), of "k * (z + 24)"] that lt[OF that] by (simp del: of_nat_mult of_nat_add)
  have order: "k * (z + 24) + z \<le> i * (z + 24)" if "k < i" for k i
    using that mult_le_mono1[of "Suc k" i "z + 24"] by simp
  have "(\<forall>k<n. unat (?bufs ! k) + z \<le> unat p + 4048) \<and> (\<forall>i<n. \<forall>k<i. unat (?bufs ! k) + z \<le> unat (?bufs ! i))"
  proof (intro conjI allI impI)
    show "unat (?bufs ! k) + z \<le> unat p + 4048" if "k < n" for k using at[OF that] lt[OF that] by linarith
    show "unat (?bufs ! k) + z \<le> unat (?bufs ! i)" if "i < n" "k < i" for i k
      using at[of k] at[of i] that order[OF that(2)] by linarith
  qed
  moreover obtain u where "cache_allocs c n s = Some (Inr (?bufs, u))" using run by blast
  ultimately show ?thesis using at by (intro exI[of _ ?bufs] exI[of _ u]) (simp del: of_nat_mult of_nat_add)
qed


definition slab_example :: kheap where
  "slab_example = ht_example\<lparr>kmem := wr64 0x2020 0x2078 (wr64 0x2028 0x2078 (wr64 0x2038 512 (wr64 0x2078 0x2048 (\<lambda>_. 0)))),
     kpager := (kpager ht_example)\<lparr>hhdm := 0xffff800000000000, frames := pfa_example\<rparr>\<rparr>"

lemma slab_example_fresh: "fresh_cache 0x2000 512 slab_example"
proof -
  have "rd64 (kmem slab_example) 0x2020 = 0x2078" "rd64 (kmem slab_example) 0x2028 = 0x2078"
    "rd64 (kmem slab_example) 0x2038 = 512" "rd64 (kmem slab_example) 0x2078 = 0x2048" by code_simp+
  then show ?thesis by (simp add: fresh_cache_def)
qed

lemma slab_example_page: "\<exists>t. page_alloc slab_example = Inr (0xffff800000008000, t)"
proof -
  have "(case page_alloc slab_example of Inl e \<Rightarrow> False | Inr (a, t) \<Rightarrow> a = 0xffff800000008000)" by code_simp
  then show ?thesis by (auto split: sum.splits)
qed

theorem kmem_cache_alloc_carves_witness:
  "\<exists>bufs t. cache_allocs 0x2000 3 slab_example = Some (Inr (bufs, t)) \<and> length bufs = 3 \<and>
    (\<forall>k<3. unat (bufs ! k) = 0xffff800000008000 + k * 536)"
proof -
  obtain t where t: "page_alloc slab_example = Inr (0xffff800000008000, t)" using slab_example_page by blast
  have "page_ok 0xffff800000008000" "4096 dvd unat (0xffff800000008000 :: u64)" by (simp_all add: page_ok_def)
  then show ?thesis using kmem_cache_alloc_carves[OF slab_example_fresh t, of 3] by auto
qed


text \<open>
  A slab of small objects is a stack of free buffers: releasing a buffer that is in use,
  while another one of the page is too, ends without a fault, and the next allocation
  returns that same buffer and leaves the free list as it was.
\<close>

theorem kmem_cache_free_then_alloc:
  assumes "small_slab c p z fs s" "k < 4048 div (z + 24)" "k \<notin> set fs" "length fs + 2 \<le> 4048 div (z + 24)"
  shows "\<exists>t u. kmem_cache_free c (p + of_nat (k * (z + 24))) s = Some (Inr t) \<and> small_slab c p z (k # fs) t \<and>
    kmem_cache_alloc c t = Some (Inr (p + of_nat (k * (z + 24)), u)) \<and> small_slab c p z fs u"
proof -
  obtain t where t: "kmem_cache_free c (p + of_nat (k * (z + 24))) s = Some (Inr t)" "small_slab c p z (k # fs) t"
    using small_free_step[OF assms(1)] assms(2-4) unfolding buf_cnt_def by blast
  moreover have "fs \<noteq> []" using assms(1) by (simp add: small_slab_def)
  ultimately show ?thesis using small_alloc_step[OF t(2)] by blast
qed

theorem kmem_cache_free_then_alloc_witness:
  "\<exists>bufs s t u. cache_allocs 0x2000 3 slab_example = Some (Inr (bufs, s)) \<and>
    kmem_cache_free 0x2000 0xffff800000008218 s = Some (Inr t) \<and>
    kmem_cache_alloc 0x2000 t = Some (Inr (0xffff800000008218, u))"
proof -
  let ?p = "0xffff800000008000 :: u64"
  obtain t where t: "page_alloc slab_example = Inr (?p, t)" using slab_example_page by blast
  have "page_ok ?p" "4096 dvd unat ?p" by (simp_all add: page_ok_def)
  then obtain g where g: "kmem_cache_grow 0x2000 slab_example = Some (Inr g)" "small_slab 0x2000 ?p 512 [0..<buf_cnt 536] g"
    using grow_fresh[OF slab_example_fresh t] by auto
  have l: "[0..<buf_cnt 536] = [0, 1, 2] @ [3, 4, 5, 6]" "length [0, 1, 2 :: nat] = 3" by (simp_all add: buf_cnt_def upt_rec)
  have "small_slab 0x2000 ?p 512 ([0, 1, 2] @ [3, 4, 5, 6]) g" using g(2) unfolding l(1) .
  from cache_allocs_run[OF this] obtain s where
    s: "cache_allocs 0x2000 3 g = Some (Inr (map (\<lambda>k. ?p + of_nat (k * (512 + 24))) [0, 1, 2], s))"
    "small_slab 0x2000 ?p 512 [3, 4, 5, 6] s" unfolding l(2) by auto
  have "cache_allocs 0x2000 3 slab_example = cache_allocs 0x2000 3 g"
    using alloc_fresh[OF slab_example_fresh g] by (simp only: numeral_3_eq_3 cache_allocs.simps)
  with s(1) show ?thesis using kmem_cache_free_then_alloc[OF s(2), of 1] by auto
qed


subsection \<open>Size classes\<close>

lemma size_class_least:
  "k \<le> size_class sz k n \<and> size_class sz k n \<le> k + n \<and> (size_class sz k n < k + n \<longrightarrow> sz \<le> 2 * 2 ^ size_class sz k n) \<and>
   (\<forall>j. k \<le> j \<and> j < size_class sz k n \<longrightarrow> 2 * 2 ^ j < sz)"
proof (induction sz k n rule: size_class.induct)
  case (2 sz k n)
  show ?case
  proof (cases "2 * 2 ^ k < sz")
    case True
    have "2 * 2 ^ j < sz" if "k \<le> j" "j < size_class sz (Suc k) n" for j
      using 2[OF True] that True by (cases "j = k") auto
    then show ?thesis using 2[OF True] True by auto
  qed auto
qed auto

lemma unat_class: "j < 12 \<Longrightarrow> unat (2 * 2 ^ j :: u64) = 2 * 2 ^ j"
proof -
  assume j: "j < 12"
  have "(2 :: nat) ^ Suc j < 2 ^ 64" using j by (intro power_strict_increasing) simp_all
  moreover have "(2 * 2 ^ j :: u64) = of_nat (2 ^ Suc j)" by simp
  ultimately show ?thesis by (simp only: unat_of_nat) simp
qed

text \<open>
  \<open>kmalloc\<close> serves a request from the smallest of the twelve power-of-two caches whose
  objects are large enough, and returns a null pointer for a request above 4096 bytes.
\<close>

theorem kmalloc_size_class:
  assumes "length (caches s) = 12"
  shows "(4096 < unat sz \<longrightarrow> kmalloc sz s = Some (Inr (0, s))) \<and>
    (unat sz \<le> 4096 \<longrightarrow> (\<exists>k<12. kmalloc sz s = kmem_cache_alloc (caches s ! k) s \<and> unat sz \<le> 2 * 2 ^ k \<and>
       (\<forall>j<k. 2 * 2 ^ j < unat sz)))"
proof -
  define r where "r = size_class sz 0 12"
  have r: "r \<le> 12" "r < 12 \<longrightarrow> sz \<le> 2 * 2 ^ r" "\<And>j. j < r \<Longrightarrow> 2 * 2 ^ j < sz"
    using size_class_least[of 0 sz 12] unfolding r_def by simp_all
  have below: "2 * 2 ^ j < unat sz" if "j < r" for j
    using r(3)[OF that] unat_class[of j] that r(1) by (simp add: word_less_nat_alt)
  have fits: "unat sz \<le> 2 * 2 ^ r" if "r < 12" using r(2) that unat_class[OF that] by (simp add: word_le_nat_alt)
  have run: "kmalloc sz s = (if r < 12 then kmem_cache_alloc (caches s ! r) s else Some (Inr (0, s)))"
    using assms unfolding kmalloc_def r_def by (simp add: Let_def)
  have "4096 < unat sz \<longleftrightarrow> \<not> r < 12"
  proof
    assume "4096 < unat sz"
    moreover have "(2 :: nat) * 2 ^ r \<le> 2 * 2 ^ 11" if "r < 12" using that by (intro mult_le_mono2 power_increasing) simp_all
    ultimately show "\<not> r < 12" using fits by force
  next
    assume "\<not> r < 12"
    then have "r = 12" using r(1) by simp
    then show "4096 < unat sz" using below[of 11] by simp
  qed
  then show ?thesis using run fits below by auto
qed

theorem kmalloc_size_class_witness:
  "\<exists>k<12. kmalloc 100 (slab_example\<lparr>caches := map (\<lambda>i. 0x10000 + 168 * of_nat i) [0..<12]\<rparr>) =
      kmem_cache_alloc (0x10000 + 168 * of_nat k) (slab_example\<lparr>caches := map (\<lambda>i. 0x10000 + 168 * of_nat i) [0..<12]\<rparr>) \<and>
      100 \<le> (2 :: nat) * 2 ^ k"
proof -
  let ?s = "slab_example\<lparr>caches := map (\<lambda>i. 0x10000 + 168 * of_nat i) [0..<12]\<rparr>"
  have l: "length (caches ?s) = 12" by simp
  obtain k where k: "k < 12" "kmalloc 100 ?s = kmem_cache_alloc (caches ?s ! k) ?s" "100 \<le> (2 :: nat) * 2 ^ k"
    using kmalloc_size_class[OF l, of 100] by auto
  moreover have "caches ?s ! k = 0x10000 + 168 * of_nat k" using k(1) by simp
  ultimately show ?thesis by metis
qed

end
