(* ===== verification/Nya_Slab_Boot.thy ===== *)
theory Nya_Slab_Boot
  imports Nya_Slab_Alloc
begin

unbundle bit_operations_syntax

section \<open>The size caches after boot\<close>

text \<open>
  \<open>slab_alloc_init\<close> runs to its end and places the twelve size caches in one page. It leaves
  their lists of slabs unlinked, though: the tail slab of each cache has no predecessor, and
  the cache counts as full, so the first allocation from a cache grows it and stores through
  the null pointer.
\<close>

subsection \<open>Memory\<close>

lemma set_bytes_wr: "n < 2 ^ 64 \<Longrightarrow> set_bytes n a 0 m = wr n a (0 :: u64) m"
proof (rule ext)
  fix x
  assume n: "n < 2 ^ 64"
  have u: "unat (of_nat k :: u64) = k" if "k \<le> n" for k using that n by (simp add: unat_of_nat)
  have "set_bytes k a 0 m x = (if x - a < of_nat k then 0 else m x)" if "k \<le> n" for k
    using that
  proof (induction k)
    case (Suc k)
    have "x = a + of_nat k \<longleftrightarrow> unat (x - a) = k"
      using u[of k] Suc.prems by (metis add_diff_cancel_left' diff_add_cancel of_nat_unat64 add.commute Suc_leD)
    then show ?case using Suc u[of "Suc k"] u[of k] by (auto simp: word_less_nat_alt less_Suc_eq simp del: of_nat_Suc)
  qed simp
  from this[of n] show "set_bytes n a 0 m x = wr n a (0 :: u64) m x" by (simp add: wr_def)
qed

lemma kmemset_wr: "kmemset a 0 n s = s\<lparr>kmem := wr (unat n) a (0 :: u64) (kmem s)\<rparr>"
  using unat64[of n] by (simp add: kmemset_def memset_def set_bytes_wr)

lemma rd_zeroed:
  assumes "i + k \<le> n" "n < 2 ^ 64"
  shows "rd k (wr n a (0 :: u64) m) (a + of_nat i) = (0 :: 'a::len word)"
proof (rule bit_word_eqI)
  fix b
  have "wr n a (0 :: u64) m (a + of_nat i + of_nat (b div 8)) = 0" if "b < 8 * k"
  proof -
    have "i + b div 8 < n" using that assms(1) by (simp add: less_mult_imp_div_less mult.commute)
    then show ?thesis using wr_byte[of "i + b div 8" n a "0 :: u64" m] assms(2) by (simp add: add.assoc)
  qed
  then show "bit (rd k (wr n a (0 :: u64) m) (a + of_nat i) :: 'a word) b \<longleftrightarrow> bit (0 :: 'a word) b" by (auto simp: bit_rd)
qed

text \<open>Fields of one structure of 168 bytes that starts at \<open>c\<close>.\<close>

definition at_cache :: "u64 \<Rightarrow> bool" where
  "at_cache c \<longleftrightarrow> 4096 \<le> unat c \<and> unat c + 168 \<le> 2 ^ 64"

lemma at_cache_nat: "at_cache c \<Longrightarrow> i < 168 \<Longrightarrow> \<not> c + of_nat i < 4096"
  using unat_add_field[of c i] unfolding at_cache_def word_less_nat_alt by simp

lemma field_mapped: "at_cache c \<Longrightarrow> (numeral i :: nat) < 168 \<Longrightarrow> \<not> c + numeral i < 4096"
  using at_cache_nat[of c "numeral i"] by (simp only: of_nat_numeral not_False_eq_True)

lemma field_other:
  assumes "at_cache c" "(numeral i :: nat) + n \<le> 168" "(numeral j :: nat) + k \<le> 168" "0 < n" "0 < k"
    "(numeral i :: nat) + n \<le> numeral j \<or> (numeral j :: nat) + k \<le> numeral i"
  shows "rd n (wr k (c + numeral j) v m) (c + numeral i) = rd n m (c + numeral i)"
proof -
  have "apart (c + of_nat (numeral i)) n (c + of_nat (numeral j)) k"
    using assms(1) by (intro cache_field_apart assms(2-6)) (simp add: at_cache_def)
  then show ?thesis by (simp only: of_nat_numeral rd_wr_apart)
qed

lemma field_zeroed:
  assumes "(numeral j :: nat) \<le> numeral i" "(numeral i :: nat) + k \<le> numeral j + n" "n < 2 ^ 64"
  shows "rd k (wr n (c + numeral j) (0 :: u64) m) (c + numeral i) = (0 :: 'a::len word)"
proof -
  have e: "j + (i - j) = i" if "j \<le> i" for i j :: nat using that by simp
  have "numeral j + of_nat (numeral i - numeral j) = (of_nat (numeral j + (numeral i - numeral j)) :: u64)"
    by (simp only: of_nat_add of_nat_numeral)
  then have "c + numeral j + of_nat (numeral i - numeral j) = c + numeral i" unfolding e[OF assms(1)] by (simp only: add.assoc of_nat_numeral)
  moreover have "(numeral i :: nat) - numeral j + k \<le> n" using assms(1,2) by linarith
  ultimately show ?thesis using rd_zeroed[of "numeral i - numeral j" k n "c + numeral j" m] assms(3) by metis
qed

lemmas field_rules = field_mapped field_other field_zeroed

subsection \<open>A cache that cannot grow\<close>

text \<open>A size cache as \<open>slab_alloc_init\<close> leaves it, for objects of \<open>z\<close> bytes.\<close>

definition idle_cache :: "u64 \<Rightarrow> u64 \<Rightarrow> kheap \<Rightarrow> bool" where
  "idle_cache c z s \<longleftrightarrow> at_cache c \<and> rd64 (kmem s) (c + 32) = c + 120 \<and> rd64 (kmem s) (c + 40) = c + 72 \<and>
     rd64 (kmem s) (c + 56) = z \<and> rd64 (kmem s) (c + 120) = 0 \<and> rd32 (kmem s) (c + 112) = 0 \<and> rd32 (kmem s) (c + 116) = 0"

lemma page_rest_same:
  assumes "page_ok p" "unat c + 168 \<le> 2 ^ 64" "unat c + 168 \<le> unat p \<or> unat p + 4096 \<le> unat c"
    and "\<And>x. 4096 \<le> unat (x - p) \<Longrightarrow> m' x = m x" "i + n \<le> 168" "0 < n"
  shows "rd n m' (c + of_nat i) = rd n m (c + of_nat i)"
proof -
  have a: "apart (c + of_nat i) n (p + of_nat 0) 4096"
    by (rule cache_apart[OF assms(1-3)]) (use assms(5,6) in simp_all)
  have "4096 \<le> unat (c + of_nat i + of_nat k - p)" if "k < n" for k
    using apart_offset[OF a that] by (simp add: word_less_nat_alt)
  then show ?thesis using assms(4) by (intro rd_cong) simp
qed

lemma idle_alloc_faults:
  assumes idle: "idle_cache c (of_nat z) s" and z: "z \<le> 512"
    and alloc: "page_alloc s = Inr (p, s1)" and p: "page_ok p" "4096 dvd unat p"
    and cp: "unat c + 168 \<le> unat p \<or> unat p + 4096 \<le> unat c"
  shows "kmem_cache_alloc c s = Some (Inl NullDeref)"
proof -
  have c: "at_cache c" "unat c + 168 \<le> 2 ^ 64" using idle by (simp_all add: idle_cache_def at_cache_def)
  note mapped = field_mapped[OF c(1)]
  have m1: "kmem s1 = kmem s" using alloc by (auto simp: page_alloc_def bindR_def split: sum.splits)
  obtain t where t: "grow_small c (of_nat z) s = Some (Inr (p + of_nat 4048, t))"
    "\<And>x. 4096 \<le> unat (x - p) \<Longrightarrow> kmem t x = kmem s1 x" using grow_small_ok[OF alloc p z, of c] by metis
  have same: "rd64 (kmem t) (c + of_nat i) = rd64 (kmem s) (c + of_nat i)" if "i + 8 \<le> 168" for i
    using page_rest_same[OF p(1) c(2) cp t(2) that] m1 by simp
  have "append_slab c (p + of_nat 4048) t = Inl NullDeref"
    using idle same[of 32] same[of 120]
    by (simp add: append_slab_def insert_slab_def ld64_def st64_def mapped idle_cache_def)
  moreover have "(of_nat z :: u64) \<le> 512" using z by (simp add: word_le_nat_alt unat_of_nat)
  ultimately have grow: "kmem_cache_grow c s = Some (Inl NullDeref)"
    using idle t(1) by (simp add: kmem_cache_grow_def ld64_def mapped idle_cache_def)
  have "slab_full (c + 72) s = Inr True" using idle by (simp add: slab_full_def ld32_def mapped idle_cache_def add.assoc)
  moreover have "c + 72 \<noteq> 0" "c + 72 \<noteq> c + 120" using at_cache_nat[OF c(1), of 72] by auto
  ultimately show ?thesis using idle grow by (simp add: kmem_cache_alloc_def ld64_def mapped idle_cache_def)
qed

subsection \<open>The loop over the size caches\<close>

definition cache_image :: "u64 \<Rightarrow> u64 \<Rightarrow> u64 \<Rightarrow> mem \<Rightarrow> mem" where
  "cache_image b nm z m = wr64 (b + 48) nm (wr64 (b + 40) (b + 72) (wr64 (b + 32) (b + 120) (wr64 (b + 24) (b + 72)
     (wr 48 (b + 120) (0 :: u64) (wr 48 (b + 72) (0 :: u64) (wr64 (b + 56) z m))))))"

lemma cache_image_idle: "at_cache b \<Longrightarrow> kmem s = cache_image b nm z m \<Longrightarrow> idle_cache b z s"
  by (simp add: idle_cache_def cache_image_def field_rules)

lemma cache_image_same:
  assumes "168 \<le> unat (x - b)"
  shows "cache_image b nm z m x = m x"
proof -
  have "wr n (b + of_nat i) v m' x = m' x" if "i + n \<le> 168" for i n and v :: u64 and m'
    using wr_below[OF that _ assms] by simp
  from this[of 48 8] this[of 40 8] this[of 32 8] this[of 24 8] this[of 120 48] this[of 72 48] this[of 56 8]
  show ?thesis by (simp add: cache_image_def)
qed

lemma init_cache_run:
  assumes "kmem_cache_alloc (cache_cache s) s = Some (Inr (b, u))" "at_cache b" "i < length (caches u)"
  shows "init_cache nm i s = Some (Inr (u\<lparr>caches := (caches u)[i := b], kmem := cache_image b nm (2 * 2 ^ i) (kmem u)\<rparr>))"
  using assms by (simp add: init_cache_def st64_def kmemset_wr field_mapped cache_image_def)

text \<open>What lies outside the buffer is read as before.\<close>

lemma rd_outside:
  assumes "\<forall>x. z \<le> unat (x - b) \<longrightarrow> m' x = m x" "apart a n b z" "z < 2 ^ 64"
  shows "rd n m' a = rd n m a"
proof -
  have "unat (of_nat z :: u64) = z" using assms(3) by (simp add: unat_of_nat)
  then show ?thesis using apart_offset[OF assms(2)] assms(1) by (intro rd_cong) (auto simp: word_less_nat_alt not_less)
qed

lemma small_slab_frame:
  assumes sl: "small_slab c p z fs s" and j: "Suc j * (z + 24) \<le> 4048" "0 < z"
    and m: "\<forall>x. z \<le> unat (x - (p + of_nat (j * (z + 24)))) \<longrightarrow> kmem t x = kmem s x"
  shows "small_slab c p z fs t"
proof -
  note p = small_slab_page(1)[OF sl] and z = small_slab_page(3)[OF sl]
  let ?b = "p + of_nat (j * (z + 24))"
  have c: "unat c + 168 \<le> 2 ^ 64" "unat c + 168 \<le> unat p \<or> unat p + 4096 \<le> unat c" using sl unfolding small_slab_def by blast+
  have zl: "z < 2 ^ 64" using z by simp
  note outside = rd_outside[OF m _ zl]
  have cache: "apart (c + of_nat i) n ?b z" if "i + n \<le> 168" "0 < n" for i n
    using that j z by (intro cache_apart[OF p c]) auto
  have page: "apart (p + of_nat i) n ?b z"
    if "i + n \<le> 4096" "0 < n" "i + n \<le> j * (z + 24) \<or> j * (z + 24) + z \<le> i" for i n
    using that j z by (intro page_apart[OF p]) auto
  have hdr: "apart (p + of_nat i) n ?b z" if "i \<in> {4072, 4088, 4092}" "i + n \<le> 4096" "0 < n" for i n
    using that j(1) by (intro page) auto
  have link: "rd64 (kmem t) (p + of_nat (k * (z + 24) + z)) = rd64 (kmem s) (p + of_nat (k * (z + 24) + z))" if "k \<in> set fs" for k
  proof (rule outside[OF page])
    show "k * (z + 24) + z + 8 \<le> 4096" using small_slab_page(8)[OF sl that] by simp
    show "k * (z + 24) + z + 8 \<le> j * (z + 24) \<or> j * (z + 24) + z \<le> k * (z + 24) + z"
      using mult_le_mono1[of "Suc k" j "z + 24"] mult_le_mono1[of j k "z + 24"] by (cases "k < j") simp_all
  qed simp
  have chain: "rd64 (kmem t) (p + of_nat (fs ! i * (z + 24) + z)) = p + of_nat (fs ! Suc i * (z + 24))" if "Suc i < length fs" for i
    using sl that link[of "fs ! i"] unfolding small_slab_def by auto
  show ?thesis
    using sl chain outside[OF cache[of 40 8], where ?'a = 64] outside[OF cache[of 32 8], where ?'a = 64] outside[OF cache[of 56 8], where ?'a = 64]
      outside[OF hdr[of 4072 8], where ?'a = 64] outside[OF hdr[of 4088 4], where ?'a = 32] outside[OF hdr[of 4092 4], where ?'a = 32]
    unfolding small_slab_def by (simp del: of_nat_numeral of_nat_add of_nat_mult)
qed

abbreviation (input) cache_buf :: "u64 \<Rightarrow> nat \<Rightarrow> u64" where
  "cache_buf p k \<equiv> p + of_nat (k * 192)"

lemma cache_buf_at: "page_ok p \<Longrightarrow> k < 21 \<Longrightarrow> at_cache (cache_buf p k) \<and> unat (cache_buf p k) = unat p + k * 192"
  using page_nat[of p "k * 192"] by (simp add: at_cache_def page_ok_def)

lemma init_step_same:
  assumes p: "page_ok p" and j: "j < 21" and k: "k < 21" "k \<noteq> j" and a: "a + n \<le> 168" "0 < n"
  shows "rd n (cache_image (cache_buf p j) nm z (patched p 168 j refs link fl m)) (cache_buf p k + of_nat a) = rd n m (cache_buf p k + of_nat a)"
proof -
  let ?b = "cache_buf p j" and ?m = "patched p 168 j refs link fl m"
  have e: "cache_buf p k + of_nat a = p + of_nat (k * 192 + a)" by simp
  have d: "k * 192 + 192 \<le> j * 192 \<or> j * 192 + 192 \<le> k * 192" using k(2) by linarith
  have "apart (p + of_nat (k * 192 + a)) n ?b 168" using a d j k(1) by (intro page_apart[OF p]) auto
  then have "rd n (cache_image ?b nm z ?m) (p + of_nat (k * 192 + a)) = rd n ?m (p + of_nat (k * 192 + a))"
    using cache_image_same[of _ ?b] by (intro rd_outside[of 168 ?b]) auto
  also have "\<dots> = rd n m (p + of_nat (k * 192 + a))" using a d j k(1) by (intro patched_page[OF p]) auto
  finally show ?thesis unfolding e .
qed

text \<open>One turn of the loop: the next buffer becomes a cache, and the caches made before are untouched.\<close>

lemma init_cache_step:
  assumes sl: "small_slab cc p 168 (j # fs) s" "fs \<noteq> []" and cc: "cache_cache s = cc" and i: "i < length (caches s)"
  shows "\<exists>t. init_cache nm i s = Some (Inr t) \<and> small_slab cc p 168 fs t \<and> cache_cache t = cc \<and> kpager t = kpager s \<and>
    caches t = (caches s)[i := cache_buf p j] \<and> idle_cache (cache_buf p j) (2 * 2 ^ i) t \<and>
    (\<forall>k z. k < 21 \<and> k \<noteq> j \<and> idle_cache (cache_buf p k) z s \<longrightarrow> idle_cache (cache_buf p k) z t)"
proof -
  note p = small_slab_page(1)[OF sl(1)]
  have "j < buf_cnt 192" using sl(1) by (simp add: small_slab_def)
  then have j: "j < 21" by (simp add: buf_cnt_def)
  let ?b = "cache_buf p j"
  obtain u refs link where u: "kmem_cache_alloc cc s = Some (Inr (?b, u))" "small_slab cc p 168 fs u"
    "u = s\<lparr>kmem := patched p 168 j refs 0xDEADBEEF link (kmem s)\<rparr>"
    using small_alloc_step[OF sl] by auto
  let ?t = "u\<lparr>caches := (caches u)[i := ?b], kmem := cache_image ?b nm (2 * 2 ^ i) (kmem u)\<rparr>"
  have run: "init_cache nm i s = Some (Inr ?t)"
    using init_cache_run[of s ?b u i nm] u(1,3) cc i cache_buf_at[OF p j] by simp
  have "small_slab cc p 168 fs ?t"
    by (rule small_slab_frame[OF u(2), of j]) (use j cache_image_same[of _ ?b] in auto)
  moreover have "idle_cache ?b (2 * 2 ^ i) ?t" using cache_buf_at[OF p j] by (intro cache_image_idle) simp_all
  moreover have "idle_cache (cache_buf p k) z ?t" if k: "k < 21" "k \<noteq> j" and old: "idle_cache (cache_buf p k) z s" for k z
  proof -
    note same = init_step_same[OF p j k, of _ _ nm "2 * 2 ^ i" refs "0xDEADBEEF" link "kmem s"]
    show ?thesis using old same[of 32 8, where ?'a = 64] same[of 40 8, where ?'a = 64] same[of 56 8, where ?'a = 64]
        same[of 120 8, where ?'a = 64] same[of 112 4, where ?'a = 32] same[of 116 4, where ?'a = 32]
      by (simp add: idle_cache_def u(3))
  qed
  ultimately show ?thesis using run u(3) cc by (intro exI[of _ ?t]) simp
qed

lemma init_caches_run:
  assumes "i + n \<le> 12" "small_slab cc p 168 [i..<21] s" "cache_cache s = cc" "length (caches s) = 12"
    and "\<forall>k<i. caches s ! k = cache_buf p k \<and> idle_cache (cache_buf p k) (2 * 2 ^ k) s"
  shows "\<exists>t. init_caches nm i n s = Some (Inr t) \<and> kpager t = kpager s \<and> length (caches t) = 12 \<and>
    (\<forall>k<i + n. caches t ! k = cache_buf p k \<and> idle_cache (cache_buf p k) (2 * 2 ^ k) t)"
  using assms
proof (induction n arbitrary: i s)
  case (Suc n)
  have l: "[i..<21] = i # [Suc i..<21]" "[Suc i..<21] \<noteq> []" "i < length (caches s)" using Suc.prems(1,4) by (simp_all add: upt_rec)
  obtain t where t: "init_cache nm i s = Some (Inr t)" "small_slab cc p 168 [Suc i..<21] t" "cache_cache t = cc" "kpager t = kpager s"
    "caches t = (caches s)[i := cache_buf p i]" "idle_cache (cache_buf p i) (2 * 2 ^ i) t"
    "\<forall>k z. k < 21 \<and> k \<noteq> i \<and> idle_cache (cache_buf p k) z s \<longrightarrow> idle_cache (cache_buf p k) z t"
    using init_cache_step[OF Suc.prems(2)[unfolded l(1)] l(2) Suc.prems(3) l(3)] by blast
  have "\<forall>k<Suc i. caches t ! k = cache_buf p k \<and> idle_cache (cache_buf p k) (2 * 2 ^ k) t"
    using Suc.prems(1,4,5) t(5-7) by (auto simp: less_Suc_eq)
  then obtain u where "init_caches nm (Suc i) n t = Some (Inr u)" "kpager u = kpager t" "length (caches u) = 12"
    "\<forall>k<Suc i + n. caches u ! k = cache_buf p k \<and> idle_cache (cache_buf p k) (2 * 2 ^ k) u"
    using Suc.IH[of "Suc i" t] Suc.prems(1,4) t(2,3,5) by auto
  then show ?case using t(1,4) by auto
qed simp

subsection \<open>From boot to the first allocation\<close>

lemma page_alloc_kmem: "page_alloc (s\<lparr>kmem := m\<rparr>) = (case page_alloc s of Inl e \<Rightarrow> Inl e | Inr (p, t) \<Rightarrow> Inr (p, t\<lparr>kmem := m\<rparr>))"
  by (auto simp: page_alloc_def bindR_def split: sum.splits)

lemma page_alloc_heap: "page_alloc s = Inr (p, t) \<Longrightarrow> cache_cache t = cache_cache s \<and> caches t = caches s \<and> kmem t = kmem s"
  by (auto simp: page_alloc_def bindR_def split: sum.splits)

lemma page_alloc_pager: "kpager s = kpager t \<Longrightarrow> page_alloc s = Inr (p, u) \<Longrightarrow> \<exists>v. page_alloc t = Inr (p, v) \<and> kpager v = kpager u"
  by (auto simp: page_alloc_def bindR_def split: sum.splits)

lemma slab_alloc_init_run:
  assumes cc: "at_cache (cache_cache s)" "length (caches s) = 12"
    and alloc: "page_alloc s = Inr (p, s1)" and p: "page_ok p" "4096 dvd unat p"
    and cp: "unat (cache_cache s) + 168 \<le> unat p \<or> unat p + 4096 \<le> unat (cache_cache s)"
  shows "\<exists>t. slab_alloc_init cc_name tmp_name s = Some (Inr t) \<and> kpager t = kpager s1 \<and> length (caches t) = 12 \<and>
    (\<forall>k<12. caches t ! k = cache_buf p k \<and> idle_cache (cache_buf p k) (2 * 2 ^ k) t)"
proof -
  let ?c = "cache_cache s"
  define m where "m = wr64 (?c + 48) cc_name (wr64 (?c + 40) (?c + 120) (wr32 (?c + 160) 0 (wr64 (?c + 144) 0 (wr64 (?c + 120) (?c + 72)
    (wr64 (?c + 120) (?c + 72) (wr32 (?c + 112) 0 (wr64 (?c + 96) 0 (wr64 (?c + 80) (?c + 120) (wr64 (?c + 72) 0 (wr64 (?c + 32) (?c + 120)
    (wr64 (?c + 24) (?c + 72) (wr 48 (?c + 120) (0 :: u64) (wr 48 (?c + 72) (0 :: u64) (wr64 (?c + 56) 168 (kmem s)))))))))))))))"
  let ?s = "s\<lparr>kmem := m\<rparr>"
  have off: "?c + 72 + 8 = ?c + 80" "?c + 72 + 24 = ?c + 96" "?c + 72 + 40 = ?c + 112" "?c + 120 + 24 = ?c + 144" "?c + 120 + 40 = ?c + 160"
    by simp_all
  have run: "slab_alloc_init cc_name tmp_name s = bindX (kmem_cache_grow ?c ?s) (init_caches tmp_name 0 12)"
    unfolding slab_alloc_init_def Let_def off by (simp add: st64_def st32_def kmemset_wr field_mapped[OF cc(1)] m_def)
  have "rd64 m (?c + 32) = ?c + 120" "rd64 m (?c + 40) = ?c + 120" "rd64 m (?c + 56) = 168" "rd64 m (?c + 120) = ?c + 72"
    unfolding m_def by (simp_all add: field_other[OF cc(1)])
  then have fresh: "fresh_cache ?c 168 ?s" using cc(1) by (simp add: fresh_cache_def at_cache_def)
  have alloc': "page_alloc ?s = Inr (p, s1\<lparr>kmem := m\<rparr>)" using alloc by (simp add: page_alloc_kmem)
  obtain t where t: "kmem_cache_grow ?c ?s = Some (Inr t)" "small_slab ?c p 168 [0..<buf_cnt (168 + 24)] t" "t = s1\<lparr>kmem := m, kmem := kmem t\<rparr>"
    using grow_fresh[OF fresh alloc' p cp] by blast
  have b: "buf_cnt (168 + 24) = 21" by (simp add: buf_cnt_def)
  have h: "cache_cache t = ?c" "length (caches t) = 12" "kpager t = kpager s1" using page_alloc_heap[OF alloc] cc(2) by (subst t(3), simp)+
  from init_caches_run[OF _ t(2)[unfolded b] h(1,2), of 12 tmp_name] show ?thesis using run t(1) h(3) by auto
qed

text \<open>
  C11. The first \<open>kmalloc\<close> after boot faults: \<open>slab_alloc_init\<close> returns with all twelve size
  caches in place, but a request of at most 512 bytes that follows, for which the frame
  allocator has another page, ends with a store through the null pointer instead of a buffer.
\<close>

theorem first_kmalloc_faults:
  assumes "at_cache (cache_cache s)" "length (caches s) = 12" "sz \<le> 512"
    and "page_alloc s = Inr (p, s1)" "page_ok p" "4096 dvd unat p"
    and "unat (cache_cache s) + 168 \<le> unat p \<or> unat p + 4096 \<le> unat (cache_cache s)"
    and "page_alloc s1 = Inr (q, s2)" "page_ok q" "4096 dvd unat q" "unat p + 4096 \<le> unat q \<or> unat q + 4096 \<le> unat p"
  shows "\<exists>t. slab_alloc_init cc_name tmp_name s = Some (Inr t) \<and> kmalloc sz t = Some (Inl NullDeref)"
proof -
  obtain t where t: "slab_alloc_init cc_name tmp_name s = Some (Inr t)" "kpager t = kpager s1" "length (caches t) = 12"
    "\<forall>k<12. caches t ! k = cache_buf p k \<and> idle_cache (cache_buf p k) (2 * 2 ^ k) t"
    using slab_alloc_init_run[OF assms(1,2,4-7)] by blast
  obtain v where v: "page_alloc t = Inr (q, v)" using page_alloc_pager[OF t(2)[symmetric] assms(8)] by blast
  let ?k = "size_class sz 0 12"
  have "\<not> 8 < ?k"
  proof
    assume "8 < ?k"
    then have "2 * 2 ^ 8 < sz" using size_class_least[of 0 sz 12] by blast
    then show False using assms(3) by (simp add: word_le_nat_alt word_less_nat_alt)
  qed
  then have k: "?k < 12" "2 * 2 ^ ?k \<le> (512 :: nat)" using power_increasing[of ?k 8 "2 :: nat"] by simp_all
  have b: "unat (cache_buf p ?k) = unat p + ?k * 192" using cache_buf_at[OF assms(5), of ?k] k(1) by simp
  have "idle_cache (cache_buf p ?k) (of_nat (2 * 2 ^ ?k)) t" using t(4) k(1) by simp
  from idle_alloc_faults[OF this k(2) v assms(9,10)] have "kmem_cache_alloc (cache_buf p ?k) t = Some (Inl NullDeref)"
    unfolding b using assms(11) k(1) by auto
  then show ?thesis using t k(1) by (auto simp: kmalloc_def Let_def)
qed

theorem first_kmalloc_faults_witness:
  "\<exists>t. slab_alloc_init 0 0 (slab_example\<lparr>cache_cache := 0x2000, caches := replicate 12 0\<rparr>) = Some (Inr t) \<and>
     kmalloc 100 t = Some (Inl NullDeref)"
proof -
  let ?s = "slab_example\<lparr>cache_cache := 0x2000, caches := replicate 12 0\<rparr>"
  let ?p = "0xffff800000008000 :: u64" and ?q = "0xffff800000009000 :: u64"
  have "case page_alloc ?s of Inl e \<Rightarrow> False | Inr (p, t) \<Rightarrow> p = ?p \<and> (case page_alloc t of Inl e \<Rightarrow> False | Inr (q, u) \<Rightarrow> q = ?q)"
    by code_simp
  then obtain t u where "page_alloc ?s = Inr (?p, t)" "page_alloc t = Inr (?q, u)"
    by (cases "page_alloc ?s"; cases "page_alloc (snd (projr (page_alloc ?s)))") auto
  moreover have "at_cache 0x2000" "page_ok ?p" "page_ok ?q" by (simp_all add: at_cache_def page_ok_def)
  ultimately show ?thesis using first_kmalloc_faults[of ?s 100 ?p t ?q u 0 0] by simp
qed

end
