(* ===== verification/Nya_Heap.thy ===== *)
theory Nya_Heap
  imports Nya_Slab_Table
begin

unbundle bit_operations_syntax

section \<open>The heap of the C library\<close>

text \<open>
  \<open>libc/stdlib/heap.c\<close>, and \<open>itoa.c\<close>. A free block is a packed \<open>heap_node_t\<close> of 12 bytes,
  \<open>next\<close> at 0 and the 32-bit \<open>size\<close> at 8; a block in use has a \<open>used_block_t\<close> of 8 bytes in
  front of it, \<open>magic\<close> at 0 and \<open>size\<close> at 4. The linker symbol \<open>kernel_end_virtual\<close> is a
  parameter. The lists are followed through memory, so the loops need not end.
\<close>

record uheap =
  hk :: kheap
  heap :: u64
  head :: u64
  heap_end :: u64

definition MAGIC :: u32 where
  "MAGIC = 0xDEADBEEF"

definition h_ld64 :: "uheap \<Rightarrow> u64 \<Rightarrow> u64 res" where "h_ld64 s a = ld64 (hk s) a"
definition h_ld32 :: "uheap \<Rightarrow> u64 \<Rightarrow> u32 res" where "h_ld32 s a = ld32 (hk s) a"

definition h_st64 :: "u64 \<Rightarrow> u64 \<Rightarrow> uheap \<Rightarrow> uheap res" where
  "h_st64 a v s = bindR (st64 a v (hk s)) (\<lambda>k. Inr (s\<lparr>hk := k\<rparr>))"

definition h_st32 :: "u64 \<Rightarrow> u32 \<Rightarrow> uheap \<Rightarrow> uheap res" where
  "h_st32 a v s = bindR (st32 a v (hk s)) (\<lambda>k. Inr (s\<lparr>hk := k\<rparr>))"

text \<open>The pointer sum \<open>head + PAGE_SIZE\<close> counts nodes, so the end lies 4096 nodes ahead.\<close>

definition heap_init :: "u64 \<Rightarrow> uheap \<Rightarrow> uheap res" where
  "heap_init kernel_end_virtual s =
     bindR (kalloc_frame (frames (kpager (hk s)))) (\<lambda>(f, fr).
     bindR (map_page f kernel_end_virtual 0 ((kpager (hk s))\<lparr>frames := fr\<rparr>)) (\<lambda>pg.
       let s = s\<lparr>hk := (hk s)\<lparr>kpager := pg\<rparr>, heap := kernel_end_virtual, head := kernel_end_virtual\<rparr>
       in bindR (h_st64 (head s) 0 s) (\<lambda>s.
          bindR (h_st32 (head s + 8) (4096 - 12) s) (\<lambda>s.
            Inr (s\<lparr>heap_end := head s + 4096 * 12\<rparr>)))))"

text \<open>The loop at the end of \<open>free\<close> only walks the list.\<close>

partial_function (option) walk_list :: "u64 \<Rightarrow> uheap \<Rightarrow> unit res option" where
  "walk_list tmp s =
     (if tmp = 0 then Some (Inr ())
      else bindX (Some (bindR (h_ld32 s (tmp + 8)) (\<lambda>_. h_ld64 s tmp))) (\<lambda>n. walk_list n s))"

definition free :: "u64 \<Rightarrow> uheap \<Rightarrow> uheap res option" where
  "free p s =
     (let ptr = p - 12
      in bindS (bindR (h_ld64 s ptr) (\<lambda>n.
                if n = 0 then h_st32 (ptr + 8) (ucast (heap_end s - p)) s
                else h_st32 (ptr + 8) (ucast (n - p)) s)) (\<lambda>s.
         bindX (walk_list (head s) s) (\<lambda>_. Some (Inr s))))"

definition split_block :: "u64 \<Rightarrow> u64 \<Rightarrow> u32 \<Rightarrow> uheap \<Rightarrow> (u64 \<times> uheap) res" where
  "split_block ptr sz psize s =
     (let tmp = ptr + 12 + sz
      in bindR (h_st32 (tmp + 8) (ucast (ucast psize - sz - 12 :: u64)) s) (\<lambda>s.
         bindR (h_ld64 s ptr) (\<lambda>n.
         bindR (h_st64 tmp n s) (\<lambda>s.
           let s = (if ptr = head s then s\<lparr>head := tmp\<rparr> else s)
           in bindR (h_st32 (ptr + 4) (ucast sz) s) (\<lambda>s.
              bindR (h_st32 ptr MAGIC s) (\<lambda>s. Inr (ptr + 8, s)))))))"

partial_function (option) malloc_from :: "u64 \<Rightarrow> u64 \<Rightarrow> uheap \<Rightarrow> (u64 \<times> uheap) res option" where
  "malloc_from ptr sz s =
     (if ptr = 0 then Some (Inr (0, s\<lparr>hk := (hk s)\<lparr>kconsole := kconsole (hk s) @ [''malloc error: OOM\<newline>'']\<rparr>\<rparr>))
      else bindX (Some (h_ld32 s (ptr + 8))) (\<lambda>psize.
        if psize \<noteq> MAGIC \<and> sz < ucast psize then Some (split_block ptr sz psize s)
        else bindX (Some (h_ld64 s ptr)) (\<lambda>n. malloc_from n sz s)))"

declare walk_list.simps [code] malloc_from.simps [code]

definition malloc :: "u64 \<Rightarrow> uheap \<Rightarrow> (u64 \<times> uheap) res option" where
  "malloc sz s = malloc_from (head s) sz s"

text \<open>
  \<open>itoa\<close> divides its argument down to zero and then ends without a \<open>return\<close>: its value, a
  pointer, is undefined.
\<close>

function itoa_loop :: "int \<Rightarrow> unit" where
  "itoa_loop num = (let num = (if num < 0 then - (- num div 10) else num div 10) in if num \<noteq> 0 then itoa_loop num else ())"
  by auto
termination by (relation "measure (\<lambda>n. nat (abs n))") auto

definition itoa :: "u32 \<Rightarrow> string res" where
  "itoa num = (case itoa_loop (sint num) of () \<Rightarrow> Inl NoReturn)"

subsection \<open>One free block\<close>

text \<open>The heap whose free list is the single block at \<open>h\<close> with \<open>k\<close> bytes.\<close>

definition one_block :: "uheap \<Rightarrow> u64 \<Rightarrow> u32 \<Rightarrow> bool" where
  "one_block s h k \<longleftrightarrow> head s = h \<and> 4096 \<le> unat h \<and> rd64 (kmem (hk s)) h = 0 \<and> rd32 (kmem (hk s)) (h + of_nat 8) = k"

lemma field_apart:
  assumes "unat h + l \<le> 2 ^ 64" "i + n \<le> l" "j + m \<le> l" "0 < n" "0 < m" "i + n \<le> j \<or> j + m \<le> i"
  shows "apart (h + of_nat i) n (h + of_nat j) m"
proof (rule apart_nat)
  have u: "unat (h + of_nat i) = unat h + i" "unat (h + of_nat j) = unat h + j"
    using unat_add_field[of h i] unat_add_field[of h j] assms by simp_all
  show "unat (h + of_nat i) + n \<le> 2 ^ 64" "unat (h + of_nat j) + m \<le> 2 ^ 64" using assms unfolding u by linarith+
  show "unat (h + of_nat i) + n \<le> unat (h + of_nat j) \<or> unat (h + of_nat j) + m \<le> unat (h + of_nat i)"
    using assms(6) unfolding u by linarith
qed (use assms in simp_all)

lemma malloc_step:
  assumes ob: "one_block s h k" and k: "k \<noteq> MAGIC" "n < unat k" and room: "unat h + n + 24 \<le> 2 ^ 64"
  shows "\<exists>t. malloc (of_nat n) s = Some (Inr (h + of_nat 8, t)) \<and> one_block t (h + of_nat (12 + n)) (k - of_nat (n + 12))"
proof -
  let ?l = "n + 24" and ?m0 = "kmem (hk s)"
  have h: "head s = h" "4096 \<le> unat h" "rd64 ?m0 h = 0" "rd32 ?m0 (h + of_nat 8) = k" using ob by (simp_all add: one_block_def)
  have k32: "unat k < 2 ^ 32" by (rule order_less_le_trans[OF unsigned_less]) simp
  have mp: "\<not> h + of_nat i < 4096" if "i < ?l" for i
    using unat_add_field[of h i] h(2) room that by (simp add: word_less_nat_alt)
  have m0: "\<not> h < 4096" using h(2) by (simp add: word_less_nat_alt)
  have nz: "h \<noteq> 0" using m0 by auto
  have ap: "apart (h + of_nat i) a (h + of_nat j) b" if "i + a \<le> ?l" "j + b \<le> ?l" "0 < a" "0 < b" "i + a \<le> j \<or> j + b \<le> i" for i a j b
    using field_apart[of h ?l i a j b] room that by simp
  define sz where "sz = (ucast (ucast k - of_nat n - 12 :: u64) :: u32)"
  have sz: "sz = k - of_nat (n + 12)"
  proof -
    have "(ucast (ucast k :: u64) :: u32) = k" by (rule bit_word_eqI) (simp add: bit_ucast_iff)
    moreover have "(ucast k - of_nat n - 12 :: u64) = ucast k - of_nat (n + 12)" by simp
    ultimately show ?thesis unfolding sz_def by (simp only: ucast_diff_down ucast_of_nat_down)
  qed
  have o: "h + 12 + of_nat n = h + of_nat (12 + n)" "h + of_nat (12 + n) + 8 = h + of_nat (20 + n)" "h + 4 = h + of_nat 4" "h + 8 = h + of_nat 8"
    by simp_all
  let ?m1 = "wr32 (h + of_nat (20 + n)) sz ?m0"
  let ?m4 = "wr32 h MAGIC (wr32 (h + of_nat 4) (ucast (of_nat n :: u64)) (wr64 (h + of_nat (12 + n)) 0 ?m1))"
  have m: "\<not> h + of_nat 8 < 4096" "\<not> h + of_nat (20 + n) < 4096" "\<not> h + of_nat (12 + n) < 4096" "\<not> h + of_nat 4 < 4096"
    by (rule mp; simp)+
  have nk: "(of_nat n :: u64) < ucast k" 
  proof -
    have "unat (of_nat n :: u64) = n" using k(2) k32 by (simp add: unat_of_nat)
    then show ?thesis using k(2) by (simp add: word_less_nat_alt unat_ucast_up)
  qed
  have a0: "apart h 8 (h + of_nat (20 + n)) 4" using ap[of 0 8 "20 + n" 4] by simp
  have ld: "h_ld64 (s\<lparr>hk := (hk s)\<lparr>kmem := ?m1\<rparr>\<rparr>) h = Inr 0"
    using a0 h(3) m0 by (simp add: h_ld64_def ld64_def rd_wr_apart del: of_nat_add of_nat_numeral)
  have st1: "h_st32 (h + of_nat (20 + n)) sz s = Inr (s\<lparr>hk := (hk s)\<lparr>kmem := ?m1\<rparr>\<rparr>)"
    using m(2) by (simp add: h_st32_def st32_def del: of_nat_add of_nat_numeral)
  let ?t = "s\<lparr>hk := (hk s)\<lparr>kmem := ?m4\<rparr>, head := h + of_nat (12 + n)\<rparr>"
  have split: "split_block h (of_nat n) k s = Inr (h + of_nat 8, ?t)"
    unfolding split_block_def Let_def o sz_def[symmetric] st1 bindR_Inr ld
    using m m0 h(1) by (simp add: h_st64_def h_st32_def st64_def st32_def del: of_nat_add of_nat_numeral)
  have run: "malloc (of_nat n) s = Some (Inr (h + of_nat 8, ?t))"
    unfolding malloc_def h(1)
    using nz m(1) h(4) k(1) nk split by (subst malloc_from.simps) (simp add: h_ld32_def ld32_def o(4) del: of_nat_numeral)
  have "apart (h + of_nat (12 + n)) 8 (h + of_nat 0) 4" "apart (h + of_nat (12 + n)) 8 (h + of_nat 4) 4"
    "apart (h + of_nat (20 + n)) 4 (h + of_nat 0) 4" "apart (h + of_nat (20 + n)) 4 (h + of_nat 4) 4"
    "apart (h + of_nat (20 + n)) 4 (h + of_nat (12 + n)) 8" by (rule ap; simp)+
  then have r: "rd64 ?m4 (h + of_nat (12 + n)) = 0" "rd32 ?m4 (h + of_nat (20 + n)) = sz"
    by (simp_all add: rd_wr_apart del: of_nat_add of_nat_numeral)
  have un: "unat (h + of_nat (12 + n)) = unat h + (12 + n)" using room by (intro unat_add_field) simp
  have o8: "h + of_nat (12 + n) + of_nat 8 = h + of_nat (20 + n)" by simp
  have "one_block ?t (h + of_nat (12 + n)) sz"
    unfolding one_block_def o8 using r un h(2) by (simp del: of_nat_add of_nat_numeral)
  with run sz show ?thesis by auto
qed

text \<open>A run of allocations.\<close>

fun mallocs :: "nat list \<Rightarrow> uheap \<Rightarrow> (u64 list \<times> uheap) res option" where
  "mallocs [] s = Some (Inr ([], s))"
| "mallocs (n # ns) s =
     bindX (malloc (of_nat n) s) (\<lambda>(p, s). bindX (mallocs ns s) (\<lambda>(ps, s). Some (Inr (p # ps, s))))"

text \<open>The blocks are laid out one after the other, each with its header in front.\<close>

fun layout :: "nat \<Rightarrow> nat list \<Rightarrow> nat list" where
  "layout a [] = []"
| "layout a (n # ns) = (a + 8) # layout (a + 12 + n) ns"

lemma layout_sorted: "i < j \<Longrightarrow> j < length ns \<Longrightarrow> layout a ns ! i + ns ! i + 4 \<le> layout a ns ! j"
proof (induction a ns arbitrary: i j rule: layout.induct)
  case (2 a n ns)
  have low: "a' + 8 \<le> layout a' ns ! m" if "m < length ns" for a' m
    using that by (induction a' ns arbitrary: m rule: layout.induct) (auto simp: nth_Cons split: nat.splits, fastforce)
  show ?case
  proof (cases i)
    case 0
    then show ?thesis using 2(2,3) low[of "j - 1" "a + 12 + n"] by (cases j) auto
  next
    case (Suc m)
    then show ?thesis using 2(1)[of m "j - 1"] 2(2,3) by (cases j) auto
  qed
qed simp

lemma length_layout [simp]: "length (layout a ns) = length ns"
  by (induction a ns rule: layout.induct) auto

text \<open>
  C33. From a heap with one free block, allocations whose sizes and headers fit into it end
  without a fault and return disjoint blocks in ascending order inside it.
\<close>

theorem malloc_carves:
  assumes "one_block s h (of_nat k)" "k < 0xDEADBEEF" "sum_list (map (\<lambda>n. n + 12) ns) < k" "unat h + k + 24 \<le> 2 ^ 64"
  shows "\<exists>ps t. mallocs ns s = Some (Inr (ps, t)) \<and> map unat ps = layout (unat h) ns \<and>
    (\<forall>i j. i < j \<and> j < length ns \<longrightarrow> unat (ps ! i) + ns ! i < unat (ps ! j))"
proof -
  have "\<exists>ps t. mallocs ns s = Some (Inr (ps, t)) \<and> map unat ps = layout (unat h) ns" using assms
  proof (induction ns arbitrary: s h k)
    case (Cons n ns)
    have u: "unat (of_nat k :: u32) = k" using Cons.prems(2) by (simp add: unat_of_nat)
    have ne: "(of_nat k :: u32) \<noteq> MAGIC"
    proof
      assume "of_nat k = MAGIC"
      then have "unat (of_nat k :: u32) = 0xDEADBEEF" by (simp add: MAGIC_def)
      then show False using u Cons.prems(2) by simp
    qed
    have nk: "n + 12 < k" using Cons.prems(3) by simp
    obtain t where t: "malloc (of_nat n) s = Some (Inr (h + of_nat 8, t))"
      "one_block t (h + of_nat (12 + n)) (of_nat k - of_nat (n + 12))"
      using malloc_step[OF Cons.prems(1) ne, of n] nk u Cons.prems(4) by auto
    have d: "(of_nat k - of_nat (n + 12) :: u32) = of_nat (k - (n + 12))" using nk by (subst of_nat_diff) simp_all
    have uh: "unat (h + of_nat (12 + n)) = unat h + (12 + n)" "unat (h + of_nat 8) = unat h + 8"
      using Cons.prems(4) nk by (intro unat_add_field; simp)+
    have "\<exists>ps v. mallocs ns t = Some (Inr (ps, v)) \<and> map unat ps = layout (unat (h + of_nat (12 + n))) ns"
    proof (rule Cons.IH[of _ _ "k - (n + 12)"])
      show "one_block t (h + of_nat (12 + n)) (of_nat (k - (n + 12)))" using t(2) unfolding d .
      show "unat (h + of_nat (12 + n)) + (k - (n + 12)) + 24 \<le> 2 ^ 64" unfolding uh using Cons.prems(4) nk by linarith
    qed (use Cons.prems(2,3) in simp_all)
    then show ?case using t(1) uh by (auto simp: add.assoc simp del: of_nat_add of_nat_numeral)
  qed simp
  then obtain ps t where r: "mallocs ns s = Some (Inr (ps, t))" "map unat ps = layout (unat h) ns" by blast
  have "length ps = length ns" using r(2) by (metis length_layout length_map)
  then have "unat (ps ! i) = layout (unat h) ns ! i" if "i < length ns" for i using r(2) that by (metis nth_map)
  then show ?thesis using r layout_sorted[of _ _ ns "unat h"] by fastforce
qed

text \<open>
  A request that leaves less than a header free is not refused: the size of the
  remaining block wraps around to almost four gigabytes, so that later requests are served
  from memory after the heap.
\<close>

theorem malloc_size_wraps:
  assumes "one_block s h (of_nat k)" "k < 0xDEADBEEF" "n < k" "k < n + 12" "unat h + n + 24 \<le> 2 ^ 64"
  shows "\<exists>t. malloc (of_nat n) s = Some (Inr (h + 8, t)) \<and> one_block t (h + of_nat (12 + n)) (of_nat (2 ^ 32 + k - (n + 12)))"
proof -
  have u: "unat (of_nat k :: u32) = k" using assms(2) by (simp add: unat_of_nat)
  have ne: "(of_nat k :: u32) \<noteq> MAGIC"
  proof
    assume "of_nat k = MAGIC"
    then have "unat (of_nat k :: u32) = 0xDEADBEEF" by (simp add: MAGIC_def)
    then show False using u assms(2) by simp
  qed
  have "(of_nat (2 ^ 32 + k - (n + 12)) :: u32) = of_nat (2 ^ 32 + k) - of_nat (n + 12)"
    using assms(2,3) by (subst of_nat_diff) simp_all
  moreover have "(of_nat (2 ^ 32 + k) :: u32) = of_nat k" by simp
  ultimately have e: "(of_nat k - of_nat (n + 12) :: u32) = of_nat (2 ^ 32 + k - (n + 12))" by argo
  have "\<exists>t. malloc (of_nat n) s = Some (Inr (h + of_nat 8, t)) \<and> one_block t (h + of_nat (12 + n)) (of_nat k - of_nat (n + 12))"
    by (rule malloc_step[OF assms(1) ne]) (use u assms(3,5) in simp_all)
  then show ?thesis unfolding e of_nat_numeral .
qed

definition heap_example :: uheap where
  "heap_example = \<lparr>hk = ht_example\<lparr>kmem := wr32 0x8008 4084 (\<lambda>_. 0)\<rparr>, heap = 0x8000, head = 0x8000, heap_end = 0x14000\<rparr>"

lemma heap_example_block: "one_block heap_example 0x8000 (of_nat 4084)"
proof -
  have "rd64 (kmem (hk heap_example)) 0x8000 = 0" "rd32 (kmem (hk heap_example)) 0x8008 = 4084" by code_simp+
  then show ?thesis by (simp add: one_block_def heap_example_def)
qed

theorem malloc_carves_witness:
  "\<exists>ps t. mallocs [16, 100, 32] heap_example = Some (Inr (ps, t)) \<and> map unat ps = [0x8008, 0x8024, 0x8094]"
  using malloc_carves[OF heap_example_block, of "[16, 100, 32]"] by auto

theorem malloc_size_wraps_witness:
  "\<exists>t. malloc 4080 heap_example = Some (Inr (0x8008, t)) \<and> one_block t 0x8ffc 0xfffffff8"
  using malloc_size_wraps[OF heap_example_block, of 4080] by simp

end
