(* ===== verification/Nya_Hw.thy ===== *)
theory Nya_Hw
  imports Nya_Prelude
begin

unbundle bit_operations_syntax

section \<open>The machine the drivers talk to\<close>

text \<open>
  The inline assembly of \<open>kernel/io.h\<close> and \<open>kernel/system.h\<close>. The hardware may answer a
  read in any way: \<open>answer n\<close> is what the \<open>n\<close>-th read of a port or a device register
  returns, and \<open>reads\<close> counts them. What the kernel does is recorded in \<open>events\<close>, oldest
  first: port and register accesses, instructions with an effect on the processor, and the
  calls of \<open>printf\<close>, each with its format and its integer arguments.

  A loop that waits for the hardware need not end; such operations are partial functions,
  and \<open>None\<close> is a wait that never ends.
\<close>

datatype hwev =
    In u16 u64             \<comment> \<open>port, answer\<close>
  | Out u16 u64            \<comment> \<open>port, value\<close>
  | MmioRead u64 u32       \<comment> \<open>address, answer\<close>
  | MmioWrite u64 u32      \<comment> \<open>address, value\<close>
  | Rdmsr u32 | Wrmsr u32 u32 u32
  | Cpuid u32
  | Lgdt u16 u64 | Ltr | Lidt u16 u64 | Sti | EnableSse
  | Printf string "u64 list"

record hw =
  answer :: "nat \<Rightarrow> u64"
  reads :: nat
  msr :: "u32 \<Rightarrow> u64"
  cpuid_regs :: "u32 \<Rightarrow> u32 \<times> u32 \<times> u32 \<times> u32"
  events :: "hwev list"

definition emit :: "hwev \<Rightarrow> hw \<Rightarrow> hw" where
  "emit e s = s\<lparr>events := events s @ [e]\<rparr>"

definition kprintf :: "string \<Rightarrow> u64 list \<Rightarrow> hw \<Rightarrow> hw" where
  "kprintf fmt args s = emit (Printf fmt args) s"

subsection \<open>Ports\<close>

definition inb :: "u16 \<Rightarrow> hw \<Rightarrow> u8 \<times> hw" where
  "inb port s =
     (let v = ucast (answer s (reads s)) :: u8
      in (v, emit (In port (ucast v)) (s\<lparr>reads := Suc (reads s)\<rparr>)))"

definition inw :: "u16 \<Rightarrow> hw \<Rightarrow> u16 \<times> hw" where
  "inw port s =
     (let v = ucast (answer s (reads s)) :: u16
      in (v, emit (In port (ucast v)) (s\<lparr>reads := Suc (reads s)\<rparr>)))"

definition inl :: "u16 \<Rightarrow> hw \<Rightarrow> u32 \<times> hw" where
  "inl port s =
     (let v = ucast (answer s (reads s)) :: u32
      in (v, emit (In port (ucast v)) (s\<lparr>reads := Suc (reads s)\<rparr>)))"

definition outb :: "u8 \<Rightarrow> u16 \<Rightarrow> hw \<Rightarrow> hw" where
  "outb value port s = emit (Out port (ucast value)) s"

definition outw :: "u16 \<Rightarrow> u16 \<Rightarrow> hw \<Rightarrow> hw" where
  "outw value port s = emit (Out port (ucast value)) s"

definition outl :: "u32 \<Rightarrow> u16 \<Rightarrow> hw \<Rightarrow> hw" where
  "outl value port s = emit (Out port (ucast value)) s"

subsection \<open>Device registers\<close>

definition mmio_read :: "u64 \<Rightarrow> hw \<Rightarrow> u32 \<times> hw" where
  "mmio_read a s =
     (let v = ucast (answer s (reads s)) :: u32
      in (v, emit (MmioRead a v) (s\<lparr>reads := Suc (reads s)\<rparr>)))"

definition mmio_write :: "u64 \<Rightarrow> u32 \<Rightarrow> hw \<Rightarrow> hw" where
  "mmio_write a v s = emit (MmioWrite a v) s"

subsection \<open>The processor\<close>

definition cpuid :: "u32 \<Rightarrow> hw \<Rightarrow> (u32 \<times> u32) \<times> hw" where
  "cpuid code s = (case cpuid_regs s code of (a, b, c, d) \<Rightarrow> ((a, d), emit (Cpuid code) s))"

definition cpuid_string :: "u32 \<Rightarrow> hw \<Rightarrow> (u32 \<times> u32 list) \<times> hw" where
  "cpuid_string code s = (case cpuid_regs s code of (a, b, c, d) \<Rightarrow> ((a, [a, b, c, d]), emit (Cpuid code) s))"

definition CPUID_FLAG_MSR :: u32 where
  "CPUID_FLAG_MSR = push_bit 5 1"

definition cpuHasMSR :: "hw \<Rightarrow> bool \<times> hw" where
  "cpuHasMSR s = (case cpuid 1 s of ((a, d), s) \<Rightarrow> (d AND CPUID_FLAG_MSR \<noteq> 0, s))"

definition cpuGetMSR :: "u32 \<Rightarrow> hw \<Rightarrow> (u32 \<times> u32) \<times> hw" where
  "cpuGetMSR r s = ((ucast (msr s r), ucast (drop_bit 32 (msr s r))), emit (Rdmsr r) s)"

definition cpuSetMSR :: "u32 \<Rightarrow> u32 \<Rightarrow> u32 \<Rightarrow> hw \<Rightarrow> hw" where
  "cpuSetMSR r lo hi s = emit (Wrmsr r lo hi) (s\<lparr>msr := (msr s)(r := push_bit 32 (ucast hi) OR ucast lo)\<rparr>)"

text \<open>\<open>hcf\<close> halts for ever.\<close>

partial_function (option) hcf :: "hw \<Rightarrow> hw option" where
  "hcf s = hcf s"

lemma hcf_never_returns: "hcf s = None"
proof (cases "hcf s")
  case (Some t)
  have False by (rule hcf.raw_induct[OF _ Some]) auto
  then show ?thesis ..
qed

subsection \<open>Frame facts\<close>

text \<open>
  An operation only appends to the events and only advances the reads.
\<close>

definition extends :: "hw \<Rightarrow> hw \<Rightarrow> bool" where
  "extends s t \<longleftrightarrow> answer t = answer s \<and> cpuid_regs t = cpuid_regs s \<and> reads s \<le> reads t \<and>
     take (length (events s)) (events t) = events s"

lemma extends_refl [simp]: "extends s s"
  by (simp add: extends_def)

lemma extends_trans: "extends s t \<Longrightarrow> extends t u \<Longrightarrow> extends s u"
  unfolding extends_def by (metis length_take min.absorb1 nat_le_linear order_trans take_all_iff take_take)

lemma extends_emit [simp]: "extends s (emit e s)"
  by (simp add: extends_def emit_def)

named_theorems hw_defs \<open>definitions of the port operations\<close>
declare inb_def [hw_defs] outb_def [hw_defs] emit_def [hw_defs] mmio_read_def [hw_defs] mmio_write_def [hw_defs]
  kprintf_def [hw_defs]

end
