(* ===== verification/Nya_Pic.thy ===== *)
theory Nya_Pic
  imports Nya_Hw
begin

unbundle bit_operations_syntax

section \<open>The legacy interrupt controllers\<close>

text \<open>
  \<open>kernel/arch/x86_64/pic.c\<close>: the two 8259 controllers at the ports \<open>0x20\<close>, \<open>0x21\<close> and
  \<open>0xa0\<close>, \<open>0xa1\<close>. Besides the translation there is a model of what a controller makes of
  the bytes it receives, the specification the initialisation is checked against.
\<close>

definition remap_irqs :: "hw \<Rightarrow> hw" where
  "remap_irqs s = outb 0x28 0xa1 (outb 0x20 0x21 s)"

definition lapic_disable :: "hw \<Rightarrow> hw" where
  "lapic_disable s = (case cpuGetMSR 0x1B s of ((lo, hi), s) \<Rightarrow> cpuSetMSR 0x1B (lo AND NOT (push_bit 11 1)) hi s)"

text \<open>The shift is that of an \<open>int\<close>: a line above 39 shifts the bit out of the byte.\<close>

definition irq_line :: "u8 \<Rightarrow> u16 \<times> u8" where
  "irq_line l = (if l < 8 then (0x21, l) else (0xa1, l - 8))"

definition IRQ_set_mask :: "u8 \<Rightarrow> hw \<Rightarrow> hw" where
  "IRQ_set_mask IRQline s =
     (case irq_line IRQline of (port, l) \<Rightarrow>
        case inb port s of (v, s) \<Rightarrow> outb (v OR ucast (push_bit (unat l) 1 :: u32)) port s)"

definition IRQ_clear_mask :: "u8 \<Rightarrow> hw \<Rightarrow> hw" where
  "IRQ_clear_mask IRQline s =
     (case irq_line IRQline of (port, l) \<Rightarrow>
        case inb port s of (v, s) \<Rightarrow> outb (v AND NOT (ucast (push_bit (unat l) 1 :: u32))) port s)"

definition pic_disable :: "hw \<Rightarrow> hw" where
  "pic_disable s = outb 0xff 0xa1 (outb 0xff 0x21 s)"

definition pic_init :: "hw \<Rightarrow> hw" where
  "pic_init s0 =
     (let s = lapic_disable s0;
          s = outb 0x11 0xa0 (outb 0x11 0x20 s);
          s = remap_irqs s;
          s = outb 2 0xa1 (outb 4 0x21 s);
          s = outb 1 0xa1 (outb 1 0x21 s);
          s = outb 0 0xa1 (outb 0 0x21 s)
      in IRQ_set_mask 8 (IRQ_set_mask 0 s))"

subsection \<open>What an 8259 does\<close>

text \<open>
  A command byte with bit 4 set starts the initialisation: the next bytes on the data port
  are the vector base, the cascade line and the mode. Afterwards a byte on the data port is
  the interrupt mask.
\<close>

datatype pic_phase = Icw2 | Icw3 | Icw4 | Ready

record pic =
  phase :: pic_phase
  vbase :: u8
  cascade :: u8
  imr :: u8

definition pic_command :: "u64 \<Rightarrow> pic \<Rightarrow> pic" where
  "pic_command v p = (if bit v 4 then p\<lparr>phase := Icw2, imr := 0\<rparr> else p)"

definition pic_data :: "u64 \<Rightarrow> pic \<Rightarrow> pic" where
  "pic_data v p =
     (case phase p of
        Icw2 \<Rightarrow> p\<lparr>vbase := ucast v, phase := Icw3\<rparr>
      | Icw3 \<Rightarrow> p\<lparr>cascade := ucast v, phase := Icw4\<rparr>
      | Icw4 \<Rightarrow> p\<lparr>phase := Ready\<rparr>
      | Ready \<Rightarrow> p\<lparr>imr := ucast v\<rparr>)"

fun pic_run :: "u16 \<Rightarrow> hwev list \<Rightarrow> pic \<Rightarrow> pic" where
  "pic_run base [] p = p"
| "pic_run base (Out port v # es) p =
     pic_run base es (if port = base then pic_command v p else if port = base + 1 then pic_data v p else p)"
| "pic_run base (e # es) p = pic_run base es p"

text \<open>The controllers answer a read of the data port with the mask.\<close>

definition answers_mask :: "u16 \<Rightarrow> pic \<Rightarrow> hwev list \<Rightarrow> bool" where
  "answers_mask base p es \<longleftrightarrow>
     (\<forall>i < length es. \<forall>v. es ! i = In (base + 1) v \<longrightarrow> v = ucast (imr (pic_run base (take i es) p)))"

definition new_events :: "hw \<Rightarrow> hw \<Rightarrow> hwev list" where
  "new_events s t = drop (length (events s)) (events t)"

lemma ucast8_eq_0 [simp]: "(ucast (a :: u8) :: u64) = 0 \<longleftrightarrow> a = 0"
proof
  assume "(ucast a :: u64) = 0"
  then have "(ucast (ucast a :: u64) :: u8) = 0" by simp
  moreover have "(ucast (ucast a :: u64) :: u8) = a" by (rule bit_word_eqI) (simp add: bit_ucast_iff)
  ultimately show "a = 0" by simp
qed simp

lemma emit_events [simp]: "events (emit e s) = events s @ [e]"
  by (simp add: emit_def)

lemma pic_init_events:
  "new_events s (pic_init s) =
     [Rdmsr 0x1B, Wrmsr 0x1B (ucast (msr s 0x1B) AND NOT (push_bit 11 1)) (ucast (drop_bit 32 (msr s 0x1B))),
      Out 0x20 0x11, Out 0xa0 0x11, Out 0x21 0x20, Out 0xa1 0x28, Out 0x21 4, Out 0xa1 2,
      Out 0x21 1, Out 0xa1 1, Out 0x21 0, Out 0xa1 0,
      In 0x21 (ucast (ucast (answer s (reads s)) :: u8)), Out 0x21 (ucast ((ucast (answer s (reads s)) :: u8) OR 1)),
      In 0xa1 (ucast (ucast (answer s (Suc (reads s))) :: u8)), Out 0xa1 (ucast ((ucast (answer s (Suc (reads s))) :: u8) OR 1))]"
  by (simp add: new_events_def pic_init_def lapic_disable_def cpuGetMSR_def cpuSetMSR_def remap_irqs_def IRQ_set_mask_def
      irq_line_def hw_defs Let_def)

text \<open>
  Initialisation remaps the interrupts: whatever state the two controllers are in, after
  \<open>pic_init\<close> the first delivers its lines on the vectors from \<open>0x20\<close> and the second from
  \<open>0x28\<close>, they are cascaded over line 2, and exactly the lines 0 and 8 (timer and clock) are
  masked.
\<close>

theorem pic_init_remaps:
  assumes "answers_mask 0x20 p (new_events s (pic_init s))" "answers_mask 0xa0 q (new_events s (pic_init s))"
  shows "pic_run 0x20 (new_events s (pic_init s)) p = \<lparr>phase = Ready, vbase = 0x20, cascade = 4, imr = 1\<rparr> \<and>
    pic_run 0xa0 (new_events s (pic_init s)) q = \<lparr>phase = Ready, vbase = 0x28, cascade = 2, imr = 1\<rparr>"
proof -
  define a b where "a = (ucast (answer s (reads s)) :: u8)" and "b = (ucast (answer s (Suc (reads s))) :: u8)"
  note ev = pic_init_events[of s, folded a_def b_def]
  have "ucast a = (ucast (imr (pic_run 0x20 (take 12 (new_events s (pic_init s))) p)) :: u64)"
    using assms(1) unfolding answers_mask_def ev by (elim allE[of _ 12]) simp
  then have a: "a = 0" unfolding ev by (simp add: pic_command_def pic_data_def)
  have "ucast b = (ucast (imr (pic_run 0xa0 (take 14 (new_events s (pic_init s))) q)) :: u64)"
    using assms(2) unfolding answers_mask_def ev by (elim allE[of _ 14]) simp
  then have b: "b = 0" unfolding ev by (simp add: pic_command_def pic_data_def)
  show ?thesis unfolding ev a b by (simp add: pic_command_def pic_data_def)
qed

definition hw_example :: hw where
  "hw_example = \<lparr>answer = (\<lambda>_. 0), reads = 0, msr = (\<lambda>_. 0xfee00900), cpuid_regs = (\<lambda>_. (0, 0, 0, 0)), events = []\<rparr>"

theorem pic_init_remaps_witness:
  "pic_run 0x20 (new_events hw_example (pic_init hw_example)) \<lparr>phase = Icw3, vbase = 8, cascade = 0, imr = 0xff\<rparr> =
     \<lparr>phase = Ready, vbase = 0x20, cascade = 4, imr = 1\<rparr>"
proof -
  let ?p = "\<lparr>phase = Icw3, vbase = 8, cascade = 0, imr = 0xff\<rparr> :: pic"
  have "answers_mask 0x20 ?p (new_events hw_example (pic_init hw_example))"
    "answers_mask 0xa0 ?p (new_events hw_example (pic_init hw_example))"
    unfolding answers_mask_def pic_init_events
    by (auto simp: hw_example_def nth_Cons' take_Cons' pic_command_def pic_data_def)
  from pic_init_remaps[OF this] show ?thesis by blast
qed

end
