(* ===== verification/Nya_Ps2.thy ===== *)
theory Nya_Ps2
  imports Nya_Pic "HOL-Library.Monad_Syntax"
begin

unbundle bit_operations_syntax

section \<open>The PS/2 controller and the serial port\<close>

text \<open>
  \<open>drivers/ps2.c\<close> and \<open>drivers/serial.c\<close>. The data port of the controller is \<open>0x60\<close>, its
  status and command port \<open>0x64\<close>; bit 0 of the status says that a byte can be read, bit 1
  that the last byte written has not been taken yet. Both drivers wait by reading the status
  again and again, so the operations are partial.
\<close>

subsection \<open>PS/2: waiting, reading and writing\<close>

text \<open>\<open>while (!ready(inb(port)));\<close>, the loop all waits share.\<close>

partial_function (option) wait_until :: "u16 \<Rightarrow> (u8 \<Rightarrow> bool) \<Rightarrow> hw \<Rightarrow> hw option" where
  "wait_until port ready s = (case inb port s of (st, s) \<Rightarrow> if \<not> ready st then wait_until port ready s else Some s)"

declare wait_until.simps [code]

definition wait_writable :: "hw \<Rightarrow> hw option" where
  "wait_writable s = wait_until 0x64 (\<lambda>st. st AND 2 = 0) s"

definition wait_readable :: "hw \<Rightarrow> hw option" where
  "wait_readable s = wait_until 0x64 (\<lambda>st. st AND 1 \<noteq> 0) s"

definition ps2_write :: "u8 \<Rightarrow> u8 \<Rightarrow> hw \<Rightarrow> hw option" where
  "ps2_write data port s = do { s \<leftarrow> wait_writable s; Some (outb data (ucast port) s) }"

definition ps2_read :: "hw \<Rightarrow> (u8 \<times> hw) option" where
  "ps2_read s = do { s \<leftarrow> wait_readable s; Some (inb 0x60 s) }"

definition poll :: "hw \<Rightarrow> (u8 \<times> hw) option" where
  "poll s = do { s \<leftarrow> wait_readable s; Some (inb 0x60 s) }"

definition send :: "u8 \<Rightarrow> u32 \<Rightarrow> hw \<Rightarrow> hw option" where
  "send data port s =
     (if port = 0 then do { s \<leftarrow> wait_writable s; Some (outb data 0x60 s) }
      else do { s \<leftarrow> wait_writable (outb 0xd4 0x64 s); Some (outb data 0x60 s) })"

definition recv :: "hw \<Rightarrow> u8 \<times> hw" where
  "recv s = inb 0x60 s"

definition check_aml :: bool where
  "check_aml = True"

definition disable_devices :: "hw \<Rightarrow> hw option" where
  "disable_devices s = do { s \<leftarrow> ps2_write 0xad 0x64 s; ps2_write 0xa7 0x64 s }"

text \<open>\<open>while (poll() != 0xfa)\<close>, and the loops that drain the data port.\<close>

partial_function (option) poll_ack :: "hw \<Rightarrow> hw option" where
  "poll_ack s = do { (b, s) \<leftarrow> poll s; if b \<noteq> 0xfa then poll_ack s else Some s }"

partial_function (option) drain :: "hw \<Rightarrow> hw option" where
  "drain s = (case inb 0x64 s of (st, s) \<Rightarrow> if st AND 1 \<noteq> 0 then drain (snd (inb 0x60 s)) else Some s)"

partial_function (option) drain_print :: "hw \<Rightarrow> hw option" where
  "drain_print s =
     (case inb 0x64 s of (st, s) \<Rightarrow>
        if st AND 1 \<noteq> 0 then case inb 0x60 s of (b, s) \<Rightarrow> drain_print (kprintf '' %x\<newline>'' [ucast b] s)
        else Some s)"

declare poll_ack.simps [code] drain.simps [code] drain_print.simps [code]

definition detect_device :: "u8 \<Rightarrow> hw \<Rightarrow> (u8 \<times> hw) option" where
  "detect_device port s = do {
     s \<leftarrow> send 0xf5 (ucast port) s;
     s \<leftarrow> poll_ack s;
     s \<leftarrow> send 0xf2 (ucast port) s;
     s \<leftarrow> poll_ack s;
     poll s }"

definition enable_scanning :: "u8 \<Rightarrow> hw \<Rightarrow> hw option" where
  "enable_scanning port s = send 0xf4 (ucast port) s"

definition dev2_enable_irq :: "hw \<Rightarrow> hw option" where
  "dev2_enable_irq s = do {
     s \<leftarrow> ps2_write 0x20 0x64 s;
     (cfg, s) \<leftarrow> ps2_read s;
     s \<leftarrow> ps2_write 0x60 0x64 s;
     ps2_write (cfg OR 2) 0x60 s }"

definition dev1_enable_irq :: "hw \<Rightarrow> hw option" where
  "dev1_enable_irq s = do {
     s \<leftarrow> ps2_write 0x20 0x64 s;
     (cfg, s) \<leftarrow> ps2_read s;
     s \<leftarrow> ps2_write 0x60 0x64 s;
     ps2_write (cfg OR 1) 0x60 s }"

subsection \<open>PS/2: initialisation\<close>

text \<open>
  \<open>ps2_init\<close> in its stages. A stage that ends the function early is \<open>Inl\<close> with the state
  at that point.
\<close>

type_synonym 'a stage = "(hw + 'a \<times> hw) option"

definition stage :: "'a stage \<Rightarrow> ('a \<Rightarrow> hw \<Rightarrow> 'b stage) \<Rightarrow> 'b stage" where
  "stage m f = Option.bind m (\<lambda>r. case r of Inl s \<Rightarrow> Some (Inl s) | Inr (x, s) \<Rightarrow> f x s)"

definition ps2_self_test :: "hw \<Rightarrow> unit stage" where
  "ps2_self_test s = do {
     s \<leftarrow> disable_devices s;
     s \<leftarrow> Some (snd (inb 0x60 s));
     s \<leftarrow> ps2_write 0x20 0x64 s;
     (cfg, s) \<leftarrow> ps2_read s;
     let cfg = cfg AND NOT 0x51;
     s \<leftarrow> ps2_write 0x60 0x64 s;
     s \<leftarrow> ps2_write cfg 0x60 s;
     s \<leftarrow> ps2_write 0xaa 0x64 s;
     (r, s) \<leftarrow> ps2_read s;
     if r \<noteq> 0x55 then Some (Inl (kprintf ''PS/2 self test failed\<newline>'' [] s))
     else do {
       s \<leftarrow> ps2_write 0x60 0x64 s;
       s \<leftarrow> ps2_write cfg 0x60 s;
       Some (Inr ((), s)) } }"

definition ps2_dual_channel :: "hw \<Rightarrow> (bool \<times> hw) option" where
  "ps2_dual_channel s = do {
     s \<leftarrow> ps2_write 0xa8 0x64 s;
     s \<leftarrow> ps2_write 0x20 0x64 s;
     (cfg, s) \<leftarrow> ps2_read s;
     if cfg AND 0x20 = 0 then do {
       s \<leftarrow> ps2_write 0xa7 0x64 s;
       let cfg = cfg AND NOT 0x22;
       s \<leftarrow> ps2_write 0x60 0x64 s;
       s \<leftarrow> ps2_write cfg 0x60 s;
       Some (True, s) }
     else Some (False, s) }"

definition ps2_port_tests :: "bool \<Rightarrow> hw \<Rightarrow> unit stage" where
  "ps2_port_tests dual_channel s = do {
     s \<leftarrow> ps2_write 0xab 0x64 s;
     (res, s) \<leftarrow> ps2_read s;
     if res \<noteq> 0 then Some (Inl (kprintf ''PS/2 first port test failed with code %X\<newline>'' [ucast res] s))
     else if dual_channel then do {
       s \<leftarrow> ps2_write 0xa9 0x64 (kprintf ''Dual Channel PS/2 Controller Detected\<newline>'' [] s);
       (r, s) \<leftarrow> ps2_read s;
       if r \<noteq> 0 then Some (Inl (kprintf ''PS/2 second port test failed\<newline>'' [] s)) else Some (Inr ((), s)) }
     else Some (Inr ((), s)) }"

definition ps2_reset :: "u32 \<Rightarrow> string \<Rightarrow> hw \<Rightarrow> unit stage" where
  "ps2_reset port name s = do {
     s \<leftarrow> send 0xff port s;
     (did, s) \<leftarrow> poll s;
     if did \<noteq> 0xfa \<and> did \<noteq> 0xaa then Some (Inl (kprintf (''PS/2 '' @ name @ '' port device reset failed\<newline>'') [] s))
     else do {
       (_, s) \<leftarrow> poll s;
       s \<leftarrow> drain s;
       Some (Inr ((), kprintf (''PS/2 '' @ name @ '' port device reset\<newline>'') [] s)) } }"

definition ps2_detect :: "hw \<Rightarrow> hw option" where
  "ps2_detect s = do {
     (did1, s) \<leftarrow> detect_device 0 s;
     s \<leftarrow> drain_print (kprintf ''PS/2 first port device ID: %x\<newline>'' [ucast did1] s);
     (did2, s) \<leftarrow> detect_device 1 s;
     drain_print (kprintf ''PS/2 second port device ID: %x\<newline>'' [ucast did2] s) }"

definition ps2_init :: "hw \<Rightarrow> hw option" where
  "ps2_init s =
     (if \<not> check_aml then Some (kprintf ''No PS/2 Detected\<newline>'' [] s)
      else do {
        r \<leftarrow> stage (ps2_self_test s) (\<lambda>_ s. do {
          (dual_channel, s) \<leftarrow> ps2_dual_channel s;
          stage (ps2_port_tests dual_channel s) (\<lambda>_ s. do {
            s \<leftarrow> ps2_write 0xae 0x64 s;
            s \<leftarrow> (if dual_channel then ps2_write 0xa8 0x64 s else Some s);
            stage (ps2_reset 0 ''first'' s) (\<lambda>_ s.
              stage (if dual_channel then do { s \<leftarrow> drain s; ps2_reset 1 ''second'' s } else Some (Inr ((), s)))
                (\<lambda>_ s. do { s \<leftarrow> ps2_detect s; Some (Inr ((), s)) })) }) });
        Some (case r of Inl s \<Rightarrow> s | Inr (_, s) \<Rightarrow> s) })"

subsection \<open>Serial\<close>

definition write_byte :: "u16 \<Rightarrow> u8 \<Rightarrow> u8 \<Rightarrow> hw \<Rightarrow> hw" where
  "write_byte port offset byte s = outb byte (port + ucast offset) s"

definition read_byte :: "u16 \<Rightarrow> u8 \<Rightarrow> hw \<Rightarrow> u8 \<times> hw" where
  "read_byte port offset s = inb (port + ucast offset) s"

definition set_lcr :: "u16 \<Rightarrow> u8 \<Rightarrow> hw \<Rightarrow> hw" where
  "set_lcr port byte s = write_byte port 3 byte s"

definition read_lcr :: "u16 \<Rightarrow> hw \<Rightarrow> u8 \<times> hw" where
  "read_lcr port s = read_byte port 3 s"

definition default_lcr :: "u16 \<Rightarrow> hw \<Rightarrow> hw" where
  "default_lcr port s = set_lcr port 3 s"

definition received :: "u8 \<Rightarrow> bool" where "received b \<longleftrightarrow> b AND 1 \<noteq> 0"
definition transmit_empty :: "u8 \<Rightarrow> bool" where "transmit_empty b \<longleftrightarrow> b AND 0x20 \<noteq> 0"

definition serial_received :: "u16 \<Rightarrow> hw \<Rightarrow> bool \<times> hw" where
  "serial_received port s = (case read_byte port 5 s of (b, s) \<Rightarrow> (received b, s))"

definition is_transmit_empty :: "u16 \<Rightarrow> hw \<Rightarrow> bool \<times> hw" where
  "is_transmit_empty port s = (case read_byte port 5 s of (b, s) \<Rightarrow> (transmit_empty b, s))"

text \<open>\<open>while (!serial_received(port));\<close> and \<open>while (!is_transmit_empty(port));\<close>.\<close>

definition wait_received :: "u16 \<Rightarrow> hw \<Rightarrow> hw option" where
  "wait_received port s = wait_until (port + 5) received s"

definition wait_transmit :: "u16 \<Rightarrow> hw \<Rightarrow> hw option" where
  "wait_transmit port s = wait_until (port + 5) transmit_empty s"

definition read_serial :: "u16 \<Rightarrow> hw \<Rightarrow> (u8 \<times> hw) option" where
  "read_serial port s = do { s \<leftarrow> wait_received port s; Some (read_byte port 0 s) }"

definition write_serial :: "u16 \<Rightarrow> u8 \<Rightarrow> hw \<Rightarrow> hw option" where
  "write_serial port byte s = do { s \<leftarrow> wait_transmit port s; Some (write_byte port 0 byte s) }"

definition serial_init :: "u16 \<Rightarrow> u32 \<Rightarrow> hw \<Rightarrow> hw res" where
  "serial_init port baud s =
     (if baud = 0 then Inl DivideByZero
      else let divisor = ucast (115200 div baud) :: u16;
               s = write_byte port 1 0 s;
               s = set_lcr port 0x80 s;
               s = write_byte port 0 (ucast (divisor AND 0xff)) s;
               s = write_byte port 1 (ucast (drop_bit 8 divisor)) s;
               s = default_lcr port s;
               s = write_byte port 2 0xc7 s;
               s = write_byte port 4 0x0b s;
               s = write_byte port 4 0x1e s;
               s = write_byte port 0 0xae s
           in case read_byte port 0 s of (b, s) \<Rightarrow>
                Inr (if b \<noteq> 0xae then kprintf ''Serial is faulty.\<newline>'' [] s else write_byte port 4 0x0f s))"

text \<open>\<open>handle_serial\<close> distinguishes the two vectors and does nothing for either.\<close>

definition handle_serial :: "u32 \<Rightarrow> hw \<Rightarrow> hw" where
  "handle_serial vector s = (if vector = 0x22 then s else if vector = 0x23 then s else s)"

subsection \<open>Waiting\<close>

definition status_at :: "hw \<Rightarrow> nat \<Rightarrow> u8" where
  "status_at s n = ucast (answer s (reads s + n))"

lemma inb_run: "inb port s = (status_at s 0, s\<lparr>reads := Suc (reads s), events := events s @ [In port (ucast (status_at s 0))]\<rparr>)"
  by (simp add: inb_def emit_def status_at_def Let_def)

text \<open>The machine after \<open>n\<close> reads of a port.\<close>

definition after_reads :: "u16 \<Rightarrow> nat \<Rightarrow> hw \<Rightarrow> hw" where
  "after_reads port n s = s\<lparr>reads := reads s + n, events := events s @ map (\<lambda>i. In port (ucast (status_at s i))) [0..<n]\<rparr>"

lemma after_reads_Suc: "after_reads port n (snd (inb port s)) = after_reads port (Suc n) s"
proof -
  have "map (\<lambda>i. In port (ucast (status_at s i))) [0..<Suc n] =
      In port (ucast (status_at s 0)) # map (\<lambda>i. In port (ucast (status_at s (Suc i)))) [0..<n]"
    by (subst upt_conv_Cons) (simp_all add: map_Suc_upt[symmetric] del: upt_Suc)
  then show ?thesis by (simp add: after_reads_def inb_run status_at_def del: upt_Suc)
qed

lemma wait_until_ends:
  assumes "ready (status_at s n)" "\<And>i. i < n \<Longrightarrow> \<not> ready (status_at s i)"
  shows "wait_until port ready s = Some (after_reads port (Suc n) s)"
  using assms
proof (induction n arbitrary: s)
  case 0
  then show ?case by (subst wait_until.simps) (simp add: inb_run after_reads_def)
next
  case (Suc n)
  let ?s = "snd (inb port s)"
  have st: "status_at ?s i = status_at s (Suc i)" for i by (simp add: inb_run status_at_def)
  have "wait_until port ready ?s = Some (after_reads port (Suc n) ?s)" using Suc.prems st by (intro Suc.IH) simp_all
  moreover have "wait_until port ready s = wait_until port ready ?s"
    using Suc.prems(2)[of 0] by (subst wait_until.simps) (simp add: inb_run)
  ultimately show ?case by (simp add: after_reads_Suc)
qed

lemma wait_until_ready:
  assumes "wait_until port ready s = Some t"
  shows "\<exists>n. ready (status_at s n)"
proof (rule wait_until.raw_induct[where P = "\<lambda>port ready s t. \<exists>n. ready (status_at s n)", OF _ assms])
  fix wu port ready s t
  assume IH: "\<And>port ready s t. wu port ready s = Some t \<Longrightarrow> \<exists>n. ready (status_at s n)"
    and run: "(case inb port s of (st, s) \<Rightarrow> if \<not> ready st then wu port ready s else Some s) = Some t"
  show "\<exists>n. ready (status_at s n)"
  proof (cases "ready (status_at s 0)")
    case False
    then have "wu port ready (snd (inb port s)) = Some t" using run by (simp add: inb_run)
    from IH[OF this] obtain n where "ready (status_at (snd (inb port s)) n)" by blast
    then have "ready (status_at s (Suc n))" by (simp add: inb_run status_at_def)
    then show ?thesis by blast
  qed blast
qed

lemma wait_until_cases:
  "wait_until port ready s =
     (if \<exists>n. ready (status_at s n) then Some (after_reads port (Suc (LEAST n. ready (status_at s n))) s) else None)"
proof (cases "\<exists>n. ready (status_at s n)")
  case True
  then have "ready (status_at s (LEAST n. ready (status_at s n)))" by (rule LeastI_ex)
  moreover have "\<not> ready (status_at s i)" if "i < (LEAST n. ready (status_at s n))" for i
    using not_less_Least[OF that] .
  ultimately have "wait_until port ready s = Some (after_reads port (Suc (LEAST n. ready (status_at s n))) s)"
    by (rule wait_until_ends)
  then show ?thesis unfolding if_P[OF True] .
next
  case False
  then show ?thesis using wait_until_ready[of port ready s] by (cases "wait_until port ready s") auto
qed

text \<open>
  C25. A write to the PS/2 controller returns exactly when the controller some time reports
  that it has taken the last byte. Then the driver has polled the status up to the first
  such answer, has not sent anything before it, and has sent the one byte after it; if
  the answer never comes the call hangs.
\<close>

theorem ps2_write_live:
  "(\<forall>n. status_at s n AND 2 \<noteq> 0) \<and> ps2_write data port s = None \<or>
   (\<exists>n. status_at s n AND 2 = 0 \<and> (\<forall>i<n. status_at s i AND 2 \<noteq> 0) \<and>
     (\<exists>t. ps2_write data port s = Some t \<and> reads t = reads s + Suc n \<and>
       events t = events s @ map (\<lambda>i. In 0x64 (ucast (status_at s i))) [0..<Suc n] @ [Out (ucast port) (ucast data)]))"
proof (cases "\<exists>n. status_at s n AND 2 = 0")
  case True
  define n where "n = (LEAST n. status_at s n AND 2 = 0)"
  have n: "status_at s n AND 2 = 0" "\<forall>i<n. status_at s i AND 2 \<noteq> 0"
    using True LeastI_ex[of "\<lambda>n. status_at s n AND 2 = 0"] not_less_Least unfolding n_def by blast+
  have "wait_writable s = Some (after_reads 0x64 (Suc n) s)"
    using True unfolding wait_writable_def wait_until_cases n_def by simp
  then show ?thesis using n by (intro disjI2 exI[of _ n]) (simp add: ps2_write_def outb_def emit_def after_reads_def)
next
  case False
  then show ?thesis unfolding ps2_write_def wait_writable_def wait_until_cases by simp
qed

definition hw_busy :: hw where
  "hw_busy = hw_example\<lparr>answer := (\<lambda>n. if n < 2 then 3 else if n = 2 then 1 else 0x55)\<rparr>"

theorem ps2_write_live_witness:
  "\<exists>t. ps2_write 0xaa 0x64 hw_busy = Some t \<and> events t = [In 0x64 3, In 0x64 3, In 0x64 1, Out 0x64 0xaa]"
proof -
  have st: "status_at hw_busy 0 = 3" "status_at hw_busy 1 = 3" "status_at hw_busy 2 = 1" by code_simp+
  have b: "status_at hw_busy 0 AND 2 \<noteq> 0" "status_at hw_busy 1 AND 2 \<noteq> 0" "status_at hw_busy 2 AND 2 = 0" unfolding st by simp_all
  obtain n t where n: "status_at hw_busy n AND 2 = 0" "\<forall>i<n. status_at hw_busy i AND 2 \<noteq> 0" "ps2_write 0xaa 0x64 hw_busy = Some t"
    "events t = events hw_busy @ map (\<lambda>i. In 0x64 (ucast (status_at hw_busy i))) [0..<Suc n] @ [Out (ucast (0x64 :: u8)) (ucast (0xaa :: u8))]"
    using ps2_write_live[of hw_busy "0xaa" "0x64"] b(3) by auto
  have "n = 2" using n(1,2) b
    by (metis One_nat_def Suc_1 less_2_cases linorder_neqE_nat)
  moreover have "[0..<Suc 2] = [0, 1, 2]" "events hw_busy = []" by (simp_all add: upt_rec hw_busy_def hw_example_def)
  ultimately show ?thesis using n(3,4) st by simp
qed

text \<open>
  What is read is what the controller had ready: \<open>read\<close> returns the byte that the
  data port answers right after the first status with a full output buffer.
\<close>

theorem ps2_read_live:
  "(\<exists>n. status_at s n AND 1 \<noteq> 0 \<and> (\<forall>i<n. status_at s i AND 1 = 0) \<and>
     (\<exists>t. ps2_read s = Some (status_at s (Suc n), t) \<and> reads t = reads s + Suc (Suc n))) \<or>
   (\<forall>n. status_at s n AND 1 = 0) \<and> ps2_read s = None"
proof (cases "\<exists>n. status_at s n AND 1 \<noteq> 0")
  case True
  define n where "n = (LEAST n. status_at s n AND 1 \<noteq> 0)"
  have n: "status_at s n AND 1 \<noteq> 0" "\<forall>i<n. status_at s i AND 1 = 0"
    using True LeastI_ex[of "\<lambda>n. status_at s n AND 1 \<noteq> 0"] not_less_Least unfolding n_def by blast+
  have "wait_readable s = Some (after_reads 0x64 (Suc n) s)"
    using True unfolding wait_readable_def wait_until_cases n_def by simp
  then show ?thesis using n by (intro disjI1 exI[of _ n]) (simp add: ps2_read_def inb_run after_reads_def status_at_def)
next
  case False
  then show ?thesis unfolding ps2_read_def wait_readable_def wait_until_cases by simp
qed

theorem ps2_read_live_witness: "\<exists>t. ps2_read hw_busy = Some (3, t)"
proof -
  have st: "status_at hw_busy 0 AND 1 \<noteq> 0" "status_at hw_busy 1 = 3" by code_simp+
  obtain n t where n: "\<forall>i<n. status_at hw_busy i AND 1 = 0" "ps2_read hw_busy = Some (status_at hw_busy (Suc n), t)"
    using ps2_read_live[of hw_busy] st(1) by auto
  have "n = 0" using n(1) st(1) by (metis gr0I)
  then show ?thesis using n(2) st(2) by simp
qed

end
