(* ===== verification/Nya_Keyboard.thy ===== *)
theory Nya_Keyboard
  imports Nya_Ps2
begin

unbundle bit_operations_syntax

section \<open>The keyboard\<close>

text \<open>
  \<open>drivers/keyboard.h\<close>, \<open>drivers/keyboard.c\<close> and the key handler of \<open>kernel/kernel.c\<close>. A
  \<open>KEY\<close> is the value of a C enumeration: the position of its name in the list of the
  enumerators. The two tables of scan codes list the designated initialisers of the source;
  every other entry is zero, which is \<open>KEY_UNKNOWN\<close>.
\<close>

subsection \<open>Keys\<close>

type_synonym KEY = nat

definition KEY_names :: "string list" where
  "KEY_names =
    [''KEY_UNKNOWN'', ''A'', ''B'', ''C'', ''D'', ''E'', ''F'', ''G'', ''H'', ''I'', ''J'', ''K'',
     ''L'', ''M'', ''N'', ''O'', ''P'', ''Q'', ''R'', ''S'', ''T'', ''U'', ''V'', ''W'', ''X'', ''Y'',
     ''Z'', ''NUM0'', ''NUM1'', ''NUM2'', ''NUM3'', ''NUM4'', ''NUM5'', ''NUM6'', ''NUM7'', ''NUM8'',
     ''NUM9'', ''ESC'', ''LCTRL'', ''LSHIFT'', ''LALT'', ''LSYSTEM'', ''RCTRL'', ''RSHIFT'', ''RALT'',
     ''RSYSTEM'', ''MENU'', ''LBRACKET'', ''RBRACKET'', ''SEMICOLON'', ''COMMA'', ''PERIOD'', ''QUOTE'',
     ''SLASH'', ''BACKSLASH'', ''TILDE'', ''EQUAL'', ''DASH'', ''SPACE'', ''RET'', ''BACK'', ''TAB'',
     ''PAGEUP'', ''PAGEDOWN'', ''END'', ''HOME'', ''INSERT'', ''DELETE'', ''ADD'', ''SUBTRACT'',
     ''MULT'', ''DIV'', ''LEFT'', ''RIGHT'', ''UP'', ''DOWN'', ''NP0'', ''NP1'', ''NP2'', ''NP3'',
     ''NP4'', ''NP5'', ''NP6'', ''NP7'', ''NP8'', ''NP9'', ''F1'', ''F2'', ''F3'', ''F4'', ''F5'',
     ''F6'', ''F7'', ''F8'', ''F9'', ''F10'', ''F11'', ''F12'', ''F13'', ''F14'', ''F15'', ''CAPSLOCK'',
     ''NUMLOCK'', ''SCROLLLOCK'', ''NPDECIMAL'', ''NPENTER'', ''PRINTSCREEN'', ''WWW_SEARCH'',
     ''PREV_TRACK'', ''WWW_FAVORITES'', ''WWW_REFRESH'', ''VOLUME_DOWN'', ''MUTE'', ''WWW_STOP'',
     ''CALCULATOR'', ''WWW_FORWARD'', ''VOLUME_UP'', ''PLAY_PAUSE'', ''POWER'', ''WWW_BACK'',
     ''WWW_HOME'', ''MEDIA_STOP'', ''SLEEP'', ''MY_COMPUTER'', ''EMAIL'', ''NEXT_TRACK'',
     ''MEDIA_SELECT'', ''WAKE'', ''PAUSE'']"

fun enumerator :: "string list \<Rightarrow> string \<Rightarrow> nat" where
  "enumerator [] n = 0"
| "enumerator (m # ms) n = (if m = n then 0 else Suc (enumerator ms n))"

definition key :: "string \<Rightarrow> KEY" where
  "key n = enumerator KEY_names n"

fun lookup_key :: "(u8 \<times> string) list \<Rightarrow> u8 \<Rightarrow> KEY" where
  "lookup_key [] c = 0"
| "lookup_key ((d, n) # t) c = (if d = c then key n else lookup_key t c)"

definition normal_keys :: "u8 \<Rightarrow> KEY" where
  "normal_keys c = lookup_key
    [(0x01, ''F9''), (0x03, ''F5''), (0x04, ''F3''), (0x05, ''F1''), (0x06, ''F2''), (0x07, ''F12''),
     (0x09, ''F10''), (0x0A, ''F8''), (0x0B, ''F6''), (0x0C, ''F4''), (0x0D, ''TAB''),
     (0x0E, ''TILDE''), (0x11, ''LALT''), (0x12, ''LSHIFT''), (0x14, ''LCTRL''), (0x15, ''Q''),
     (0x16, ''NUM1''), (0x1A, ''Z''), (0x1B, ''S''), (0x1C, ''A''), (0x1D, ''W''), (0x1E, ''NUM2''),
     (0x21, ''C''), (0x22, ''X''), (0x23, ''D''), (0x24, ''E''), (0x25, ''NUM4''), (0x26, ''NUM3''),
     (0x29, ''SPACE''), (0x2A, ''V''), (0x2B, ''F''), (0x2C, ''T''), (0x2D, ''R''), (0x2E, ''NUM5''),
     (0x31, ''N''), (0x32, ''B''), (0x33, ''H''), (0x34, ''G''), (0x35, ''Y''), (0x36, ''NUM6''),
     (0x3A, ''M''), (0x3B, ''J''), (0x3C, ''U''), (0x3D, ''NUM7''), (0x3E, ''NUM8''), (0x41, ''COMMA''),
     (0x42, ''K''), (0x43, ''I''), (0x44, ''O''), (0x45, ''NUM0''), (0x46, ''NUM9''),
     (0x49, ''PERIOD''), (0x4A, ''SLASH''), (0x4B, ''L''), (0x4C, ''SEMICOLON''), (0x4D, ''P''),
     (0x4E, ''DASH''), (0x52, ''QUOTE''), (0x54, ''LBRACKET''), (0x55, ''EQUAL''), (0x58, ''CAPSLOCK''),
     (0x59, ''RSHIFT''), (0x5A, ''RET''), (0x5B, ''RBRACKET''), (0x5D, ''BACKSLASH''), (0x66, ''BACK''),
     (0x69, ''NP1''), (0x6B, ''NP4''), (0x6C, ''NP7''), (0x70, ''NP0''), (0x71, ''NPDECIMAL''),
     (0x72, ''NP2''), (0x73, ''NP5''), (0x74, ''NP6''), (0x75, ''NP8''), (0x76, ''ESC''),
     (0x77, ''NUMLOCK''), (0x78, ''F11''), (0x79, ''ADD''), (0x7A, ''NP3''), (0x7B, ''SUBTRACT''),
     (0x7C, ''MULT''), (0x7D, ''NP9''), (0x7E, ''SCROLLLOCK''), (0x83, ''F7'')] c"

definition extended_keys :: "u8 \<Rightarrow> KEY" where
  "extended_keys c = lookup_key
    [(0x10, ''WWW_SEARCH''), (0x11, ''RALT''), (0x14, ''RCTRL''), (0x15, ''PREV_TRACK''),
     (0x18, ''WWW_FAVORITES''), (0x1F, ''LSYSTEM''), (0x20, ''WWW_REFRESH''), (0x21, ''VOLUME_DOWN''),
     (0x23, ''MUTE''), (0x27, ''RSYSTEM''), (0x28, ''WWW_STOP''), (0x2B, ''CALCULATOR''),
     (0x2F, ''MENU''), (0x30, ''WWW_FORWARD''), (0x32, ''VOLUME_UP''), (0x34, ''PLAY_PAUSE''),
     (0x37, ''POWER''), (0x38, ''WWW_BACK''), (0x3A, ''WWW_HOME''), (0x3B, ''MEDIA_STOP''),
     (0x3F, ''SLEEP''), (0x40, ''MY_COMPUTER''), (0x48, ''EMAIL''), (0x4A, ''DIV''),
     (0x4D, ''NEXT_TRACK''), (0x50, ''MEDIA_SELECT''), (0x5A, ''NPENTER''), (0x5E, ''WAKE''),
     (0x69, ''END''), (0x6B, ''LEFT''), (0x6C, ''HOME''), (0x70, ''INSERT''), (0x71, ''DELETE''),
     (0x72, ''DOWN''), (0x74, ''RIGHT''), (0x75, ''UP''), (0x7A, ''PAGEDOWN''), (0x7D, ''PAGEUP'')] c"

subsection \<open>State\<close>

datatype KEYBOARD_STATE = READY | BREAK | EXTENDED | EXTENDED_BREAK

text \<open>The functions the handler pointers take: the default one and \<open>key_down\<close> of the kernel.\<close>

datatype handler = DefaultHandler | KeyDown

record keyboard =
  state :: KEYBOARD_STATE
  key_states :: "bool list"
  caps_lock :: bool
  key_down_handler :: "handler option"
  key_up_handler :: "handler option"

definition keyboard_boot :: keyboard where
  "keyboard_boot = \<lparr>state = READY, key_states = replicate (key ''PAUSE'' + 1) False, caps_lock = False,
     key_down_handler = None, key_up_handler = None\<rparr>"

definition set_key :: "KEY \<Rightarrow> bool \<Rightarrow> keyboard \<Rightarrow> keyboard res" where
  "set_key k v kb = (if k < length (key_states kb) then Inr (kb\<lparr>key_states := (key_states kb)[k := v]\<rparr>) else Inl OutOfBounds)"

definition default_handler :: "KEY \<Rightarrow> hw \<Rightarrow> hw" where
  "default_handler kc s = s"

text \<open>\<open>key_down\<close> of \<open>kernel.c\<close>: the character is computed in a \<open>char\<close>.\<close>

definition key_down :: "KEY \<Rightarrow> keyboard \<Rightarrow> hw \<Rightarrow> hw res" where
  "key_down kc kb s =
     (if key ''A'' \<le> kc \<and> kc \<le> key ''Z''
      then bindR (if key ''LSHIFT'' < length (key_states kb) then Inr (key_states kb ! key ''LSHIFT'') else Inl OutOfBounds)
             (\<lambda>shift. let c = of_nat (kc - key ''A'') + 0x61 :: u8;
                          c = (if shift \<or> caps_lock kb then c - (0x61 - 0x41) else c)
                      in Inr (kprintf ''%c'' [scast c] s))
      else if kc = key ''RET'' then Inr (kprintf ''\<newline>'' [] s)
      else if kc = key ''SPACE'' then Inr (kprintf '' '' [] s)
      else Inr s)"

definition run_handler :: "handler option \<Rightarrow> KEY \<Rightarrow> keyboard \<Rightarrow> hw \<Rightarrow> hw res" where
  "run_handler h kc kb s =
     (case h of None \<Rightarrow> Inr s
      | Some DefaultHandler \<Rightarrow> Inr (default_handler kc s)
      | Some KeyDown \<Rightarrow> key_down kc kb s)"

subsection \<open>Scan codes\<close>

definition key_pressed :: "KEY \<Rightarrow> keyboard \<Rightarrow> hw \<Rightarrow> (keyboard \<times> hw) res" where
  "key_pressed kc kb s =
     bindR (set_key kc True kb) (\<lambda>kb. bindR (run_handler (key_down_handler kb) kc kb s) (\<lambda>s. Inr (kb, s)))"

definition key_released :: "KEY \<Rightarrow> keyboard \<Rightarrow> hw \<Rightarrow> (keyboard \<times> hw) res" where
  "key_released kc kb s =
     bindR (set_key kc False kb) (\<lambda>kb. bindR (run_handler (key_up_handler kb) kc kb s) (\<lambda>s. Inr (kb\<lparr>state := READY\<rparr>, s)))"

definition on_scancode :: "u8 \<Rightarrow> keyboard \<Rightarrow> hw \<Rightarrow> (keyboard \<times> hw) res" where
  "on_scancode scancode kb s =
     (case state kb of
        READY \<Rightarrow>
          if scancode = 0xf0 then Inr (kb\<lparr>state := BREAK\<rparr>, s)
          else if scancode = 0xe0 then Inr (kb\<lparr>state := EXTENDED\<rparr>, s)
          else let keycode = normal_keys scancode
               in bindR (set_key keycode True kb) (\<lambda>kb.
                  let kb = (if keycode = key ''CAPSLOCK'' then kb\<lparr>caps_lock := \<not> caps_lock kb\<rparr> else kb)
                  in bindR (run_handler (key_down_handler kb) keycode kb s) (\<lambda>s. Inr (kb, s)))
      | BREAK \<Rightarrow> key_released (normal_keys scancode) kb s
      | EXTENDED \<Rightarrow> key_pressed (extended_keys scancode) kb s
      | EXTENDED_BREAK \<Rightarrow> key_released (extended_keys scancode) kb s)"

definition handle_keyboard :: "keyboard \<Rightarrow> hw \<Rightarrow> (keyboard \<times> hw) res" where
  "handle_keyboard kb s = (case recv s of (scancode, s) \<Rightarrow> on_scancode scancode kb s)"

subsection \<open>Enabling the keyboard\<close>

partial_function (option) send_enable :: "hw \<Rightarrow> hw option" where
  "send_enable s = do { s \<leftarrow> send 0xf4 0 s; (res, s) \<leftarrow> poll s; if res = 0xfe then send_enable s else Some s }"

declare send_enable.simps [code]

definition kb_enable_scanning :: "keyboard \<Rightarrow> hw \<Rightarrow> (keyboard \<times> hw) option" where
  "kb_enable_scanning kb s = do {
     let kb = kb\<lparr>key_up_handler := Some DefaultHandler, key_down_handler := Some DefaultHandler\<rparr>;
     s \<leftarrow> send 0xf0 0 s;
     (res, s) \<leftarrow> poll s;
     s \<leftarrow> (if res = 0xfa then do {
             s \<leftarrow> send 0 0 s;
             (r, s) \<leftarrow> poll s;
             if r = 0xfa then do {
               (scancode, s) \<leftarrow> poll s;
               Some (kprintf ''Enabling scanning on keyboard with scancode set %x\<newline>'' [ucast scancode] s) }
             else Some s }
           else Some s);
     s \<leftarrow> send_enable s;
     s \<leftarrow> dev1_enable_irq s;
     Some (kb\<lparr>state := READY\<rparr>, s) }"

end
