(* ===== verification/Nya_Keyboard_Decode.thy ===== *)
theory Nya_Keyboard_Decode
  imports Nya_Keyboard
begin

section \<open>What the keyboard driver decodes\<close>

text \<open>
  The driver against an abstract keyboard that reports presses and releases, the invariant of
  its state machine, and what the kernel's key handler prints.
\<close>

subsection \<open>The tables\<close>

lemma key_values:
  "length KEY_names = 129" "key ''PAUSE'' = 128" "key ''A'' = 1" "key ''Z'' = 26" "key ''LSHIFT'' = 39"
  "key ''RET'' = 59" "key ''SPACE'' = 58" "key ''CAPSLOCK'' = 101"
  by code_simp+

lemma lookup_key_bound: "list_all (\<lambda>(d, n). key n < m) t \<Longrightarrow> 0 < m \<Longrightarrow> lookup_key t c < m"
  by (induction t c rule: lookup_key.induct) auto

lemma normal_keys_bound: "normal_keys c < 129"
  unfolding normal_keys_def by (rule lookup_key_bound) code_simp+

lemma extended_keys_bound: "extended_keys c < 129"
  unfolding extended_keys_def by (rule lookup_key_bound) code_simp+

subsection \<open>The invariant\<close>

definition kb_inv :: "keyboard \<Rightarrow> bool" where
  "kb_inv kb \<longleftrightarrow> length (key_states kb) = 129 \<and> state kb \<noteq> EXTENDED_BREAK"

lemma set_key_ok: "k < 129 \<Longrightarrow> length (key_states kb) = 129 \<Longrightarrow> set_key k v kb = Inr (kb\<lparr>key_states := (key_states kb)[k := v]\<rparr>)"
  by (simp add: set_key_def)

lemma key_down_total: "length (key_states kb) = 129 \<Longrightarrow> \<exists>t. key_down k kb s = Inr t"
  by (simp add: key_down_def key_values Let_def)

lemma run_handler_total: "length (key_states kb) = 129 \<Longrightarrow> \<exists>t. run_handler h k kb s = Inr t"
  using key_down_total by (simp add: run_handler_def split: option.split handler.split)

lemma key_pressed_ok:
  assumes "k < 129" "length (key_states kb) = 129"
  shows "\<exists>t. key_pressed k kb s = Inr (kb\<lparr>key_states := (key_states kb)[k := True]\<rparr>, t)"
  using assms run_handler_total[of "kb\<lparr>key_states := (key_states kb)[k := True]\<rparr>" "key_down_handler kb" k s]
  by (auto simp: key_pressed_def set_key_ok)

lemma key_released_ok:
  assumes "k < 129" "length (key_states kb) = 129"
  shows "\<exists>t. key_released k kb s = Inr (kb\<lparr>key_states := (key_states kb)[k := False], state := READY\<rparr>, t)"
  using assms run_handler_total[of "kb\<lparr>key_states := (key_states kb)[k := False]\<rparr>" "key_up_handler kb" k s]
  by (auto simp: key_released_def set_key_ok)

lemma ready_make:
  assumes "length (key_states kb) = 129" "state kb = READY" "c \<noteq> 0xf0" "c \<noteq> 0xe0"
  shows "\<exists>t. on_scancode c kb s = Inr (kb\<lparr>key_states := (key_states kb)[normal_keys c := True],
    caps_lock := (caps_lock kb \<noteq> (normal_keys c = key ''CAPSLOCK''))\<rparr>, t)"
proof -
  let ?kb = "kb\<lparr>key_states := (key_states kb)[normal_keys c := True], caps_lock := (caps_lock kb \<noteq> (normal_keys c = key ''CAPSLOCK''))\<rparr>"
  obtain t where "run_handler (key_down_handler ?kb) (normal_keys c) ?kb s = Inr t"
    using run_handler_total[of ?kb "key_down_handler ?kb" "normal_keys c" s] assms(1) by (auto simp del: not_not)
  then show ?thesis using assms set_key_ok[OF normal_keys_bound assms(1), of c True]
    by (cases "normal_keys c = key ''CAPSLOCK''") (simp_all add: on_scancode_def Let_def)
qed

subsection \<open>Reachable states\<close>

inductive kb_reach :: "keyboard \<Rightarrow> keyboard \<Rightarrow> bool" where
  start: "kb_reach kb kb"
| scancode: "kb_reach kb kb1 \<Longrightarrow> on_scancode c kb1 s = Inr (kb2, t) \<Longrightarrow> kb_reach kb kb2"

inductive_cases kb_reachE: "kb_reach kb kb2"

lemma on_scancode_cases:
  assumes "kb_inv kb"
  shows "\<exists>kb' t. on_scancode c kb s = Inr (kb', t) \<and> kb_inv kb' \<and> (state kb = EXTENDED \<longrightarrow> state kb' = EXTENDED)"
proof -
  have l: "length (key_states kb) = 129" using assms by (simp add: kb_inv_def)
  show ?thesis
  proof (cases "state kb")
    case READY
    consider "c = 0xf0" | "c = 0xe0" | "c \<noteq> 0xf0" "c \<noteq> 0xe0" by blast
    then show ?thesis
    proof cases
      case 3
      then show ?thesis using ready_make[OF l READY, of c s] READY l by (auto simp: kb_inv_def)
    qed (use READY l in \<open>simp_all add: on_scancode_def kb_inv_def\<close>)
  next
    case BREAK
    then show ?thesis using key_released_ok[OF normal_keys_bound l, of c s] l by (auto simp: on_scancode_def kb_inv_def)
  next
    case EXTENDED
    then show ?thesis using key_pressed_ok[OF extended_keys_bound l, of c s] l by (auto simp: on_scancode_def kb_inv_def)
  next
    case EXTENDED_BREAK
    then show ?thesis using assms by (simp add: kb_inv_def)
  qed
qed

lemma kb_reach_inv: "kb_reach kb kb' \<Longrightarrow> kb_inv kb \<Longrightarrow> kb_inv kb' \<and> (state kb = EXTENDED \<longrightarrow> state kb' = EXTENDED)"
proof (induction rule: kb_reach.induct)
  case (scancode kb kb1 c s kb2 t)
  then show ?case using on_scancode_cases[of kb1 c s] by auto
qed simp



text \<open>
  The prefix \<open>0xe0\<close> is a trap: once it is seen, every later scan code is taken as the
  press of an extended key, and no sequence of scan codes leads back to \<open>READY\<close>.
\<close>

theorem extended_prefix_absorbs:
  assumes "kb_inv kb" "state kb = READY" "on_scancode 0xe0 kb s = Inr (kb1, t)" "kb_reach kb1 kb2"
  shows "state kb2 = EXTENDED"
proof -
  have "kb1 = kb\<lparr>state := EXTENDED\<rparr>" using assms(2,3) by (simp add: on_scancode_def)
  then have "kb_inv kb1" "state kb1 = EXTENDED" using assms(1) by (simp_all add: kb_inv_def)
  then show ?thesis using kb_reach_inv[OF assms(4)] by blast
qed

theorem extended_prefix_absorbs_witness:
  "\<exists>kb1 t kb2 u. on_scancode 0xe0 keyboard_boot hw_example = Inr (kb1, t) \<and> on_scancode 0xf0 kb1 t = Inr (kb2, u) \<and>
     state kb2 = EXTENDED"
proof -
  have b: "kb_inv keyboard_boot" "state keyboard_boot = READY" by (simp_all add: kb_inv_def keyboard_boot_def key_values)
  obtain kb1 t where 1: "on_scancode 0xe0 keyboard_boot hw_example = Inr (kb1, t)" "kb_inv kb1"
    using on_scancode_cases[OF b(1), of "0xe0" hw_example] by blast
  obtain kb2 u where 2: "on_scancode 0xf0 kb1 t = Inr (kb2, u)" using on_scancode_cases[OF 1(2), of "0xf0" t] by blast
  have "kb_reach kb1 kb2" by (rule kb_reach.scancode[OF kb_reach.start 2])
  then show ?thesis using extended_prefix_absorbs[OF b 1(1)] 1 2 by blast
qed

subsection \<open>Presses and releases\<close>

datatype key_event = Press u8 | Release u8

fun encode :: "key_event \<Rightarrow> u8 list" where
  "encode (Press c) = [c]"
| "encode (Release c) = [0xf0, c]"

definition valid_event :: "key_event \<Rightarrow> bool" where
  "valid_event e \<longleftrightarrow> (case e of Press c \<Rightarrow> c \<noteq> 0xf0 \<and> c \<noteq> 0xe0 | Release c \<Rightarrow> True)"

text \<open>The abstract keyboard: which keys are down, and the caps lock.\<close>

fun apply_event :: "key_event \<Rightarrow> bool list \<times> bool \<Rightarrow> bool list \<times> bool" where
  "apply_event (Press c) (d, l) = (d[normal_keys c := True], l \<noteq> (normal_keys c = key ''CAPSLOCK''))"
| "apply_event (Release c) (d, l) = (d[normal_keys c := False], l)"

fun scancodes :: "u8 list \<Rightarrow> keyboard \<Rightarrow> hw \<Rightarrow> (keyboard \<times> hw) res" where
  "scancodes [] kb s = Inr (kb, s)"
| "scancodes (c # cs) kb s = bindR (on_scancode c kb s) (\<lambda>(kb, s). scancodes cs kb s)"

lemma scancodes_append:
  "scancodes (cs @ ds) kb s = bindR (scancodes cs kb s) (\<lambda>(kb, s). scancodes ds kb s)"
  by (induction cs arbitrary: kb s) (auto simp: bindR_def split: sum.splits prod.splits)

lemma scancodes_event:
  assumes "length (key_states kb) = 129" "state kb = READY" "valid_event e"
  shows "\<exists>kb' t. scancodes (encode e) kb s = Inr (kb', t) \<and> length (key_states kb') = 129 \<and> state kb' = READY \<and>
    (key_states kb', caps_lock kb') = apply_event e (key_states kb, caps_lock kb)"
proof (cases e)
  case (Press c)
  then show ?thesis using ready_make[OF assms(1,2), of c s] assms by (auto simp: valid_event_def)
next
  case (Release c)
  let ?kb = "kb\<lparr>state := BREAK\<rparr>"
  have "\<exists>t. on_scancode c ?kb s = Inr (?kb\<lparr>key_states := (key_states kb)[normal_keys c := False], state := READY\<rparr>, t)"
    using key_released_ok[OF normal_keys_bound, of ?kb c s] assms(1) by (simp add: on_scancode_def)
  moreover have "on_scancode 0xf0 kb s = Inr (?kb, s)" using assms(2) by (simp add: on_scancode_def)
  ultimately show ?thesis using Release assms(1) by auto
qed

text \<open>
  C5. The decoder implements the abstract keyboard: for every sequence of presses and
  releases of normal keys, sent as set-2 scan codes, the handler ends without a fault,
  returns to \<open>READY\<close>, and its key table and caps lock are those of the abstract keyboard.
\<close>

theorem keyboard_decodes:
  assumes "length (key_states kb) = 129" "state kb = READY" "list_all valid_event es"
  shows "\<exists>kb' t. scancodes (concat (map encode es)) kb s = Inr (kb', t) \<and> state kb' = READY \<and>
    (key_states kb', caps_lock kb') = fold apply_event es (key_states kb, caps_lock kb)"
  using assms
proof (induction es arbitrary: kb s)
  case (Cons e es)
  obtain kb1 t where 1: "scancodes (encode e) kb s = Inr (kb1, t)" "length (key_states kb1) = 129" "state kb1 = READY"
    "(key_states kb1, caps_lock kb1) = apply_event e (key_states kb, caps_lock kb)"
    using scancodes_event[OF Cons.prems(1,2), of e s] Cons.prems(3) by auto
  show ?case using Cons.IH[OF 1(2,3), of t] Cons.prems(3) 1(1,4) by (auto simp: scancodes_append)
qed simp

theorem keyboard_decodes_witness:
  "\<exists>kb' t. scancodes [0x58, 0xf0, 0x58, 0x1c] keyboard_boot hw_example = Inr (kb', t) \<and> caps_lock kb' \<and> key_states kb' ! key ''A''"
proof -
  let ?es = "[Press 0x58, Release 0x58, Press 0x1c]"
  have n: "normal_keys 0x58 = 101" "normal_keys 0x1c = 1" by code_simp+
  have "length (key_states keyboard_boot) = 129" "state keyboard_boot = READY" "caps_lock keyboard_boot = False"
    by (simp_all add: keyboard_boot_def key_values)
  then show ?thesis using keyboard_decodes[of keyboard_boot ?es hw_example]
    by (auto simp: valid_event_def n key_values)
qed

subsection \<open>What the kernel prints\<close>

lemma letter_pressed:
  assumes "length (key_states kb) = 129" "state kb = READY" "key_down_handler kb = Some KeyDown"
    "normal_keys c = key ''A'' + i" "i < 26" "c \<noteq> 0xf0" "c \<noteq> 0xe0"
  shows "\<exists>kb' t. on_scancode c kb s = Inr (kb', t) \<and>
    events t = events s @ [Printf ''%c'' [of_nat ((if key_states kb ! key ''LSHIFT'' \<or> caps_lock kb then 65 else 97) + i)]]"
proof -
  let ?kb = "kb\<lparr>key_states := (key_states kb)[normal_keys c := True]\<rparr>"
  have k: "normal_keys c = Suc i" using assms(4) by (simp add: key_values)
  have sh: "key_states ?kb ! 39 = key_states kb ! 39" using assms(1,5) k by simp
  have up: "(of_nat i + 0x61 - (0x61 - 0x41) :: u8) = of_nat (65 + i)" by (simp add: algebra_simps)
  have sc: "scast (of_nat n :: u8) = (of_nat n :: u64)" if "n < 128" for n
  proof -
    have "sint (of_nat n :: u8) = int n"
      using that by (simp add: sint_uint signed_take_bit_int_eq_self take_bit_nat_eq_self unsigned_of_nat)
    then show ?thesis by (simp add: scast_eq)
  qed
  have "(of_nat i + 0x61 :: u8) = of_nat (97 + i)" by simp
  moreover have b: "97 + i < 128" "65 + i < 128" using assms(5) by simp_all
  ultimately have lo: "scast (of_nat i + 0x61 :: u8) = (of_nat (97 + i) :: u64)" using sc[OF b(1)] by argo
  have hi: "scast (of_nat i + 0x61 - (0x61 - 0x41) :: u8) = (of_nat (65 + i) :: u64)" using up sc[OF b(2)] by argo
  have "key_down (normal_keys c) ?kb s =
      Inr (kprintf ''%c'' [of_nat ((if key_states kb ! 39 \<or> caps_lock kb then 65 else 97) + i)] s)"
    unfolding key_down_def key_values using assms(1,5) k sh lo hi by (simp add: Let_def)
  then show ?thesis using assms set_key_ok[OF normal_keys_bound assms(1), of c True] k
    by (simp add: on_scancode_def run_handler_def key_values kprintf_def Let_def)
qed

text \<open>The handlers only read the data port and print.\<close>

lemma on_scancode_events:
  assumes "on_scancode c kb s = Inr (kb', t)"
  shows "\<exists>es. events t = events s @ es \<and> (\<forall>e\<in>set es. \<exists>f as. e = Printf f as)"
proof -
  have kd: "\<exists>es. events t = events s @ es \<and> (\<forall>e\<in>set es. \<exists>f as. e = Printf f as)" if "key_down k kb s = Inr t" for k kb s t
    using that by (auto simp: key_down_def Let_def bindR_def kprintf_def emit_def split: if_splits)
  have rh: "\<exists>es. events t = events s @ es \<and> (\<forall>e\<in>set es. \<exists>f as. e = Printf f as)" if "run_handler h k kb s = Inr t" for h k kb s t
    using that kd by (auto simp: run_handler_def default_handler_def split: option.splits handler.splits)
  show ?thesis using assms rh
    by (fastforce simp: on_scancode_def key_pressed_def key_released_def Let_def bindR_eq_Inr_iff
        split: KEYBOARD_STATE.splits if_splits)
qed

text \<open>
  With the kernel's key handler installed, the press of a letter prints exactly that
  letter, in upper case when the left shift key is down or the caps lock is on.
\<close>

theorem letters_are_printed:
  assumes "length (key_states kb) = 129" "state kb = READY" "key_down_handler kb = Some KeyDown"
    "normal_keys c = key ''A'' + i" "i < 26" "c \<noteq> 0xf0" "c \<noteq> 0xe0"
  shows "\<exists>kb' t. on_scancode c kb s = Inr (kb', t) \<and>
    events t = events s @ [Printf ''%c'' [of_nat ((if key_states kb ! key ''LSHIFT'' \<or> caps_lock kb then 65 else 97) + i)]]"
  by (rule letter_pressed[OF assms])

theorem letters_are_printed_witness:
  "\<exists>kb' t. on_scancode 0x1c (keyboard_boot\<lparr>key_down_handler := Some KeyDown, caps_lock := True\<rparr>) hw_example = Inr (kb', t) \<and>
     events t = [Printf ''%c'' [65]]"
proof -
  let ?kb = "keyboard_boot\<lparr>key_down_handler := Some KeyDown, caps_lock := True\<rparr>"
  have n: "normal_keys 0x1c = key ''A'' + 0" by code_simp
  have b: "length (key_states ?kb) = 129" "state ?kb = READY" by (simp_all add: keyboard_boot_def key_values)
  then show ?thesis using letters_are_printed[OF b _ n, of hw_example] by (auto simp: hw_example_def)
qed

end
