(* ===== verification/Nya_Tty.thy ===== *)
theory Nya_Tty
  imports Nya_String
begin

unbundle bit_operations_syntax

section \<open>The terminal\<close>

text \<open>
  \<open>kernel/arch/x86_64/tty.c\<close>. The framebuffer is an array of \<open>(pitch / 4) * height\<close> pixels
  and the font file an array of bytes; an access outside either is a fault. Pixel
  coordinates are 32-bit unsigned, as in the code.
\<close>

subsection \<open>State\<close>

record color =
  c_r :: u8
  c_g :: u8
  c_b :: u8

record PSF_font =
  fmagic :: u32
  fversion :: u32
  headersize :: u32
  fflags :: u32
  numglyph :: u32
  bytesperglyph :: u32
  fheight :: u32
  fwidth :: u32

record framebuffer =
  width :: u64
  height :: u64
  pitch :: u64

record tty =
  terminal_row :: u64
  terminal_column :: u64
  fb :: framebuffer
  pixels :: "nat \<Rightarrow> u32"
  font_header :: PSF_font
  font_file :: "u8 list"

definition terminal_fg :: color where
  "terminal_fg = \<lparr>c_r = 202, c_g = 211, c_b = 245\<rparr>"

definition terminal_bg :: color where
  "terminal_bg = \<lparr>c_r = 48, c_g = 52, c_b = 70\<rparr>"

definition font_size :: u32 where
  "font_size = 2"

definition fb_words :: "tty \<Rightarrow> nat" where
  "fb_words t = unat (pitch (fb t)) div 4 * unat (height (fb t))"

definition pixel_value :: "color \<Rightarrow> u32" where
  "pixel_value c = push_bit 16 (ucast (c_r c)) OR push_bit 8 (ucast (c_g c)) OR ucast (c_b c)"

subsection \<open>Drawing\<close>

definition put_word :: "nat \<Rightarrow> u32 \<Rightarrow> tty \<Rightarrow> tty res" where
  "put_word i v t = (if i < fb_words t then Inr (t\<lparr>pixels := (pixels t)(i := v)\<rparr>) else Inl OutOfBounds)"

definition putpixel :: "color \<Rightarrow> u32 \<Rightarrow> u32 \<Rightarrow> tty \<Rightarrow> tty res" where
  "putpixel c x y t =
     (let idx = ucast (ucast y * (pitch (fb t) div 4) + ucast x :: u64) :: u32
      in put_word (unat idx) (pixel_value c) t)"

text \<open>
  \<open>fillrect\<close> counts its rows from \<open>y\<close> but starts at the address of row zero. A sum that
  wraps around ends the loops at once.
\<close>

definition span :: "u32 \<Rightarrow> u32 \<Rightarrow> nat" where
  "span x w = (if x \<le> x + w then unat w else 0)"

definition fillrect :: "color \<Rightarrow> u32 \<Rightarrow> u32 \<Rightarrow> u32 \<Rightarrow> u32 \<Rightarrow> tty \<Rightarrow> tty res" where
  "fillrect c x y w h t =
     for_range (\<lambda>row. for_range (\<lambda>j. put_word (row * (unat (pitch (fb t)) div 4) + j) (pixel_value c)) (unat x) (span x w))
       0 (span y h) t"

definition font_byte :: "nat \<Rightarrow> tty \<Rightarrow> u8 res" where
  "font_byte i t = (if i < length (font_file t) then Inr (font_file t ! i) else Inl OutOfBounds)"

definition draw_block :: "color \<Rightarrow> u32 \<Rightarrow> u32 \<Rightarrow> u32 \<Rightarrow> tty \<Rightarrow> tty res" where
  "draw_block color x y pixel_size t =
     for_range (\<lambda>px. for_range (\<lambda>py. putpixel color (x + of_nat px) (y + of_nat py)) 0 (unat pixel_size)) 0 (unat pixel_size) t"

text \<open>One line of a glyph: \<open>bmask\<close> selects the bit and moves on to the next byte when it runs out.\<close>

fun draw_line :: "nat \<Rightarrow> nat \<Rightarrow> u8 \<Rightarrow> nat \<Rightarrow> u32 \<Rightarrow> u32 \<Rightarrow> color \<Rightarrow> u32 \<Rightarrow> tty \<Rightarrow> tty res" where
  "draw_line 0 j bmask currentByte x y color pixel_size t = Inr t"
| "draw_line (Suc n) j bmask currentByte x y color pixel_size t =
     bindR (font_byte currentByte t) (\<lambda>w.
     bindR (if w AND bmask \<noteq> 0 then draw_block color (x + of_nat j * pixel_size) y pixel_size t else Inr t) (\<lambda>t.
       let bmask' = drop_bit 1 bmask
       in if bmask' = 0 then draw_line n (Suc j) 0x80 (currentByte + 1) x y color pixel_size t
          else draw_line n (Suc j) bmask' currentByte x y color pixel_size t))"

definition glyph_start :: "u8 \<Rightarrow> tty \<Rightarrow> nat" where
  "glyph_start c t =
     (let f = font_header t
      in unat (headersize f) + unat ((if 0 < c \<and> ucast c < numglyph f then ucast c else 0) * bytesperglyph f))"

definition draw_char :: "u8 \<Rightarrow> u32 \<Rightarrow> u32 \<Rightarrow> color \<Rightarrow> u32 \<Rightarrow> tty \<Rightarrow> tty res" where
  "draw_char c x y color pixel_size t =
     (let f = font_header t; bytesPerGlyphLine = (fwidth f + 7) div 8
      in for_range (\<lambda>i. draw_line (unat (fwidth f)) 0 0x80 (glyph_start c t + unat (bytesPerGlyphLine * of_nat i))
                          x (y + of_nat i * pixel_size) color pixel_size) 0 (unat (fheight f)) t)"

definition clear_screen :: "tty \<Rightarrow> tty res" where
  "clear_screen t =
     for_range (\<lambda>y. for_range (\<lambda>x. putpixel terminal_bg (of_nat x) (of_nat y)) 0 (unat (width (fb t)))) 0 (unat (height (fb t))) t"

subsection \<open>Text\<close>

text \<open>The division by the size of a character cell is by zero for a font without pixels.\<close>

definition cells :: "u64 \<Rightarrow> u32 \<Rightarrow> u64 res" where
  "cells len glyph = (if glyph * font_size = 0 then Inl DivideByZero else Inr (len div ucast (glyph * font_size)))"

definition next_row :: "tty \<Rightarrow> tty res" where
  "next_row t =
     bindR (cells (height (fb t)) (fheight (font_header t))) (\<lambda>rows.
       let t = t\<lparr>terminal_row := terminal_row t + 1\<rparr>
       in if terminal_row t = rows then bindR (clear_screen t) (\<lambda>t. Inr (t\<lparr>terminal_row := 0\<rparr>)) else Inr t)"

definition terminal_putchar :: "u8 \<Rightarrow> tty \<Rightarrow> tty res" where
  "terminal_putchar uc t =
     (if uc = 10 then next_row (t\<lparr>terminal_column := 0\<rparr>)
      else bindR (draw_char uc (ucast (terminal_column t * ucast (fwidth (font_header t)) * ucast font_size))
                    (ucast (terminal_row t * ucast (fheight (font_header t)) * ucast font_size)) terminal_fg font_size t) (\<lambda>t.
           bindR (cells (width (fb t)) (fwidth (font_header t))) (\<lambda>cols.
             let t = t\<lparr>terminal_column := terminal_column t + 1\<rparr>
             in if terminal_column t = cols then next_row (t\<lparr>terminal_column := 0\<rparr>) else Inr t)))"

fun terminal_write :: "u8 list \<Rightarrow> tty \<Rightarrow> tty res" where
  "terminal_write [] t = Inr t"
| "terminal_write (c # cs) t = bindR (terminal_putchar c t) (terminal_write cs)"

text \<open>The string of \<open>terminal_writestring\<close> lies in memory; a string without end is \<open>None\<close>.\<close>

fun bytes_at :: "nat \<Rightarrow> u64 \<Rightarrow> mem \<Rightarrow> u8 list" where
  "bytes_at 0 a m = []"
| "bytes_at (Suc n) a m = m a # bytes_at n (a + 1) m"

definition terminal_writestring :: "u64 \<Rightarrow> mem \<Rightarrow> tty \<Rightarrow> tty res option" where
  "terminal_writestring data m t =
     (case strlen data m of None \<Rightarrow> None | Some n \<Rightarrow> Some (terminal_write (bytes_at (unat n) data m) t))"

text \<open>
  The font header is the first 32 bytes of the font module, eight little-endian words. It is
  read when the pointer is set, so a module shorter than its header is a fault there.
\<close>

definition le32 :: "u8 list \<Rightarrow> nat \<Rightarrow> u32" where
  "le32 bs i = ucast (bs ! i) OR push_bit 8 (ucast (bs ! (i + 1))) OR
     push_bit 16 (ucast (bs ! (i + 2))) OR push_bit 24 (ucast (bs ! (i + 3)))"

definition psf_header :: "u8 list \<Rightarrow> PSF_font" where
  "psf_header bs = \<lparr>fmagic = le32 bs 0, fversion = le32 bs 4, headersize = le32 bs 8, fflags = le32 bs 12,
     numglyph = le32 bs 16, bytesperglyph = le32 bs 20, fheight = le32 bs 24, fwidth = le32 bs 28\<rparr>"

definition psf_init :: "tty \<Rightarrow> tty res" where
  "psf_init t = (if 32 \<le> length (font_file t) then Inr (t\<lparr>font_header := psf_header (font_file t)\<rparr>) else Inl OutOfBounds)"

text \<open>
  \<open>terminal_initialize\<close>: no framebuffer halts the machine. The boot loader's answers are
  arguments: the framebuffers and the bytes of the font module.
\<close>

definition terminal_initialize :: "framebuffer list option \<Rightarrow> u8 list \<Rightarrow> tty \<Rightarrow> tty res option" where
  "terminal_initialize fbs file t =
     (case fbs of
        Some (f # _) \<Rightarrow> Some (bindR (psf_init (t\<lparr>fb := f, font_file := file\<rparr>)) clear_screen)
      | _ \<Rightarrow> None)"

end
