(* ===== verification/Nya_Tty_Safe.thy ===== *)
theory Nya_Tty_Safe
  imports Nya_Tty
begin

unbundle bit_operations_syntax

section \<open>The terminal stays inside the framebuffer\<close>

text \<open>
  The well-formed terminals: a framebuffer and a font whose sizes fit, a font file that holds
  all its glyphs, and a cursor on the screen. Every operation is shown to succeed on them.
\<close>

definition glyph_w :: "tty \<Rightarrow> nat" where "glyph_w t = unat (fwidth (font_header t)) * 2"
definition glyph_h :: "tty \<Rightarrow> nat" where "glyph_h t = unat (fheight (font_header t)) * 2"
definition cols :: "tty \<Rightarrow> nat" where "cols t = unat (width (fb t)) div glyph_w t"
definition rows :: "tty \<Rightarrow> nat" where "rows t = unat (height (fb t)) div glyph_h t"
definition line_bytes :: "tty \<Rightarrow> nat" where "line_bytes t = (unat (fwidth (font_header t)) + 7) div 8"

definition screen_wf :: "tty \<Rightarrow> bool" where
  "screen_wf t \<longleftrightarrow> unat (width (fb t)) \<le> unat (pitch (fb t)) div 4 \<and> fb_words t \<le> 2 ^ 32 \<and>
     unat (width (fb t)) < 2 ^ 31 \<and> unat (height (fb t)) < 2 ^ 31"

definition font_wf :: "tty \<Rightarrow> bool" where
  "font_wf t \<longleftrightarrow> 0 < glyph_w t \<and> 0 < glyph_h t \<and> glyph_w t \<le> unat (width (fb t)) \<and> glyph_h t \<le> unat (height (fb t)) \<and>
     (\<forall>c. glyph_start c t + line_bytes t * unat (fheight (font_header t)) \<le> length (font_file t))"

definition tty_wf :: "tty \<Rightarrow> bool" where
  "tty_wf t \<longleftrightarrow> screen_wf t \<and> font_wf t \<and> unat (terminal_row t) < rows t \<and> unat (terminal_column t) < cols t"

text \<open>Two states that differ in the pixels alone.\<close>

definition drawn :: "tty \<Rightarrow> tty \<Rightarrow> bool" where
  "drawn t u \<longleftrightarrow> u = t\<lparr>pixels := pixels u\<rparr>"

lemma drawn_refl [simp]: "drawn t t"
  by (simp add: drawn_def)

lemma drawn_trans: "drawn t u \<Longrightarrow> drawn u v \<Longrightarrow> drawn t v"
  unfolding drawn_def by (metis tty.surjective tty.update_convs(4))

lemma drawn_same:
  assumes "drawn t u"
  shows "fb u = fb t" "font_header u = font_header t" "font_file u = font_file t" "fb_words u = fb_words t"
    "screen_wf u = screen_wf t" "font_wf u = font_wf t" "rows u = rows t" "cols u = cols t"
    "terminal_row u = terminal_row t" "terminal_column u = terminal_column t"
proof -
  obtain p where u: "u = t\<lparr>pixels := p\<rparr>" using assms unfolding drawn_def by blast
  show "fb u = fb t" "font_header u = font_header t" "font_file u = font_file t" "fb_words u = fb_words t"
    "screen_wf u = screen_wf t" "font_wf u = font_wf t" "rows u = rows t" "cols u = cols t"
    "terminal_row u = terminal_row t" "terminal_column u = terminal_column t"
    unfolding u by (simp_all add: fb_words_def screen_wf_def font_wf_def glyph_start_def rows_def cols_def glyph_w_def
        glyph_h_def line_bytes_def)
qed

lemma for_range_drawn:
  assumes "\<And>i u. lo \<le> i \<Longrightarrow> i < lo + n \<Longrightarrow> drawn t u \<Longrightarrow> \<exists>v. f i u = Inr v \<and> drawn u v" "drawn t s"
  shows "\<exists>v. for_range f lo n s = Inr v \<and> drawn s v"
proof (rule for_range_total[where P = "\<lambda>i. drawn s"])
  fix i u assume "lo \<le> i" "i < lo + n" "drawn s u"
  then show "\<exists>v. f i u = Inr v \<and> drawn s v" using assms drawn_trans by blast
qed simp

lemma putpixel_ok:
  assumes "screen_wf t" "unat x < unat (width (fb t))" "unat y < unat (height (fb t))"
  shows "\<exists>u. putpixel c x y t = Inr u \<and> drawn t u"
proof -
  define p where "p = unat (pitch (fb t)) div 4"
  have w: "unat x < p" using assms(1,2) by (simp add: screen_wf_def p_def)
  have "Suc (unat y) * p \<le> unat (height (fb t)) * p" using assms(3) by (intro mult_le_mono1) simp
  then have lt: "unat y * p + unat x < fb_words t" using w by (simp add: fb_words_def p_def mult.commute)
  then have lt32: "unat y * p + unat x < 2 ^ 32" using assms(1) by (simp add: screen_wf_def)
  have yp: "unat y * p < 2 ^ 64" using lt32 by simp
  let ?i = "ucast y * (pitch (fb t) div 4) + ucast x :: u64"
  have up: "unat (pitch (fb t) div 4) = p" by (simp add: unat_div p_def)
  have "unat (ucast y * (pitch (fb t) div 4) :: u64) = unat y * p"
    unfolding unat_word_ariths(2) up unat_ucast_up using yp by simp
  then have "unat ?i = unat y * p + unat x"
    unfolding unat_word_ariths(1) unat_ucast_up using lt32 by simp
  then have "unat (ucast ?i :: u32) = unat y * p + unat x" using lt32 by (simp add: unat_ucast_down)
  then show ?thesis using lt by (simp add: putpixel_def put_word_def Let_def drawn_def)
qed

subsection \<open>Glyphs\<close>

lemma unat_add_of_nat: "unat (x :: u32) + i < 2 ^ 32 \<Longrightarrow> unat (x + of_nat i) = unat x + i"
  by (simp add: unat_word_ariths(1) unat_of_nat)

lemma draw_block_ok:
  assumes "screen_wf t" "unat x + 2 \<le> unat (width (fb t))" "unat y + 2 \<le> unat (height (fb t))" "drawn t u"
  shows "\<exists>v. draw_block c x y 2 u = Inr v \<and> drawn u v"
proof -
  have b: "unat (width (fb t)) < 2 ^ 31" "unat (height (fb t)) < 2 ^ 31" using assms(1) by (simp_all add: screen_wf_def)
  show ?thesis unfolding draw_block_def
  proof (rule for_range_drawn[OF for_range_drawn assms(4)])
    fix px py u v w assume d: "px < 0 + unat (2 :: u32)" "py < 0 + unat (2 :: u32)" "drawn t u" "drawn u v"
    have "drawn t v" using drawn_trans[OF d(3,4)] .
    note s = drawn_same[OF this]
    have "unat (x + of_nat px) = unat x + px" "unat (y + of_nat py) = unat y + py"
      using assms(2,3) b d by (auto intro!: unat_add_of_nat)
    then show "\<exists>w. putpixel c (x + of_nat px) (y + of_nat py) v = Inr w \<and> drawn v w"
      using assms(1-3) d s by (intro putpixel_ok) simp_all
  qed simp
qed

lemma draw_line_ok:
  assumes "screen_wf t" "unat x + (j + n) * 2 \<le> unat (width (fb t))" "unat y + 2 \<le> unat (height (fb t))"
    "cb + (k + n + 7) div 8 \<le> length (font_file t)" "k < 8" "m = drop_bit k 0x80" "drawn t u"
  shows "\<exists>v. draw_line n j m cb x y c 2 u = Inr v \<and> drawn u v"
  using assms
proof (induction n arbitrary: j m cb k u)
  case (Suc n)
  note s = drawn_same[OF Suc.prems(7)]
  have "1 \<le> (k + Suc n + 7) div 8" by simp
  then have cb: "cb < length (font_file t)" using Suc.prems(4) by linarith
  then have byte: "font_byte cb u = Inr (font_file t ! cb)" using s by (simp add: font_byte_def)
  have w: "unat (width (fb t)) < 2 ^ 31" using assms(1) by (simp add: screen_wf_def)
  have jj: "(of_nat j * 2 :: u32) = of_nat (j * 2)" by simp
  have ux: "unat (x + of_nat (j * 2)) = unat x + j * 2" using Suc.prems(2) w by (intro unat_add_of_nat) simp
  have "\<exists>v. draw_block c (x + of_nat (j * 2)) y 2 u = Inr v \<and> drawn u v"
    using Suc.prems(2) ux by (intro draw_block_ok[OF assms(1) _ assms(3) Suc.prems(7)]) simp
  then obtain v where v: "(if font_file t ! cb AND m \<noteq> 0 then draw_block c (x + of_nat j * 2) y 2 u else Inr u) = Inr v"
    "drawn u v" unfolding jj by (cases "font_file t ! cb AND m \<noteq> 0") auto
  have tv: "drawn t v" using drawn_trans[OF Suc.prems(7) v(2)] .
  have x': "unat x + (Suc j + n) * 2 \<le> unat (width (fb t))" using Suc.prems(2) by simp
  have "\<exists>w. (if drop_bit 1 m = 0 then draw_line n (Suc j) 0x80 (cb + 1) x y c 2 v else draw_line n (Suc j) (drop_bit 1 m) cb x y c 2 v) = Inr w \<and> drawn v w"
  proof (cases "k = 7")
    case True
    then have z: "drop_bit 1 m = 0" using Suc.prems(6) by simp
    have "cb + 1 + (0 + n + 7) div 8 \<le> length (font_file t)" using Suc.prems(4) True by simp
    then show ?thesis unfolding z using Suc.IH[OF assms(1) x' assms(3) _ _ _ tv, of "cb + 1" 0 "0x80"] by simp
  next
    case False
    then have k: "Suc k < 8" "k = 0 \<or> k = 1 \<or> k = 2 \<or> k = 3 \<or> k = 4 \<or> k = 5 \<or> k = 6" using Suc.prems(5) by auto
    have nz: "drop_bit 1 m \<noteq> 0" "drop_bit 1 m = drop_bit (Suc k) 0x80" unfolding Suc.prems(6) using k(2) by auto
    have "cb + (Suc k + n + 7) div 8 \<le> length (font_file t)" using Suc.prems(4) by simp
    then show ?thesis using Suc.IH[OF assms(1) x' assms(3) _ k(1) nz(2) tv, of cb] nz(1) by simp
  qed
  then show ?case using byte v drawn_trans by (auto simp: Let_def)
qed simp

lemma glyph_bytes:
  assumes "screen_wf t" "font_wf t" "i < unat (fheight (font_header t))"
  shows "unat ((fwidth (font_header t) + 7) div 8 * of_nat i) = line_bytes t * i" "0 < unat (fwidth (font_header t))"
proof -
  let ?w = "unat (fwidth (font_header t))" and ?h = "unat (fheight (font_header t))"
  have w: "0 < ?w" "?w * 2 \<le> unat (width (fb t))" "?h * 2 \<le> unat (height (fb t))"
    using assms(2) by (simp_all add: font_wf_def glyph_w_def glyph_h_def)
  then show "0 < ?w" by simp
  have "unat (width (fb t)) * unat (height (fb t)) \<le> fb_words t"
    using assms(1) unfolding screen_wf_def fb_words_def by (intro mult_le_mono1) blast
  then have b: "unat (width (fb t)) < 2 ^ 31" "unat (width (fb t)) * unat (height (fb t)) \<le> 2 ^ 32"
    using assms(1) unfolding screen_wf_def by linarith+
  have "unat (fwidth (font_header t) + 7) = ?w + 7" using w(2) b(1) by (simp add: unat_word_ariths(1))
  then have l: "unat ((fwidth (font_header t) + 7) div 8) = line_bytes t" by (simp add: unat_div line_bytes_def)
  have "line_bytes t \<le> ?w" using w(1) unfolding line_bytes_def by linarith
  moreover have "i * 2 < unat (height (fb t))" using assms(3) w(3) by simp
  ultimately have "line_bytes t * (i * 2) \<le> unat (width (fb t)) * unat (height (fb t))"
    using w(2) by (intro mult_le_mono) linarith+
  then have p: "line_bytes t * i < 2 ^ 32" using b(2) by simp
  have "unat (fheight (font_header t)) < 2 ^ 32" by (rule order_less_le_trans[OF unsigned_less]) simp
  then have ui: "unat (of_nat i :: u32) = i" using assms(3) by (simp add: unat_of_nat)
  show "unat ((fwidth (font_header t) + 7) div 8 * of_nat i) = line_bytes t * i"
    unfolding unat_word_ariths(2) l ui using p by simp
qed

lemma draw_char_ok:
  assumes "screen_wf t" "font_wf t" "unat x + glyph_w t \<le> unat (width (fb t))" "unat y + glyph_h t \<le> unat (height (fb t))"
  shows "\<exists>v. draw_char c x y col 2 t = Inr v \<and> drawn t v"
  unfolding draw_char_def Let_def
proof (rule for_range_drawn[OF _ drawn_refl])
  fix i u assume i: "i < 0 + unat (fheight (font_header t))" and u: "drawn t u"
  note g = glyph_bytes[OF assms(1,2), of i] and s = drawn_same[OF u]
  have hb: "unat (height (fb t)) < 2 ^ 31" using assms(1) by (simp add: screen_wf_def)
  have ih: "(i + 1) * 2 \<le> glyph_h t" using i by (simp add: glyph_h_def)
  have iy: "(of_nat i * 2 :: u32) = of_nat (i * 2)" by simp
  have uy: "unat (y + of_nat i * 2) = unat y + i * 2" unfolding iy using ih assms(4) hb by (intro unat_add_of_nat) simp
  have "line_bytes t * (i + 1) \<le> line_bytes t * unat (fheight (font_header t))" using i by (intro mult_le_mono2) simp
  moreover have "glyph_start c t + line_bytes t * unat (fheight (font_header t)) \<le> length (font_file t)"
    using assms(2) unfolding font_wf_def by blast
  ultimately have bytes: "glyph_start c t + line_bytes t * i + line_bytes t \<le> length (font_file t)"
    unfolding distrib_left by linarith
  show "\<exists>v. draw_line (unat (fwidth (font_header t))) 0 0x80
      (glyph_start c t + unat ((fwidth (font_header t) + 7) div 8 * of_nat i)) x (y + of_nat i * 2) col 2 u = Inr v \<and> drawn u v"
  proof (rule draw_line_ok[OF assms(1) _ _ _ _ _ u])
    show "unat x + (0 + unat (fwidth (font_header t))) * 2 \<le> unat (width (fb t))" using assms(3) by (simp add: glyph_w_def)
    show "unat (y + of_nat i * 2) + 2 \<le> unat (height (fb t))" using uy ih assms(4) by simp
    show "glyph_start c t + unat ((fwidth (font_header t) + 7) div 8 * of_nat i) + (0 + unat (fwidth (font_header t)) + 7) div 8 \<le> length (font_file t)"
      using g(1) i bytes by (simp add: line_bytes_def)
  qed simp_all
qed

lemma clear_screen_ok:
  assumes "screen_wf t"
  shows "\<exists>v. clear_screen t = Inr v \<and> drawn t v"
  unfolding clear_screen_def
proof (rule for_range_drawn[OF for_range_drawn drawn_refl])
  fix y x u v assume d: "x < 0 + unat (width (fb t))" "y < 0 + unat (height (fb t))" "drawn t u" "drawn u v"
  have "drawn t v" using drawn_trans[OF d(3,4)] .
  note s = drawn_same[OF this]
  have "unat (of_nat x :: u32) = x" "unat (of_nat y :: u32) = y"
    using assms d by (simp_all add: screen_wf_def unat_of_nat)
  then show "\<exists>w. putpixel terminal_bg (of_nat x) (of_nat y) v = Inr w \<and> drawn v w"
    using assms d s by (intro putpixel_ok) simp_all
qed simp

subsection \<open>The cursor\<close>

lemma cells_ok:
  assumes "0 < unat glyph * 2" "unat glyph * 2 < 2 ^ 32"
  shows "\<exists>n. cells len glyph = Inr n \<and> unat n = unat len div (unat glyph * 2)"
proof -
  have u: "unat (glyph * font_size) = unat glyph * 2" using assms(2) by (simp add: font_size_def unat_word_ariths(2))
  then have "glyph * font_size \<noteq> 0" using assms(1) by (metis less_irrefl unat_0)
  then show ?thesis using u by (simp add: cells_def unat_div unat_ucast_up)
qed

lemma cursor_move: "unat (w :: u64) < n \<Longrightarrow> n < 2 ^ 64 \<Longrightarrow> unat (w + 1) = unat w + 1"
  by (simp add: unat_word_ariths(1))

text \<open>The new state differs in the pixels and the cursor.\<close>

lemma tty_wf_cursor:
  assumes "drawn t u" "screen_wf t" "font_wf t" "unat a < rows t" "unat d < cols t"
  shows "tty_wf (u\<lparr>terminal_row := a, terminal_column := d\<rparr>)"
  using assms drawn_same[OF assms(1)]
  by (simp add: tty_wf_def screen_wf_def font_wf_def rows_def cols_def glyph_w_def glyph_h_def line_bytes_def fb_words_def
      glyph_start_def)

lemma next_row_ok:
  assumes "screen_wf t" "font_wf t" "unat (terminal_row t) < rows t" "unat (terminal_column t) < cols t"
  shows "\<exists>v. next_row t = Inr v \<and> tty_wf v \<and> rows v = rows t \<and> cols v = cols t \<and> terminal_column v = terminal_column t \<and>
    unat (terminal_row v) = (if unat (terminal_row t) + 1 = rows t then 0 else unat (terminal_row t) + 1)"
proof -
  let ?t = "t\<lparr>terminal_row := terminal_row t + 1\<rparr>"
  have g: "0 < glyph_h t" "glyph_h t \<le> unat (height (fb t))" "unat (height (fb t)) < 2 ^ 31"
    using assms by (simp_all add: font_wf_def screen_wf_def)
  obtain n where n: "cells (height (fb t)) (fheight (font_header t)) = Inr n" "unat n = rows t"
    using cells_ok[of "fheight (font_header t)" "height (fb t)"] g by (auto simp: rows_def glyph_h_def)
  have r64: "rows t < 2 ^ 64" using n(2) unat64[of n] by simp
  have up: "unat (terminal_row t + 1) = unat (terminal_row t) + 1" using cursor_move[OF assms(3) r64] .
  have eq: "terminal_row t + 1 = n \<longleftrightarrow> unat (terminal_row t) + 1 = rows t" using up n(2) by (metis word_unat_eq_iff)
  have wf: "screen_wf ?t" "font_wf ?t" using assms(1,2)
    by (simp_all add: screen_wf_def font_wf_def fb_words_def glyph_w_def glyph_h_def line_bytes_def glyph_start_def)
  show ?thesis
  proof (cases "terminal_row t + 1 = n")
    case True
    obtain v where v: "clear_screen ?t = Inr v" "drawn ?t v" using clear_screen_ok[OF wf(1)] by blast
    have "rows ?t = rows t" "cols ?t = cols t" by (simp_all add: rows_def cols_def glyph_h_def glyph_w_def)
    then have "tty_wf (v\<lparr>terminal_row := 0, terminal_column := terminal_column t\<rparr>)"
      using assms(3,4) by (intro tty_wf_cursor[OF v(2) wf]) simp_all
    moreover have "v\<lparr>terminal_row := 0, terminal_column := terminal_column t\<rparr> = v\<lparr>terminal_row := 0\<rparr>"
      using drawn_same(10)[OF v(2)] by simp
    ultimately show ?thesis using n(1) True v drawn_same[OF v(2)] eq
      by (simp add: next_row_def Let_def rows_def cols_def glyph_h_def glyph_w_def)
  next
    case False
    then have lt: "unat (terminal_row t) + 1 < rows t" using eq assms(3) by linarith
    have "tty_wf (t\<lparr>terminal_row := terminal_row t + 1, terminal_column := terminal_column t\<rparr>)"
      using lt up assms by (intro tty_wf_cursor[OF drawn_refl]) simp_all
    then show ?thesis using n(1) False eq up by (simp add: next_row_def Let_def rows_def cols_def glyph_h_def glyph_w_def)
  qed
qed

text \<open>Where the cursor goes: the abstract terminal is a grid of \<open>rows\<close> times \<open>cols\<close> cells.\<close>

definition advance :: "nat \<Rightarrow> nat \<Rightarrow> u8 \<Rightarrow> nat \<times> nat \<Rightarrow> nat \<times> nat" where
  "advance nr nc c pos =
     (let newline = (\<lambda>row. if row + 1 = nr then 0 else row + 1)
      in if c = 10 then (newline (fst pos), 0)
         else if snd pos + 1 = nc then (newline (fst pos), 0) else (fst pos, snd pos + 1))"

lemma cell_origin:
  assumes "unat (k :: u64) < len div (unat (w :: u32) * 2)" "len < 2 ^ 31" "0 < unat w"
  shows "unat (ucast (k * ucast w * ucast font_size) :: u32) + unat w * 2 \<le> len"
proof -
  have "Suc (unat k) * (unat w * 2) \<le> len div (unat w * 2) * (unat w * 2)" using assms(1) by (intro mult_le_mono1) simp
  also have "\<dots> \<le> len" by simp
  finally have fit: "unat k * unat w * 2 + unat w * 2 \<le> len" by simp
  have f: "unat (ucast font_size :: u64) = 2" by (simp add: font_size_def)
  have a: "unat (k * ucast w) = unat k * unat w"
    unfolding unat_word_ariths(2) unat_ucast_up using fit assms(2) by simp
  have "unat (k * ucast w * ucast font_size) = unat k * unat w * 2"
    unfolding unat_word_ariths(2)[of "k * ucast w"] a f using fit assms(2) by simp
  then show ?thesis using fit assms(2) by (simp add: unat_ucast_down)
qed

lemma terminal_putchar_ok:
  assumes "tty_wf t"
  shows "\<exists>v. terminal_putchar c t = Inr v \<and> tty_wf v \<and> rows v = rows t \<and> cols v = cols t \<and>
    (unat (terminal_row v), unat (terminal_column v)) =
      advance (rows t) (cols t) c (unat (terminal_row t), unat (terminal_column t))"
proof -
  have wf: "screen_wf t" "font_wf t" "unat (terminal_row t) < rows t" "unat (terminal_column t) < cols t"
    using assms by (simp_all add: tty_wf_def)
  have g: "0 < unat (fwidth (font_header t))" "0 < unat (fheight (font_header t))" "glyph_w t \<le> unat (width (fb t))"
    "unat (width (fb t)) < 2 ^ 31" "unat (height (fb t)) < 2 ^ 31"
    using wf(1,2) by (simp_all add: font_wf_def screen_wf_def glyph_w_def glyph_h_def)
  have home: "\<exists>v. next_row (u\<lparr>terminal_column := 0\<rparr>) = Inr v \<and> tty_wf v \<and> rows v = rows t \<and> cols v = cols t \<and> terminal_column v = 0 \<and>
      unat (terminal_row v) = (if unat (terminal_row t) + 1 = rows t then 0 else unat (terminal_row t) + 1)" if "drawn t u" for u
  proof -
    let ?u = "u\<lparr>terminal_row := terminal_row t, terminal_column := 0\<rparr>"
    have e: "?u = u\<lparr>terminal_column := 0\<rparr>" using drawn_same(9)[OF that] by simp
    have "tty_wf ?u" using wf by (intro tty_wf_cursor[OF that]) simp_all
    then show ?thesis using next_row_ok[of ?u] drawn_same[OF that]
      unfolding tty_wf_def e by (auto simp: rows_def cols_def glyph_h_def glyph_w_def)
  qed
  show ?thesis
  proof (cases "c = 10")
    case True
    then show ?thesis using home[OF drawn_refl] by (auto simp: terminal_putchar_def advance_def)
  next
    case False
    let ?x = "ucast (terminal_column t * ucast (fwidth (font_header t)) * ucast font_size) :: u32"
    let ?y = "ucast (terminal_row t * ucast (fheight (font_header t)) * ucast font_size) :: u32"
    have "\<exists>v. draw_char c ?x ?y terminal_fg 2 t = Inr v \<and> drawn t v"
      using cell_origin[OF _ g(4,1)] cell_origin[OF _ g(5,2)] wf(3,4)
      by (intro draw_char_ok[OF wf(1,2)]) (simp_all add: cols_def rows_def glyph_w_def glyph_h_def)
    then obtain u where u: "draw_char c ?x ?y terminal_fg font_size t = Inr u" "drawn t u" by (auto simp: font_size_def)
    note s = drawn_same[OF u(2)]
    obtain n where n: "cells (width (fb t)) (fwidth (font_header t)) = Inr n" "unat n = cols t"
      using cells_ok[of "fwidth (font_header t)" "width (fb t)"] g by (auto simp: cols_def glyph_w_def)
    have up: "unat (terminal_column t + 1) = unat (terminal_column t) + 1" using cursor_move[OF wf(4)] n(2) unat64[of n] by simp
    have eq: "terminal_column t + 1 = n \<longleftrightarrow> unat (terminal_column t) + 1 = cols t" using up n(2) by (metis word_unat_eq_iff)
    have run: "terminal_putchar c t = (if terminal_column t + 1 = n then next_row (u\<lparr>terminal_column := 0\<rparr>)
        else Inr (u\<lparr>terminal_column := terminal_column t + 1\<rparr>))"
      using False u(1) n(1) s by (simp add: terminal_putchar_def Let_def)
    show ?thesis
    proof (cases "terminal_column t + 1 = n")
      case True
      then show ?thesis using run home[OF u(2)] eq False by (auto simp: advance_def)
    next
      case notn: False
      let ?v = "u\<lparr>terminal_row := terminal_row t, terminal_column := terminal_column t + 1\<rparr>"
      have e: "?v = u\<lparr>terminal_column := terminal_column t + 1\<rparr>" using s(9) by simp
      have "unat (terminal_column t) + 1 < cols t" using notn eq wf(4) by linarith
      then have "tty_wf ?v" using up wf(3) by (intro tty_wf_cursor[OF u(2) wf(1,2)]) simp_all
      then show ?thesis using run notn eq up False s unfolding e
        by (simp add: advance_def rows_def cols_def glyph_w_def glyph_h_def)
    qed
  qed
qed

text \<open>
  C10. On a well-formed screen writing text never faults: every pixel store stays inside the
  framebuffer and every glyph byte inside the font, for any bytes, and the cursor moves as
  on a grid of character cells, wrapping to the next row and from the last row to the first.
\<close>

theorem terminal_write_safe:
  assumes "tty_wf t"
  shows "\<exists>v. terminal_write cs t = Inr v \<and> tty_wf v \<and>
    (unat (terminal_row v), unat (terminal_column v)) =
      fold (advance (rows t) (cols t)) cs (unat (terminal_row t), unat (terminal_column t))"
proof -
  have "\<exists>v. terminal_write cs t = Inr v \<and> tty_wf v \<and> rows v = rows t \<and> cols v = cols t \<and>
    (unat (terminal_row v), unat (terminal_column v)) =
      fold (advance (rows t) (cols t)) cs (unat (terminal_row t), unat (terminal_column t))"
    using assms
  proof (induction cs arbitrary: t)
    case (Cons c cs)
    obtain u where u: "terminal_putchar c t = Inr u" "tty_wf u" "rows u = rows t" "cols u = cols t"
      "(unat (terminal_row u), unat (terminal_column u)) = advance (rows t) (cols t) c (unat (terminal_row t), unat (terminal_column t))"
      using terminal_putchar_ok[OF Cons.prems] by blast
    then show ?case using Cons.IH[OF u(2)] by simp
  qed simp
  then show ?thesis by blast
qed

definition tty_example :: tty where
  "tty_example = \<lparr>terminal_row = 1, terminal_column = 1, fb = \<lparr>width = 5, height = 4, pitch = 24\<rparr>, pixels = (\<lambda>_. 0),
     font_header = \<lparr>fmagic = 0x864ab572, fversion = 0, headersize = 1, fflags = 0, numglyph = 1, bytesperglyph = 1, fheight = 1, fwidth = 1\<rparr>, font_file = [0, 0x80]\<rparr>"

theorem terminal_write_safe_witness:
  "\<exists>v. terminal_write [65, 66, 10, 67] tty_example = Inr v \<and> unat (terminal_row v) = 1 \<and> unat (terminal_column v) = 1"
proof -
  have "0 < c \<and> ucast c < (1 :: u32) \<longleftrightarrow> False" for c :: u8
  proof -
    have "(ucast c :: u32) < 1 \<longleftrightarrow> c = 0"
      by (auto simp: word_less_nat_alt unsigned_eq_0_iff unsigned_ucast_eq take_bit_nat_eq_self
          order_less_le_trans[OF unsigned_less])
    then show ?thesis by auto
  qed
  then have g: "glyph_start c tty_example = 1" for c by (simp add: glyph_start_def tty_example_def)
  have s: "rows tty_example = 2" "cols tty_example = 2" "glyph_w tty_example = 2" "glyph_h tty_example = 2" "line_bytes tty_example = 1"
    by (simp_all add: rows_def cols_def glyph_w_def glyph_h_def line_bytes_def tty_example_def)
  have "tty_wf tty_example" unfolding tty_wf_def font_wf_def screen_wf_def g s by (simp add: tty_example_def fb_words_def)
  from terminal_write_safe[OF this, of "[65, 66, 10, 67]"] show ?thesis unfolding s
    by (auto simp: advance_def tty_example_def)
qed

subsection \<open>After initialisation\<close>

text \<open>
  \<open>terminal_initialize\<close> establishes the invariant: with a framebuffer and a font file whose
  sizes fit, the terminal is well-formed afterwards, with the cursor where it was.
\<close>

lemma terminal_initialize_wf:
  assumes "32 \<le> length file" "terminal_row t = 0" "terminal_column t = 0"
    and "t' = t\<lparr>fb := f, font_file := file, font_header := psf_header file\<rparr>" "screen_wf t'" "font_wf t'"
  shows "\<exists>u. terminal_initialize (Some (f # fs)) file t = Some (Inr u) \<and> tty_wf u"
proof -
  obtain u where u: "clear_screen t' = Inr u" "drawn t' u" using clear_screen_ok[OF assms(5)] by blast
  have "terminal_initialize (Some (f # fs)) file t = Some (Inr u)"
    using u(1) assms(1) by (simp add: terminal_initialize_def psf_init_def assms(4))
  moreover have "0 < rows t'" "0 < cols t'" using assms(6) by (simp_all add: font_wf_def rows_def cols_def div_greater_zero_iff)
  then have "tty_wf u" using drawn_same[OF u(2)] assms(2-6) by (simp add: tty_wf_def)
  ultimately show ?thesis by blast
qed

end
