(* ===== verification/Nya_Stdio.thy ===== *)
theory Nya_Stdio
  imports Nya_String
begin

section \<open>Formatted output\<close>

text \<open>
  \<open>libc/stdio/printf.c\<close>, \<open>putchar.c\<close> and \<open>puts.c\<close>. The characters that reach
  \<open>terminal_write\<close> are collected in \<open>out\<close>, in order; nothing that \<open>printf\<close> decides depends
  on the terminal. A format is the text before its terminating zero, and reading after that
  zero is out of bounds. The variable arguments are a list: eight-byte integer slots, of
  which \<open>va_arg\<close> reads the low part, or doubles. A missing argument or one of the other
  kind is \<open>BadArgument\<close>.

  The arithmetic of \<open>double\<close> is that of the processor: it is the parameter \<open>fpu\<close> of the
  conversions that use it. The counters are 32-bit \<open>int\<close>s, kept as words. The array
  \<open>intStrBuffer\<close> is a list of 256 characters, and an access outside it is a fault.
\<close>

subsection \<open>State\<close>

record 'd fpu =
  fp_lt :: "'d \<Rightarrow> 'd \<Rightarrow> bool"
  fp_le :: "'d \<Rightarrow> 'd \<Rightarrow> bool"
  fp_of :: "int \<Rightarrow> 'd"
  fp_half :: 'd
  fp_add :: "'d \<Rightarrow> 'd \<Rightarrow> 'd"
  fp_sub :: "'d \<Rightarrow> 'd \<Rightarrow> 'd"
  fp_mul :: "'d \<Rightarrow> 'd \<Rightarrow> 'd"
  fp_div :: "'d \<Rightarrow> 'd \<Rightarrow> 'd"
  fp_neg :: "'d \<Rightarrow> 'd"
  fp_to_u64 :: "'d \<Rightarrow> u64"
  fp_to_i64 :: "'d \<Rightarrow> u64"

datatype 'd varg = VInt u64 | VDouble 'd

record 'd pf =
  out :: string
  chars :: u32
  pmem :: mem
  va_list :: "'d varg list"
  intStrBuffer :: string

abbreviation NUL :: char where "NUL \<equiv> CHR 0x00"

definition va_int :: "'d pf \<Rightarrow> (u64 \<times> 'd pf) res" where
  "va_int s = (case va_list s of VInt w # vs \<Rightarrow> Inr (w, s\<lparr>va_list := vs\<rparr>) | _ \<Rightarrow> Inl BadArgument)"

definition va_double :: "'d pf \<Rightarrow> ('d \<times> 'd pf) res" where
  "va_double s = (case va_list s of VDouble x # vs \<Rightarrow> Inr (x, s\<lparr>va_list := vs\<rparr>) | _ \<Rightarrow> Inl BadArgument)"

subsection \<open>Characters\<close>

text \<open>\<open>putchar\<close> returns its argument, so only the value \<open>-1\<close> looks like \<open>EOF\<close>.\<close>

definition putchar :: "int \<Rightarrow> 'd pf \<Rightarrow> int \<times> 'd pf" where
  "putchar ic s = (ic, s\<lparr>out := out s @ [char_of ic]\<rparr>)"

fun print :: "string \<Rightarrow> 'd pf \<Rightarrow> bool \<times> 'd pf" where
  "print [] s = (True, s)"
| "print (c # cs) s = (case putchar (of_char c) s of (r, s) \<Rightarrow> if r = -1 then (False, s) else print cs s)"

definition display_string :: "string \<Rightarrow> 'd pf \<Rightarrow> 'd pf" where
  "display_string str s = (case print str s of (ok, s) \<Rightarrow> if ok then s\<lparr>chars := chars s + of_nat (length str)\<rparr> else s)"

definition display_character :: "char \<Rightarrow> 'd pf \<Rightarrow> 'd pf" where
  "display_character c s = snd (putchar (sint (of_char c :: u8)) s)"

subsection \<open>Numerals\<close>

definition buf_put :: "nat \<Rightarrow> char \<Rightarrow> string \<Rightarrow> string res" where
  "buf_put i c b = (if i < length b then Inr (b[i := c]) else Inl OutOfBounds)"

definition buf_len :: "string \<Rightarrow> nat res" where
  "buf_len b = (let n = length (takeWhile (\<lambda>c. c \<noteq> NUL) b) in if n < length b then Inr n else Inl OutOfBounds)"

fun buf_copy :: "nat \<Rightarrow> string \<Rightarrow> string \<Rightarrow> string res" where
  "buf_copy i [] b = buf_put i NUL b"
| "buf_copy i (c # cs) b = bindR (buf_put i c b) (buf_copy (Suc i) cs)"

text \<open>\<open>while (padding--) b[strlen(b)] = c\<close>.\<close>

fun buf_pad :: "nat \<Rightarrow> char \<Rightarrow> string \<Rightarrow> string res" where
  "buf_pad 0 c b = Inr b"
| "buf_pad (Suc n) c b = bindR (buf_len b) (\<lambda>k. bindR (buf_put k c b) (buf_pad n c))"

definition digit_table :: "u64 \<Rightarrow> string" where
  "digit_table base = (let d = ''0123456789'' @ (if base = 16 then ''ABCDEF'' else if base = 17 then ''abcdef'' else [])
                       in d @ replicate (32 - length d) NUL)"

text \<open>The number of digits: the first loop of \<open>__int_str\<close>.\<close>

function digit_count :: "u64 \<Rightarrow> u64 \<Rightarrow> nat" where
  "digit_count base i = (if base \<le> 1 \<or> i div base = 0 then 1 else Suc (digit_count base (i div base)))"
  by auto

text \<open>The second loop writes the digits from the last to the first.\<close>

function put_digits :: "string \<Rightarrow> u64 \<Rightarrow> u64 \<Rightarrow> nat \<Rightarrow> string \<Rightarrow> string res" where
  "put_digits digit base i p b =
     (if p = 0 then Inl OutOfBounds
      else if length digit \<le> unat (i mod base) then Inl OutOfBounds
      else bindR (buf_put (p - 1) (digit ! unat (i mod base)) b) (\<lambda>b.
             if base \<le> 1 \<or> i div base = 0 then Inr b else put_digits digit base (i div base) (p - 1) b))"
  by auto

lemma div_decreases:
  assumes "\<not> (base \<le> 1 \<or> i div base = (0 :: u64))"
  shows "unat (i div base) < unat i"
proof -
  have "1 < unat base" using assms by (simp add: word_less_nat_alt not_le)
  moreover have "0 < unat i" using assms by (metis div_0 gr0I unat_eq_zero)
  ultimately show ?thesis by (simp add: unat_div)
qed

termination digit_count
  by (relation "measure (\<lambda>(base, i). unat i)") (auto intro!: div_decreases)

termination put_digits
  by (relation "measure (\<lambda>(digit, base, i, p, b). unat i)") (auto intro!: div_decreases)

declare digit_count.simps [simp del] put_digits.simps [simp del]

text \<open>
  \<open>__int_str\<close>: the buffer and the number of digits, which leaves out the sign and the
  padding. A base of one makes its loops run for ever.
\<close>

definition int_str ::
  "u64 \<Rightarrow> string \<Rightarrow> u64 \<Rightarrow> bool \<Rightarrow> bool \<Rightarrow> u32 \<Rightarrow> bool \<Rightarrow> bool \<Rightarrow> bool \<Rightarrow> (string \<times> nat) res option"
where
  "int_str i b base0 plusSignIfNeeded spaceSignIfNeeded paddingNo justify zeroPad isNegative =
     (let digit = digit_table base0; base = (if base0 = 17 then 16 else base0);
          sign = (if isNegative then ''-'' else if plusSignIfNeeded then ''+'' else if spaceSignIfNeeded then '' '' else []);
          n = digit_count base i; p = length sign + n
      in if base = 0 then Some (Inl DivideByZero)
         else if base = 1 \<and> i \<noteq> 0 then None
         else Some (
           bindR (case sign of [] \<Rightarrow> Inr b | c # _ \<Rightarrow> buf_put 0 c b) (\<lambda>b.
           bindR (buf_put p NUL b) (\<lambda>b.
           bindR (put_digits digit base i p b) (\<lambda>b.
           bindR (buf_len b) (\<lambda>k.
             let padding = nat (sint paddingNo - int k); c = (if zeroPad then CHR ''0'' else CHR '' '')
             in if justify then bindR (buf_pad padding c b) (\<lambda>b. Inr (b, n))
                else bindR (buf_pad padding c (replicate 256 NUL)) (\<lambda>a.
                     bindR (buf_len a) (\<lambda>e.
                     bindR (buf_copy e (takeWhile (\<lambda>c. c \<noteq> NUL) b) a) (\<lambda>a.
                     bindR (buf_copy 0 (takeWhile (\<lambda>c. c \<noteq> NUL) a) b) (\<lambda>b. Inr (b, n)))))))))))"

text \<open>A number in the buffer, and the first \<open>str_length\<close> characters of it on the terminal.\<close>

definition display_buf :: "nat \<Rightarrow> 'd pf \<Rightarrow> 'd pf res" where
  "display_buf n s = (if n \<le> length (intStrBuffer s) then Inr (display_string (take n (intStrBuffer s)) s) else Inl OutOfBounds)"

subsection \<open>Conversion specifications\<close>

record pspec =
  leftJustify :: bool
  plusSign :: bool
  altForm :: bool
  spaceNoSign :: bool
  zeroPad :: bool
  lengthSpec :: u32
  precSpec :: u32
  lengthMod :: char
  specifier :: char

definition pspec0 :: pspec where
  "pspec0 = \<lparr>leftJustify = False, plusSign = False, altForm = False, spaceNoSign = False, zeroPad = False,
     lengthSpec = 0, precSpec = 0, lengthMod = NUL, specifier = NUL\<rparr>"

definition at :: "string \<Rightarrow> nat \<Rightarrow> char res" where
  "at fmt i = (if i < length fmt then Inr (fmt ! i) else if i = length fmt then Inr NUL else Inl OutOfBounds)"

definition is_flag :: "char \<Rightarrow> bool" where
  "is_flag c \<longleftrightarrow> c = CHR ''-'' \<or> c = CHR ''+'' \<or> c = CHR ''#'' \<or> c = CHR '' '' \<or> c = CHR ''0''"

definition set_flag :: "char \<Rightarrow> pspec \<Rightarrow> pspec" where
  "set_flag c f =
     (if c = CHR ''-'' then f\<lparr>leftJustify := True\<rparr>
      else if c = CHR ''+'' then f\<lparr>plusSign := True\<rparr>
      else if c = CHR ''#'' then f\<lparr>altForm := True\<rparr>
      else if c = CHR '' '' then f\<lparr>spaceNoSign := True\<rparr>
      else if c = CHR ''0'' then f\<lparr>zeroPad := True\<rparr> else f)"

function parse_flags :: "string \<Rightarrow> nat \<Rightarrow> pspec \<Rightarrow> (nat \<times> pspec) res" where
  "parse_flags fmt i f =
     (if i < length fmt \<and> is_flag (fmt ! i) then parse_flags fmt (Suc i) (set_flag (fmt ! i) f)
      else bindR (at fmt i) (\<lambda>_. Inr (i, f)))"
  by auto
termination by (relation "measure (\<lambda>(fmt, i, f). length fmt - i)") auto

function parse_number :: "string \<Rightarrow> nat \<Rightarrow> u32 \<Rightarrow> (nat \<times> u32) res" where
  "parse_number fmt i n =
     (if i < length fmt \<and> isdigit (sint (of_char (fmt ! i) :: u8))
      then parse_number fmt (Suc i) (n * 10 + (of_char (fmt ! i) - 48))
      else bindR (at fmt i) (\<lambda>_. Inr (i, n)))"
  by auto
termination by (relation "measure (\<lambda>(fmt, i, f). length fmt - i)") auto

declare parse_flags.simps [simp del] parse_number.simps [simp del]

text \<open>A decimal number, or \<open>*\<close> for the next argument.\<close>

definition parse_star :: "string \<Rightarrow> nat \<Rightarrow> u32 \<Rightarrow> 'd pf \<Rightarrow> ((nat \<times> u32) \<times> 'd pf) res" where
  "parse_star fmt i n s =
     bindR (at fmt i) (\<lambda>c.
       if c = CHR ''*'' then bindR (va_int s) (\<lambda>(w, s). Inr ((Suc i, ucast w), s)) else Inr ((i, n), s))"

definition parse_precision :: "string \<Rightarrow> nat \<Rightarrow> 'd pf \<Rightarrow> ((nat \<times> u32) \<times> 'd pf) res" where
  "parse_precision fmt i s =
     bindR (at fmt i) (\<lambda>c.
       if c = CHR ''.'' then bindR (parse_number fmt (Suc i) 0) (\<lambda>(i, n). parse_star fmt i n s)
       else Inr ((i, 6), s))"

text \<open>The second \<open>h\<close> of \<open>hh\<close> is not skipped.\<close>

definition parse_length :: "string \<Rightarrow> nat \<Rightarrow> (nat \<times> char) res" where
  "parse_length fmt i =
     bindR (at fmt i) (\<lambda>c.
       if c \<in> {CHR ''h'', CHR ''l'', CHR ''j'', CHR ''z'', CHR ''t'', CHR ''L''}
       then bindR (at fmt (Suc i)) (\<lambda>d.
              if d = CHR ''h'' then Inr (Suc i, CHR ''H'')
              else if d = CHR ''l'' then Inr (Suc (Suc i), CHR ''q'')
              else Inr (Suc i, c))
       else Inr (i, NUL))"

definition parse_spec :: "string \<Rightarrow> nat \<Rightarrow> 'd pf \<Rightarrow> ((nat \<times> pspec) \<times> 'd pf) res" where
  "parse_spec fmt i s =
     bindR (parse_flags fmt i pspec0) (\<lambda>(i, f).
     bindR (parse_number fmt i 0) (\<lambda>(i, n).
     bindR (parse_star fmt i n s) (\<lambda>((i, n), s).
     bindR (parse_precision fmt i s) (\<lambda>((i, p), s).
     bindR (parse_length fmt i) (\<lambda>(i, l).
     bindR (at fmt i) (\<lambda>c.
       Inr ((i, f\<lparr>lengthSpec := n, precSpec := p, lengthMod := l, specifier := c\<rparr>), s)))))))"


subsection \<open>Conversions\<close>

definition print_number :: "u64 \<Rightarrow> bool \<Rightarrow> u64 \<Rightarrow> pspec \<Rightarrow> 'd pf \<Rightarrow> 'd pf res option" where
  "print_number w neg base f s =
     bindX (int_str w (intStrBuffer s) base (plusSign f) (spaceNoSign f) (lengthSpec f) (leftJustify f) (zeroPad f) neg)
       (\<lambda>(b, n). Some (display_buf n (s\<lparr>intStrBuffer := b\<rparr>)))"

text \<open>The value \<open>va_arg\<close> gives for each length modifier; \<open>None\<close> where the switch has no case.\<close>

definition unsigned_arg :: "char \<Rightarrow> u64 \<Rightarrow> u64 option" where
  "unsigned_arg l w =
     (if l = NUL then Some (ucast (ucast w :: u32))
      else if l = CHR ''H'' then Some (ucast (ucast w :: u8))
      else if l = CHR ''h'' then Some (ucast (ucast w :: u16))
      else if l \<in> {CHR ''l'', CHR ''q'', CHR ''j'', CHR ''z'', CHR ''t''} then Some w
      else None)"

definition magnitude :: "u64 \<Rightarrow> bool \<times> u64" where
  "magnitude v = (sint v < 0, if sint v < 0 then - v else v)"

definition signed_arg :: "char \<Rightarrow> u64 \<Rightarrow> (bool \<times> u64) option" where
  "signed_arg l w =
     (if l = NUL then Some (magnitude (scast (ucast w :: u32)))
      else if l = CHR ''H'' then Some (magnitude (scast (ucast w :: u8)))
      else if l = CHR ''h'' then Some (magnitude (scast (ucast w :: u16)))
      else if l \<in> {CHR ''l'', CHR ''q'', CHR ''j'', CHR ''t''} then Some (magnitude w)
      else if l = CHR ''z'' then Some (False, w)
      else None)"

definition print_unsigned :: "u64 \<Rightarrow> char \<Rightarrow> pspec \<Rightarrow> 'd pf \<Rightarrow> 'd pf res option" where
  "print_unsigned base l f s =
     (if unsigned_arg l 0 = None then Some (Inr s)
      else bindS (va_int s) (\<lambda>(w, s).
        case unsigned_arg l w of None \<Rightarrow> Some (Inr s) | Some v \<Rightarrow> print_number v False base f s))"

definition print_signed :: "u64 \<Rightarrow> char \<Rightarrow> pspec \<Rightarrow> 'd pf \<Rightarrow> 'd pf res option" where
  "print_signed base l f s =
     (if signed_arg l 0 = None then Some (Inr s)
      else bindS (va_int s) (\<lambda>(w, s).
        case signed_arg l w of None \<Rightarrow> Some (Inr s) | Some (neg, mag) \<Rightarrow> print_number mag neg base f s))"

fun mem_bytes :: "nat \<Rightarrow> u64 \<Rightarrow> mem \<Rightarrow> string" where
  "mem_bytes 0 a m = []"
| "mem_bytes (Suc n) a m = char_of (unat (m a)) # mem_bytes n (a + 1) m"

definition print_string :: "'d pf \<Rightarrow> 'd pf res option" where
  "print_string s =
     bindS (va_int s) (\<lambda>(str, s).
       case strlen str (pmem s) of None \<Rightarrow> None
       | Some n \<Rightarrow> Some (Inr (display_string (mem_bytes (unat n) str (pmem s)) s)))"

text \<open>The number of bytes \<open>%n\<close> stores.\<close>

definition count_width :: "char \<Rightarrow> nat option" where
  "count_width l =
     (if l = CHR ''H'' then Some 1 else if l = CHR ''h'' then Some 2 else if l = NUL then Some 4
      else if l \<in> {CHR ''l'', CHR ''q'', CHR ''j'', CHR ''z'', CHR ''t''} then Some 8 else None)"

definition store_count :: "char \<Rightarrow> 'd pf \<Rightarrow> 'd pf res" where
  "store_count l s =
     (case count_width l of None \<Rightarrow> Inr s
      | Some k \<Rightarrow> bindR (va_int s) (\<lambda>(a, s). Inr (s\<lparr>pmem := wr k a (scast (chars s) :: u64) (pmem s)\<rparr>)))"

partial_function (option) scale10 :: "'d fpu \<Rightarrow> 'd \<Rightarrow> u32 \<Rightarrow> ('d \<times> u32) option" where
  "scale10 F x expo =
     (if fp_le F (fp_of F 10) x then scale10 F (fp_div F x (fp_of F 10)) (expo + 1) else Some (x, expo))"

declare scale10.simps [code]

definition print_fraction :: "'d fpu \<Rightarrow> 'd \<Rightarrow> pspec \<Rightarrow> 'd pf \<Rightarrow> 'd pf res option" where
  "print_fraction F x f s =
     (let x = fp_sub F x (fp_of F (sint (fp_to_i64 F x)));
          x = (if fp_lt F x (fp_of F 0) then fp_neg F x else x);
          x = ((\<lambda>x. fp_mul F x (fp_of F 10)) ^^ nat (sint (precSpec f))) x;
          decPlaces = fp_to_i64 F (fp_add F x (fp_half F))
      in if precSpec f \<noteq> 0
         then let s = display_character CHR ''.'' s
              in bindX (int_str decPlaces (intStrBuffer s) 10 False False 0 False False False) (\<lambda>(b, n).
                   bindS (buf_put (unat (precSpec f)) NUL b) (\<lambda>b.
                     Some (display_buf n (s\<lparr>intStrBuffer := b\<rparr>))))
         else Some (Inr (if altForm f then display_character CHR ''.'' s else s)))"

definition print_double :: "'d fpu \<Rightarrow> bool \<Rightarrow> u64 \<Rightarrow> pspec \<Rightarrow> 'd pf \<Rightarrow> (u32 \<times> 'd pf) res option" where
  "print_double F emode base f s =
     bindS (va_double s) (\<lambda>(x, s).
       Option.bind (if emode then scale10 F x 0 else Some (x, 0)) (\<lambda>(x, expo).
         let form = lengthSpec f - precSpec f - expo - (if precSpec f \<noteq> 0 \<or> altForm f then 1 else 0);
             form = (if emode then form - 4 else form);
             form = (if sint form < 0 then 0 else form);
             fneg = fp_lt F x (fp_of F 0);
             absf = (if fneg then fp_neg F x else x)
         in bindX (int_str (fp_to_u64 F absf) (intStrBuffer s) base (plusSign f) (spaceNoSign f) form
                     (leftJustify f) (zeroPad f) fneg) (\<lambda>(b, n).
            bindS (display_buf n (s\<lparr>intStrBuffer := b\<rparr>)) (\<lambda>s.
            bindX (print_fraction F x f s) (\<lambda>s. Some (Inr (expo, s)))))))"

definition print_exponent :: "char \<Rightarrow> u32 \<Rightarrow> 'd pf \<Rightarrow> 'd pf res option" where
  "print_exponent c expo s =
     (if c = CHR ''e'' \<or> c = CHR ''E''
      then let s = display_string (if c = CHR ''e'' then ''e+'' else ''E+'') s
           in bindX (int_str (scast expo) (intStrBuffer s) 10 False False 2 False True False) (\<lambda>(b, n).
                Some (display_buf n (s\<lparr>intStrBuffer := b\<rparr>)))
      else Some (Inr s))"

text \<open>The \<open>switch\<close> on the specifier; the result carries the exponent for the tail.\<close>

definition convert_switch :: "'d fpu \<Rightarrow> u64 \<Rightarrow> char \<Rightarrow> char \<Rightarrow> pspec \<Rightarrow> 'd pf \<Rightarrow> (u32 \<times> 'd pf) res option" where
  "convert_switch F base c l f s =
     (if c = CHR ''X'' \<or> c = CHR ''x''
      then let base = (if c = CHR ''X'' then 16 else if base = 10 then 17 else base);
               s = (if altForm f then display_string ''0x'' s else s)
           in bindX (print_unsigned base l f s) (\<lambda>s. Some (Inr (0, s)))
      else if c = CHR ''u'' then bindX (print_unsigned base l f s) (\<lambda>s. Some (Inr (0, s)))
      else if c = CHR ''d'' \<or> c = CHR ''i'' then bindX (print_signed base l f s) (\<lambda>s. Some (Inr (0, s)))
      else if c = CHR ''c'' then bindS (va_int s) (\<lambda>(w, s). Some (Inr (0, display_character (char_of (unat w)) s)))
      else if c = CHR ''s'' then bindX (print_string s) (\<lambda>s. Some (Inr (0, s)))
      else if c = CHR ''n'' then bindS (store_count l s) (\<lambda>s. Some (Inr (0, s)))
      else if c = CHR ''e'' \<or> c = CHR ''E'' then print_double F True base f s
      else if c = CHR ''f'' \<or> c = CHR ''F'' \<or> c = CHR ''g'' \<or> c = CHR ''G'' then print_double F False base f s
      else Some (Inr (0, s)))"

definition convert :: "'d fpu \<Rightarrow> pspec \<Rightarrow> 'd pf \<Rightarrow> 'd pf res option" where
  "convert F f s0 =
     (let s = s0\<lparr>intStrBuffer := replicate 256 NUL\<rparr>;
          octal = (specifier f = CHR ''o''); pointer = (specifier f = CHR ''p'');
          s = (if octal \<and> altForm f then display_string ''0'' s else s);
          base = (if octal then 8 else if pointer then 16 else 10);
          c = (if octal \<or> pointer then CHR ''u'' else specifier f);
          l = (if pointer then CHR ''z'' else lengthMod f)
      in bindX (convert_switch F base c l f s) (\<lambda>(expo, s). print_exponent c expo s))"

subsection \<open>The format\<close>

definition vprintf_step :: "'d fpu \<Rightarrow> string \<Rightarrow> nat \<Rightarrow> char \<Rightarrow> 'd pf \<Rightarrow> (nat \<times> 'd pf) res option" where
  "vprintf_step F fmt i c s =
     (if c = CHR ''%''
      then bindS (parse_spec fmt (Suc i) s) (\<lambda>((i, f), s). bindX (convert F f s) (\<lambda>s. Some (Inr (i, s))))
      else let s = snd (putchar (sint (of_char c :: u8)) s) in Some (Inr (i, s\<lparr>chars := chars s + 1\<rparr>)))"

partial_function (option) vprintf_from :: "'d fpu \<Rightarrow> string \<Rightarrow> nat \<Rightarrow> 'd pf \<Rightarrow> 'd pf res option" where
  "vprintf_from F fmt i s =
     bindX (Some (at fmt i)) (\<lambda>c.
       if c = NUL then Some (Inr s)
       else bindX (vprintf_step F fmt i c s) (\<lambda>(i, s). vprintf_from F fmt (Suc i) s))"

declare vprintf_from.simps [code]

definition vprintf :: "'d fpu \<Rightarrow> string \<Rightarrow> 'd pf \<Rightarrow> (u32 \<times> 'd pf) res option" where
  "vprintf F fmt s =
     bindX (vprintf_from F fmt 0 (s\<lparr>chars := 0, intStrBuffer := replicate 256 NUL\<rparr>)) (\<lambda>s. Some (Inr (chars s, s)))"

definition printf :: "'d fpu \<Rightarrow> string \<Rightarrow> 'd varg list \<Rightarrow> 'd pf \<Rightarrow> (u32 \<times> 'd pf) res option" where
  "printf F fmt args s = vprintf F fmt (s\<lparr>va_list := args\<rparr>)"

definition puts :: "'d fpu \<Rightarrow> u64 \<Rightarrow> 'd pf \<Rightarrow> (u32 \<times> 'd pf) res option" where
  "puts F str s = printf F ''%s\<newline>'' [VInt str] s"

end
