(* ===== verification/Nya_Stdio_Text.thy ===== *)
theory Nya_Stdio_Text
  imports Nya_Stdio
begin

section \<open>What \<open>printf\<close> prints\<close>

text \<open>
  Positional numerals as the specification of the digits, the field that the number
  conversion builds in its buffer, and the part of it that reaches the terminal.
\<close>

subsection \<open>Numerals\<close>

function digits_of :: "nat \<Rightarrow> nat \<Rightarrow> nat list" where
  "digits_of b n = (if b \<le> 1 \<or> n < b then [n] else digits_of b (n div b) @ [n mod b])"
  by auto
termination by (relation "measure snd") auto

declare digits_of.simps [simp del]

definition value_of :: "nat \<Rightarrow> nat list \<Rightarrow> nat" where
  "value_of b ds = foldl (\<lambda>a d. a * b + d) 0 ds"

lemma value_digits: "value_of b (digits_of b n) = n"
proof (induction b n rule: digits_of.induct)
  case (1 b n)
  then show ?case by (subst digits_of.simps) (simp add: value_of_def)
qed

lemma digits_bound: "1 < b \<Longrightarrow> d \<in> set (digits_of b n) \<Longrightarrow> d < b"
proof (induction b n rule: digits_of.induct)
  case (1 b n)
  show ?case
  proof (cases "n < b")
    case True
    then show ?thesis using 1(3) by (simp add: digits_of.simps[of b n])
  next
    case False
    then show ?thesis using 1 by (auto simp: digits_of.simps[of b n])
  qed
qed

lemma digits_length: "1 < b \<Longrightarrow> n < 2 ^ k \<Longrightarrow> 0 < k \<Longrightarrow> length (digits_of b n) \<le> k"
proof (induction b n arbitrary: k rule: digits_of.induct)
  case (1 b n)
  show ?case
  proof (cases "n < b")
    case False
    have "2 \<le> n" using False 1(2) by simp
    then have k: "1 < k" using 1(3,4) by (cases "k = 1") auto
    have "n div b \<le> n div 2" using 1(2) by (intro div_le_mono2) simp_all
    also have "n div 2 < 2 ^ (k - 1)" using 1(3) k by (cases k) auto
    finally have "length (digits_of b (n div b)) \<le> k - 1" using 1(1)[of "k - 1"] False 1(2) k by simp
    then show ?thesis using False 1(2) k by (simp add: digits_of.simps[of b n])
  qed (use 1(4) in \<open>simp add: digits_of.simps[of b n]\<close>)
qed

lemma digits_nonempty [simp]: "digits_of b n \<noteq> []" "0 < length (digits_of b n)"
  by (subst digits_of.simps; simp)+

text \<open>The two loops of \<open>__int_str\<close> compute these digits.\<close>

lemma base_nat:
  assumes "1 < unat (base :: u64)"
  shows "\<not> base \<le> 1" "i div base = 0 \<longleftrightarrow> unat i < unat base"
  using assms by (auto simp: word_le_nat_alt word_unat_eq_iff unat_div div_eq_0_iff)

lemma digit_count_length: "1 < unat base \<Longrightarrow> digit_count base i = length (digits_of (unat base) (unat i))"
proof (induction base i rule: digit_count.induct)
  case (1 base i)
  show ?case using 1 base_nat(1)[OF 1(2)] base_nat(2)[OF 1(2), of i] by (subst digit_count.simps, subst digits_of.simps) (auto simp: unat_div)
qed

lemma put_digits_text:
  assumes "1 < unat base" "unat base \<le> length digit" "length (digits_of (unat base) (unat i)) \<le> p" "p \<le> length buf"
  shows "put_digits digit base i p buf =
    Inr (take (p - length (digits_of (unat base) (unat i))) buf @ map ((!) digit) (digits_of (unat base) (unat i)) @ drop p buf)"
  using assms
proof (induction digit base i p buf rule: put_digits.induct)
  case (1 digit base i p buf)
  define ds where "ds = digits_of (unat base) (unat i)"
  let ?d = "unat i mod unat base" and ?b = "buf[p - 1 := digit ! unat (i mod base)]"
  have p: "0 < p" using 1(4) digits_nonempty(2)[of "unat base" "unat i"] by linarith
  have d: "unat (i mod base) = ?d" "?d < length digit" using 1(2,3) by (simp_all add: unat_mod order_less_le_trans[OF mod_less_divisor])
  have put: "buf_put (p - 1) (digit ! unat (i mod base)) buf = Inr ?b" using 1(5) p by (simp add: buf_put_def)
  have drop_p: "drop (p - 1) ?b = digit ! ?d # drop p buf"
    using p 1(5) d(1) by (simp add: Cons_nth_drop_Suc[symmetric] drop_update_cancel)
  show ?case
  proof (cases "unat i < unat base")
    case True
    then have ds: "digits_of (unat base) (unat i) = [unat i]" by (simp add: digits_of.simps)
    have z: "base \<le> 1 \<or> i div base = 0" using base_nat(2)[OF 1(2), of i] True by simp
    have "put_digits digit base i p buf = Inr ?b"
      using p d put z by (subst put_digits.simps) simp
    also have "?b = take (p - 1) buf @ digit ! ?d # drop p buf"
      using append_take_drop_id[of "p - 1" ?b] drop_p by simp
    finally show ?thesis using True ds by simp
  next
    case False
    then have ds: "digits_of (unat base) (unat i) = digits_of (unat base) (unat (i div base)) @ [?d]"
      using 1(2) by (simp add: digits_of.simps[of _ "unat i"] unat_div)
    have nz: "\<not> (base \<le> 1 \<or> i div base = 0)" using base_nat(1)[OF 1(2)] base_nat(2)[OF 1(2), of i] False by simp
    let ?n = "length (digits_of (unat base) (unat (i div base)))"
    have "put_digits digit base i p buf = put_digits digit base (i div base) (p - 1) ?b"
      using p d put nz by (subst put_digits.simps) simp
    also have "\<dots> = Inr (take (p - 1 - ?n) ?b @ map ((!) digit) (digits_of (unat base) (unat (i div base))) @ drop (p - 1) ?b)"
      using 1(1)[of ?b] p d nz 1(2-5) ds by simp
    finally show ?thesis using ds drop_p p by (simp add: take_update_cancel)
  qed
qed

subsection \<open>The buffer\<close>

definition text_of :: "string \<Rightarrow> bool" where
  "text_of xs \<longleftrightarrow> NUL \<notin> set xs"

lemma takeWhile_text: "text_of xs \<Longrightarrow> 0 < m \<Longrightarrow> takeWhile (\<lambda>c. c \<noteq> NUL) (xs @ replicate m NUL) = xs"
  by (cases m) (auto simp: text_of_def takeWhile_append)

lemma buf_len_text: "text_of xs \<Longrightarrow> 0 < m \<Longrightarrow> buf_len (xs @ replicate m NUL) = Inr (length xs)"
  by (simp add: buf_len_def takeWhile_text)

lemma buf_pad_text:
  assumes "text_of xs" "n < m" "c \<noteq> NUL"
  shows "buf_pad n c (xs @ replicate m NUL) = Inr ((xs @ replicate n c) @ replicate (m - n) NUL)"
  using assms
proof (induction n arbitrary: xs m)
  case (Suc n)
  have "(xs @ replicate m NUL)[length xs := c] = (xs @ [c]) @ replicate (m - 1) NUL"
    using Suc.prems(2) by (cases m) (simp_all add: list_update_append)
  then have "buf_pad (Suc n) c (xs @ replicate m NUL) = buf_pad n c ((xs @ [c]) @ replicate (m - 1) NUL)"
    using Suc.prems buf_len_text[of xs m] by (simp add: buf_put_def)
  also have "\<dots> = Inr (((xs @ [c]) @ replicate n c) @ replicate (m - 1 - n) NUL)"
    using Suc.prems by (intro Suc.IH) (simp_all add: text_of_def)
  finally show ?case by simp
qed simp

lemma buf_copy_text:
  assumes "length pre + length cs < length (pre @ buf)"
  shows "buf_copy (length pre) cs (pre @ buf) = Inr (pre @ cs @ NUL # drop (Suc (length cs)) buf)"
  using assms
proof (induction cs arbitrary: pre buf)
  case Nil
  then show ?case by (cases buf) (simp_all add: buf_put_def)
next
  case (Cons c cs)
  then obtain x buf' where b: "buf = x # buf'" by (cases buf) auto
  have "buf_copy (length (pre @ [c])) cs ((pre @ [c]) @ buf') = Inr ((pre @ [c]) @ cs @ NUL # drop (Suc (length cs)) buf')"
    using Cons.prems b by (intro Cons.IH) simp
  then show ?case using b by (simp add: buf_put_def)
qed

definition sign_text :: "bool \<Rightarrow> bool \<Rightarrow> bool \<Rightarrow> string" where
  "sign_text neg pls spc = (if neg then ''-'' else if pls then ''+'' else if spc then '' '' else [])"

definition radix :: "u64 \<Rightarrow> u64" where
  "radix base = (if base = 17 then 16 else base)"

definition num_text :: "u64 \<Rightarrow> u64 \<Rightarrow> string" where
  "num_text base w = map ((!) (digit_table base)) (digits_of (unat (radix base)) (unat w))"

definition good_base :: "u64 \<Rightarrow> bool" where
  "good_base base \<longleftrightarrow> base = 8 \<or> base = 10 \<or> base = 16 \<or> base = 17"

text \<open>The field: sign and digits, padded on the left, or on the right when left-justified.\<close>

definition field_text :: "string \<Rightarrow> u32 \<Rightarrow> bool \<Rightarrow> bool \<Rightarrow> string" where
  "field_text t width left zero =
     (let pad = replicate (nat (sint width - int (length t))) (if zero then CHR ''0'' else CHR '' '')
      in if left then t @ pad else pad @ t)"

lemma digit_table_length: "good_base base \<Longrightarrow> length (digit_table base) = 32"
  by (auto simp: good_base_def digit_table_def)

lemma radix_bounds: "good_base base \<Longrightarrow> 1 < unat (radix base)" "good_base base \<Longrightarrow> unat (radix base) \<le> 16"
  by (auto simp: good_base_def radix_def)

lemma digit_table_text: "good_base base \<Longrightarrow> d < unat (radix base) \<Longrightarrow> digit_table base ! d \<noteq> NUL"
proof -
  assume g: "good_base base" "d < unat (radix base)"
  have "list_all (\<lambda>c. c \<noteq> NUL) (take 8 (digit_table 8)) \<and> list_all (\<lambda>c. c \<noteq> NUL) (take 10 (digit_table 10)) \<and>
    list_all (\<lambda>c. c \<noteq> NUL) (take 16 (digit_table 16)) \<and> list_all (\<lambda>c. c \<noteq> NUL) (take 16 (digit_table 17))" by code_simp
  then have "list_all (\<lambda>c. c \<noteq> NUL) (take (unat (radix base)) (digit_table base))"
    using g(1) by (auto simp: good_base_def radix_def)
  then have "take (unat (radix base)) (digit_table base) ! d \<noteq> NUL"
    using g radix_bounds(2)[OF g(1)] digit_table_length[OF g(1)] by (simp add: list_all_length)
  then show ?thesis using g(2) by simp
qed

lemma num_text_props:
  assumes "good_base base"
  shows "text_of (num_text base w)" "length (num_text base w) \<le> 64" "length (num_text base w) = digit_count (radix base) w"
proof -
  have "d < unat (radix base)" if "d \<in> set (digits_of (unat (radix base)) (unat w))" for d
    using digits_bound[OF radix_bounds(1)[OF assms] that] .
  then show "text_of (num_text base w)" using digit_table_text[OF assms] by (force simp: text_of_def num_text_def)
  show "length (num_text base w) \<le> 64"
    using digits_length[OF radix_bounds(1)[OF assms] unat64[of w]] by (simp add: num_text_def)
  show "length (num_text base w) = digit_count (radix base) w"
    using digit_count_length[OF radix_bounds(1)[OF assms]] by (simp add: num_text_def)
qed

lemma int_str_text:
  fixes w base :: u64 and neg pls spc :: bool
  assumes g: "good_base base" and room: "sint width < 190"
  defines "t \<equiv> sign_text neg pls spc @ num_text base w"
  shows "int_str w (replicate 256 NUL) base pls spc width left zero neg =
    Some (Inr (field_text t width left zero @ replicate (256 - length (field_text t width left zero)) NUL, length (num_text base w)))"
proof -
  let ?sg = "sign_text neg pls spc" and ?n = "length (num_text base w)" and ?c = "if zero then CHR ''0'' else CHR '' ''"
  let ?f = "field_text t width left zero" and ?pad = "nat (sint width - int (length t))"
  note num = num_text_props[OF g, of w]
  have sg: "text_of ?sg" "length ?sg \<le> 1" by (simp_all add: sign_text_def text_of_def)
  have t: "text_of t" "length t \<le> 65" "length t = length ?sg + ?n" "0 < ?n"
    using sg num by (auto simp: t_def text_of_def num_text_def)
  have padb: "?pad < 190" using room by linarith
  have flen: "length ?f = ?pad + length t" by (simp add: field_text_def Let_def)
  let ?b1 = "?sg @ replicate (256 - length ?sg) NUL" and ?b = "t @ replicate (256 - length t) NUL"
  have s1: "(case ?sg of [] \<Rightarrow> Inr (replicate 256 NUL) | c # _ \<Rightarrow> buf_put 0 c (replicate 256 NUL)) = Inr ?b1"
  proof -
    have "replicate 256 NUL = NUL # replicate 255 NUL" by (simp add: replicate_Suc[symmetric] del: replicate_Suc)
    then show ?thesis by (simp add: sign_text_def buf_put_def)
  qed
  have s2: "buf_put (length t) NUL ?b1 = Inr ?b1"
  proof -
    have "?b1 ! length t = NUL" "length ?b1 = 256" using t sg(2) by (simp_all add: nth_append)
    then have "length t < length ?b1" "?b1[length t := NUL] = ?b1" using t(2) list_update_id[of ?b1 "length t"] by simp_all
    then show ?thesis unfolding buf_put_def by (simp only: if_True)
  qed
  have s3: "put_digits (digit_table base) (radix base) w (length t) ?b1 = Inr ?b"
  proof -
    have ln: "length (digits_of (unat (radix base)) (unat w)) = ?n" by (simp add: num_text_def)
    have "put_digits (digit_table base) (radix base) w (length t) ?b1 =
        Inr (take (length t - length (digits_of (unat (radix base)) (unat w))) ?b1 @ num_text base w @ drop (length t) ?b1)"
      unfolding num_text_def
      by (rule put_digits_text[OF radix_bounds(1)[OF g]])
        (use digit_table_length[OF g] radix_bounds(2)[OF g] t(2,3) sg(2) ln in simp_all)
    then have "put_digits (digit_table base) (radix base) w (length t) ?b1 =
        Inr (take (length t - ?n) ?b1 @ num_text base w @ drop (length t) ?b1)" unfolding ln .
    also have "take (length t - ?n) ?b1 = ?sg" using t(3) by simp
    also have "drop (length t) ?b1 = replicate (256 - length t) NUL" using t(2,3) by simp
    finally show ?thesis by (simp add: t_def)
  qed
  have s4: "buf_len ?b = Inr (length t)" using t by (intro buf_len_text) simp_all
  have c: "?c \<noteq> NUL" by simp
  have s5: "buf_pad ?pad ?c ?b = Inr (?f @ replicate (256 - length ?f) NUL)" if left
    using buf_pad_text[OF t(1) _ c, of ?pad "256 - length t"] padb t(2) that
    by (simp add: field_text_def Let_def diff_diff_left add.commute)
  have s6: "buf_pad ?pad ?c (replicate 256 NUL) = Inr (replicate ?pad ?c @ replicate (256 - ?pad) NUL)"
    using buf_pad_text[of "[]" ?pad 256 ?c] padb by (simp add: text_of_def)
  have pt: "text_of (replicate ?pad ?c)" "text_of ?f" using t(1) by (auto simp: text_of_def field_text_def Let_def)
  have s7: "buf_len (replicate ?pad ?c @ replicate (256 - ?pad) NUL) = Inr ?pad"
    using buf_len_text[OF pt(1), of "256 - ?pad"] padb by simp
  have tb: "takeWhile (\<lambda>c. c \<noteq> NUL) ?b = t" using t by (intro takeWhile_text) simp_all
  have nul: "NUL # drop (Suc k) (replicate m NUL) = replicate (m - k) NUL" if "k < m" for k m
    using that by (cases "m - k") (simp_all add: Suc_diff_Suc)
  have s8: "buf_copy ?pad t (replicate ?pad ?c @ replicate (256 - ?pad) NUL) = Inr (?f @ replicate (256 - length ?f) NUL)" if "\<not> left"
    using buf_copy_text[of "replicate ?pad ?c" t "replicate (256 - ?pad) NUL"] padb t(2) nul[of "length t" "256 - ?pad"] that flen
    by (simp add: field_text_def Let_def)
  have tf: "takeWhile (\<lambda>c. c \<noteq> NUL) (?f @ replicate (256 - length ?f) NUL) = ?f"
    using flen padb t(2) by (intro takeWhile_text[OF pt(2)]) simp
  have s9: "buf_copy 0 ?f ?b = Inr (?f @ replicate (256 - length ?f) NUL)"
  proof -
    have "NUL # drop (Suc (length ?f)) ?b = replicate (256 - length ?f) NUL"
      using nul[of "length ?f - length t" "256 - length t"] flen padb t(2) by (simp add: Suc_diff_le)
    then show ?thesis using buf_copy_text[of "[]" ?f ?b] flen padb t(2) by simp
  qed
  have r: "radix base \<noteq> 0" "\<not> (radix base = 1 \<and> w \<noteq> 0)" using radix_bounds(1)[OF g] by auto
  show ?thesis
    unfolding int_str_def radix_def[symmetric] sign_text_def[symmetric] Let_def num(3)[symmetric] t(3)[symmetric]
    using r s1 s2 s3 s4 s5 s6 s7 s8 s9 tb tf by (cases left) simp_all
qed

subsection \<open>The terminal\<close>

lemma print_text: "print cs s = (True, s\<lparr>out := out s @ cs\<rparr>)"
proof (induction cs arbitrary: s)
  case (Cons c cs)
  have "(of_char c :: int) = int (of_char c)" by (simp only: of_nat_of_char)
  then have "(of_char c :: int) \<noteq> - 1" by linarith
  then show ?case using Cons by (simp add: putchar_def)
qed simp

lemma display_string_text: "display_string cs s = s\<lparr>out := out s @ cs, chars := chars s + of_nat (length cs)\<rparr>"
  by (simp add: display_string_def print_text)

lemma print_number_text:
  fixes w base :: u64 and neg :: bool and f :: pspec
  assumes "good_base base" "sint (lengthSpec f) < 190" "intStrBuffer s = replicate 256 NUL"
  defines "n \<equiv> length (num_text base w)"
  defines "t \<equiv> take n (field_text (sign_text neg (plusSign f) (spaceNoSign f) @ num_text base w) (lengthSpec f) (leftJustify f) (zeroPad f))"
  shows "\<exists>u. print_number w neg base f s = Some (Inr u) \<and> out u = out s @ t \<and> chars u = chars s + of_nat n \<and>
    va_list u = va_list s \<and> pmem u = pmem s"
proof -
  let ?f = "field_text (sign_text neg (plusSign f) (spaceNoSign f) @ num_text base w) (lengthSpec f) (leftJustify f) (zeroPad f)"
  have "n \<le> length ?f" by (auto simp: n_def field_text_def Let_def)
  moreover have "n \<le> 256" using num_text_props(2)[OF assms(1), of w] by (simp add: n_def)
  ultimately show ?thesis unfolding print_number_def assms(3)
    using int_str_text[OF assms(1,2), where w = w and neg = neg and pls = "plusSign f" and spc = "spaceNoSign f"
      and left = "leftJustify f" and zero = "zeroPad f"]
    by (simp add: display_buf_def display_string_text t_def n_def[symmetric] min_absorb2)
qed

lemma char_of_signed: "char_of (sint (of_char c :: u8)) = c"
proof -
  have w: "(of_char c :: u8) = of_nat (of_char c)" by (simp only: of_nat_of_char)
  have "take_bit 8 (sint (of_char c :: u8)) = take_bit 8 (int (of_char c))"
    unfolding w by (simp add: sint_uint take_bit_signed_take_bit unsigned_of_nat of_nat_take_bit)
  then have "char_of (sint (of_char c :: u8)) = char_of (int (of_char c))"
    by (metis char_of_take_bit_eq order_refl)
  also have "int (of_char c) = of_char c" by (simp only: of_nat_of_char)
  finally show ?thesis by simp
qed

lemma vprintf_from_step:
  assumes "i < length fmt" "fmt ! i \<noteq> NUL"
  shows "vprintf_from F fmt i s = bindX (vprintf_step F fmt i (fmt ! i) s) (\<lambda>(i, s). vprintf_from F fmt (Suc i) s)"
  using assms by (subst vprintf_from.simps) (simp add: at_def)

lemma vprintf_from_end: "vprintf_from F fmt (length fmt) s = Some (Inr s)"
  by (subst vprintf_from.simps) (simp add: at_def)

lemma vprintf_skip:
  assumes "i + k \<le> length fmt" "\<And>j. i \<le> j \<Longrightarrow> j < i + k \<Longrightarrow> fmt ! j \<noteq> NUL \<and> fmt ! j \<noteq> CHR ''%''"
  shows "vprintf_from F fmt i s =
    vprintf_from F fmt (i + k) (s\<lparr>out := out s @ take k (drop i fmt), chars := chars s + of_nat k\<rparr>)"
  using assms
proof (induction k arbitrary: i s)
  case (Suc k)
  then have i: "i < length fmt" "fmt ! i \<noteq> NUL" "fmt ! i \<noteq> CHR ''%''" by auto
  have d: "drop i fmt = fmt ! i # drop (Suc i) fmt" using i by (simp add: Cons_nth_drop_Suc)
  have "vprintf_from F fmt i s = vprintf_from F fmt (Suc i) (s\<lparr>out := out s @ [fmt ! i], chars := chars s + 1\<rparr>)"
    using vprintf_from_step[OF i(1,2), of F s] i(3) char_of_signed[of "fmt ! i"]
    by (simp add: vprintf_step_def putchar_def Let_def)
  also have "\<dots> = vprintf_from F fmt (Suc i + k) (s\<lparr>out := out s @ take (Suc k) (drop i fmt), chars := chars s + of_nat (Suc k)\<rparr>)"
    using Suc.IH[of "Suc i"] Suc.prems d by (auto simp: ac_simps)
  finally show ?case by simp
qed simp

text \<open>A conversion specification that ends at the end of the format.\<close>

lemma parse_spec_end:
  "parse_spec fmt (length fmt) s = Inr ((length fmt, pspec0\<lparr>precSpec := 6, specifier := NUL\<rparr>), s)"
  by (simp add: parse_spec_def parse_flags.simps parse_number.simps parse_star_def parse_precision_def parse_length_def
      at_def pspec0_def)

lemma convert_nothing:
  "convert F (pspec0\<lparr>precSpec := 6, specifier := NUL\<rparr>) s = Some (Inr (s\<lparr>intStrBuffer := replicate 256 NUL\<rparr>))"
  by (simp add: convert_def convert_switch_def print_exponent_def Let_def pspec0_def)

text \<open>
  A format without conversions is printed as it is: the call ends without a fault, the
  characters reach the terminal in order and the result is their number.
\<close>

theorem printf_plain_text:
  assumes "NUL \<notin> set fmt" "CHR ''%'' \<notin> set fmt"
  shows "\<exists>t. printf F fmt args s = Some (Inr (of_nat (length fmt), t)) \<and> out t = out s @ fmt"
proof -
  let ?s = "s\<lparr>va_list := args, chars := 0, intStrBuffer := replicate 256 NUL\<rparr>"
  have "vprintf_from F fmt 0 ?s = Some (Inr (?s\<lparr>out := out s @ fmt, chars := of_nat (length fmt)\<rparr>))"
    using vprintf_skip[of 0 "length fmt" fmt F ?s] assms vprintf_from_end[of F fmt] nth_mem[of _ fmt] by fastforce
  then show ?thesis by (simp add: printf_def vprintf_def)
qed

definition pf_example :: "unit pf" where
  "pf_example = \<lparr>out = [], chars = 0, pmem = (\<lambda>_. 0), va_list = [], intStrBuffer = []\<rparr>"

definition fpu_unit :: "unit fpu" where
  "fpu_unit = \<lparr>fp_lt = \<lambda>_ _. False, fp_le = \<lambda>_ _. False, fp_of = \<lambda>_. (), fp_half = (), fp_add = \<lambda>_ _. (), fp_sub = \<lambda>_ _. (),
     fp_mul = \<lambda>_ _. (), fp_div = \<lambda>_ _. (), fp_neg = \<lambda>_. (), fp_to_u64 = \<lambda>_. 0, fp_to_i64 = \<lambda>_. 0\<rparr>"

theorem printf_plain_text_witness:
  "\<exists>t. printf fpu_unit ''nya'' [] pf_example = Some (Inr (3, t)) \<and> out t = ''nya''"
  using printf_plain_text[of "''nya''" fpu_unit "[]" pf_example] by (auto simp: pf_example_def)

text \<open>
  C20. A number conversion ends without a fault for every value, base, flag and width below
  190. The digits of the field are the positional numeral of the value, so reading them
  back gives the value; but what reaches the terminal is only a prefix of the field, as
  many characters as there are digits, which cuts off a digit for each character of sign
  or left padding.
\<close>

theorem print_number_prefix:
  fixes w base :: u64
  assumes "good_base base" "sint (lengthSpec f) < 190" "intStrBuffer s = replicate 256 NUL"
  defines "ds \<equiv> digits_of (unat (radix base)) (unat w)"
  shows "value_of (unat (radix base)) ds = unat w \<and> (\<forall>d\<in>set ds. d < unat (radix base)) \<and>
    (\<exists>u. print_number w neg base f s = Some (Inr u) \<and>
      out u = out s @ take (length ds) (field_text (sign_text neg (plusSign f) (spaceNoSign f) @ map ((!) (digit_table base)) ds)
        (lengthSpec f) (leftJustify f) (zeroPad f)) \<and>
      chars u = chars s + of_nat (length ds))"
  using print_number_text[OF assms(1-3), of w neg] digits_bound[OF radix_bounds(1)[OF assms(1)]]
  by (auto simp: num_text_def ds_def value_digits)

theorem print_number_prefix_witness:
  "\<exists>u. print_number 42 True 10 pspec0 (pf_example\<lparr>intStrBuffer := replicate 256 NUL\<rparr>) = Some (Inr u) \<and> out u = ''-4''"
proof -
  let ?s = "pf_example\<lparr>intStrBuffer := replicate 256 NUL\<rparr>"
  have a: "good_base 10" "sint (lengthSpec pspec0) < 190" "intStrBuffer ?s = replicate 256 NUL"
    by (simp_all add: good_base_def pspec0_def)
  have d: "digits_of (unat (radix 10)) (unat (42 :: u64)) = [4, 2]" by (simp add: radix_def digits_of.simps)
  show ?thesis using print_number_prefix[OF a, of 42 True] unfolding d
    by (auto simp: pf_example_def field_text_def pspec0_def sign_text_def digit_table_def)
qed

text \<open>
  A format whose last character is a lone percent sign makes \<open>printf\<close> skip the
  terminating zero and read past the end of the format.
\<close>

theorem printf_percent_at_end:
  assumes "NUL \<notin> set fmt" "CHR ''%'' \<notin> set fmt"
  shows "printf F (fmt @ ''%'') args s = Some (Inl OutOfBounds)"
proof -
  let ?f = "fmt @ ''%''" and ?s = "s\<lparr>va_list := args, chars := 0, intStrBuffer := replicate 256 NUL\<rparr>"
  let ?t = "?s\<lparr>out := out s @ fmt, chars := of_nat (length fmt)\<rparr>"
  have plain: "fmt ! j \<noteq> NUL \<and> fmt ! j \<noteq> CHR ''%''" if "j < length fmt" for j using assms nth_mem[OF that] by metis
  have "vprintf_from F ?f 0 ?s = vprintf_from F ?f (length fmt) ?t"
    using vprintf_skip[of 0 "length fmt" ?f F ?s] plain by (simp add: nth_append)
  also have "\<dots> = vprintf_from F ?f (Suc (length ?f)) (?t\<lparr>intStrBuffer := replicate 256 NUL\<rparr>)"
    using vprintf_from_step[of "length fmt" ?f F ?t] parse_spec_end[of ?f ?t] convert_nothing[of F ?t]
    by (simp add: vprintf_step_def)
  also have "\<dots> = Some (Inl OutOfBounds)" by (subst vprintf_from.simps) (simp add: at_def)
  finally show ?thesis by (simp add: printf_def vprintf_def)
qed

theorem printf_percent_at_end_witness: "printf fpu_unit ''100%'' [] pf_example = Some (Inl OutOfBounds)"
  using printf_percent_at_end[of "''100''" fpu_unit "[]" pf_example] by simp

end
