(* ===== verification/Nya_Apic.thy ===== *)
theory Nya_Apic
  imports Nya_Pager Nya_String Nya_Pic
begin

unbundle bit_operations_syntax

section \<open>The interrupt controllers of the APIC\<close>

text \<open>
  \<open>apic.c\<close> and \<open>ioapic.c\<close> of \<open>kernel/arch/x86_64\<close>. Device registers are accessed through
  \<open>mmio_read\<close> and \<open>mmio_write\<close>; the ACPI tables are read from byte memory at the offsets of
  the packed structures of \<open>kernel/rsdt.h\<close>; \<open>map_page\<close> is that of the pager.
\<close>

subsection \<open>The local APIC\<close>

record apic =
  apic_offset :: u64
  apager :: pager

definition check_apic :: "hw \<Rightarrow> bool \<times> hw" where
  "check_apic s = (case cpuid 1 s of ((eax, edx), s) \<Rightarrow> (edx AND 0x100 \<noteq> 0, s))"

definition cpu_set_apic_base :: "u64 \<Rightarrow> hw \<Rightarrow> hw" where
  "cpu_set_apic_base apic s =
     (let eax = ucast ((apic AND 0xfffff000) OR 0x800) :: u32;
          edx = ucast (drop_bit 32 apic AND 0x0f) :: u32
      in cpuSetMSR 0x1B eax edx s)"

definition cpu_get_apic_base :: "hw \<Rightarrow> u64 \<times> hw" where
  "cpu_get_apic_base s =
     (case cpuGetMSR 0x1B s of ((eax, edx), s) \<Rightarrow>
        (ucast (eax AND 0xfffff000) OR push_bit 32 (ucast (edx AND 0x0f)), s))"

definition cpu_write_io_apic :: "u64 \<Rightarrow> u32 \<Rightarrow> u32 \<Rightarrow> hw \<Rightarrow> hw" where
  "cpu_write_io_apic ioapicaddr reg val s = mmio_write (ioapicaddr + 16) val (mmio_write ioapicaddr (reg AND 0xff) s)"

definition cpu_read_io_apic :: "u64 \<Rightarrow> u32 \<Rightarrow> hw \<Rightarrow> u32 \<times> hw" where
  "cpu_read_io_apic ioapicaddr reg s = mmio_read (ioapicaddr + 16) (mmio_write ioapicaddr (reg AND 0xff) s)"

definition write_reg :: "u32 \<Rightarrow> u32 \<Rightarrow> apic \<Rightarrow> hw \<Rightarrow> hw" where
  "write_reg data reg_offset a s = mmio_write (apic_offset a + ucast reg_offset) data s"

definition read_reg :: "u32 \<Rightarrow> apic \<Rightarrow> hw \<Rightarrow> u32 \<times> hw" where
  "read_reg reg_offset a s = mmio_read (apic_offset a + ucast reg_offset) s"

definition apic_start_timer :: "u32 \<Rightarrow> u32 \<Rightarrow> apic \<Rightarrow> hw \<Rightarrow> hw" where
  "apic_start_timer divider sleep_micros a s =
     (let s = write_reg 0 0x380 a s;
          s = write_reg divider 0x3e0 a s;
          s = write_reg (0x30 OR push_bit 17 1) 0x320 a s
      in write_reg sleep_micros 0x380 a s)"

definition send_eoi :: "apic \<Rightarrow> hw \<Rightarrow> hw" where
  "send_eoi a s = write_reg 0 0xB0 a s"

definition apic_init :: "apic \<Rightarrow> hw \<Rightarrow> (apic \<times> hw) res" where
  "apic_init a s0 =
     (case cpu_get_apic_base (pic_disable (remap_irqs s0)) of (base, s) \<Rightarrow>
        bindR (map_page base base 0x18 (apager a)) (\<lambda>pg.
          let a = a\<lparr>apic_offset := base, apager := pg\<rparr>;
              s = cpu_set_apic_base base s
          in case read_reg 0xf0 a s of (v, s) \<Rightarrow> Inr (a, emit Sti (write_reg (v OR 0x100) 0xf0 a s))))"

subsection \<open>The I/O APIC\<close>

definition write_ioapic :: "u64 \<Rightarrow> u8 \<Rightarrow> u32 \<Rightarrow> hw \<Rightarrow> hw" where
  "write_ioapic apic_base offset val s = mmio_write (apic_base + 0x10) val (mmio_write apic_base (ucast offset) s)"

definition read_ioapic :: "u64 \<Rightarrow> u8 \<Rightarrow> hw \<Rightarrow> u32 \<times> hw" where
  "read_ioapic apic_base offset s = mmio_read (apic_base + 0x10) (mmio_write apic_base (ucast offset) s)"

definition ioapic_route :: "u64 \<Rightarrow> u32 \<Rightarrow> u32 \<Rightarrow> u16 \<Rightarrow> u8 \<Rightarrow> u8 \<Rightarrow> hw \<Rightarrow> hw" where
  "ioapic_route base gsi_base gsi iso_flags vector lapic_id s =
     (let index = gsi - gsi_base;
          reg = 0x10 + index * 2;
          low = ucast vector :: u32;
          low = (if iso_flags AND 0x3 = 0x3 then low OR push_bit 13 1 else low);
          low = (if iso_flags AND 0xc = 0xc then low OR push_bit 15 1 else low);
          high = push_bit 24 (ucast lapic_id) :: u32
      in write_ioapic base (ucast reg) low (write_ioapic base (ucast (reg + 1)) high s))"

subsection \<open>ACPI tables\<close>

text \<open>The packed structures of \<open>kernel/rsdt.h\<close>, and their contents at an address.\<close>

definition bytes_at :: "mem \<Rightarrow> u64 \<Rightarrow> nat \<Rightarrow> u8 list" where
  "bytes_at m p n = map (\<lambda>i. m (p + of_nat i)) [0..<n]"

record XSDP =
  xsdp_signature :: "u8 list"
  xsdp_check_sum :: u8
  xsdp_oemid :: "u8 list"
  xsdp_revision :: u8
  rsdt_addr :: u32
  xsdp_len :: u32
  xsdt_addr :: u64
  extended_checksum :: u8
  xsdp_reserved :: "u8 list"

definition XSDP_at :: "mem \<Rightarrow> u64 \<Rightarrow> XSDP" where
  "XSDP_at m p = \<lparr>xsdp_signature = bytes_at m p 8, xsdp_check_sum = m (p + 8), xsdp_oemid = bytes_at m (p + 9) 6,
     xsdp_revision = m (p + 15), rsdt_addr = rd32 m (p + 16), xsdp_len = rd32 m (p + 20), xsdt_addr = rd64 m (p + 24),
     extended_checksum = m (p + 32), xsdp_reserved = bytes_at m (p + 33) 3\<rparr>"

record XSDT_header =
  hdr_signature :: "u8 list"
  hdr_length :: u32
  hdr_revision :: u8
  hdr_checksum :: u8
  OEMID :: "u8 list"
  OEMTableID :: "u8 list"
  OEMRevision :: u32
  creatorID :: u32
  creatorRevision :: u32

definition XSDT_header_at :: "mem \<Rightarrow> u64 \<Rightarrow> XSDT_header" where
  "XSDT_header_at m p = \<lparr>hdr_signature = bytes_at m p 4, hdr_length = rd32 m (p + 4), hdr_revision = m (p + 8), hdr_checksum = m (p + 9),
     OEMID = bytes_at m (p + 10) 6, OEMTableID = bytes_at m (p + 16) 8, OEMRevision = rd32 m (p + 24), creatorID = rd32 m (p + 28),
     creatorRevision = rd32 m (p + 32)\<rparr>"

abbreviation (input) sizeof_XSDT_header :: u64 where "sizeof_XSDT_header \<equiv> 36"

record MADT =
  madt_hdr :: XSDT_header
  lapic_addr :: u32
  madt_flags :: u32

definition MADT_at :: "mem \<Rightarrow> u64 \<Rightarrow> MADT" where
  "MADT_at m p = \<lparr>madt_hdr = XSDT_header_at m p, lapic_addr = rd32 m (p + 36), madt_flags = rd32 m (p + 40)\<rparr>"

abbreviation (input) sizeof_MADT :: u64 where "sizeof_MADT \<equiv> 44"

record MADT_record =
  rec_type :: u8
  rec_length :: u8

definition MADT_record_at :: "mem \<Rightarrow> u64 \<Rightarrow> MADT_record" where
  "MADT_record_at m p = \<lparr>rec_type = m p, rec_length = m (p + 1)\<rparr>"

record madt_ioapic_t = MADT_record +
  ioapic_id :: u8
  ioapic_reserved :: u8
  ioapic_addr :: u32
  ioapic_gsi_base :: u32

definition madt_ioapic_at :: "mem \<Rightarrow> u64 \<Rightarrow> madt_ioapic_t" where
  "madt_ioapic_at m p = \<lparr>rec_type = m p, rec_length = m (p + 1), ioapic_id = m (p + 2), ioapic_reserved = m (p + 3),
     ioapic_addr = rd32 m (p + 4), ioapic_gsi_base = rd32 m (p + 8)\<rparr>"

record madt_iso_t = MADT_record +
  bus_src :: u8
  irq_src :: u8
  iso_gsi :: u32
  override_flags :: u16

definition madt_iso_at :: "mem \<Rightarrow> u64 \<Rightarrow> madt_iso_t" where
  "madt_iso_at m p = \<lparr>rec_type = m p, rec_length = m (p + 1), bus_src = m (p + 2), irq_src = m (p + 3),
     iso_gsi = rd32 m (p + 4), override_flags = rd 2 m (p + 8)\<rparr>"

definition table_entries :: "u32 \<Rightarrow> u64 \<Rightarrow> nat" where
  "table_entries len w = nat (sint (ucast ((ucast len - sizeof_XSDT_header) div w :: u64) :: u32))"

definition xsdt_entry :: "u64 \<Rightarrow> u64 \<Rightarrow> nat \<Rightarrow> mem \<Rightarrow> u64" where
  "xsdt_entry xsdt offset i m = rd64 m (xsdt + sizeof_XSDT_header + 8 * of_nat i) + offset"

definition rsdt_entry :: "u64 \<Rightarrow> u64 \<Rightarrow> nat \<Rightarrow> mem \<Rightarrow> u64" where
  "rsdt_entry rsdt offset i m = ucast (rd32 m (rsdt + sizeof_XSDT_header + 4 * of_nat i)) + offset"

fun search_tables :: "(nat \<Rightarrow> u64) \<Rightarrow> u64 \<Rightarrow> mem \<Rightarrow> nat \<Rightarrow> nat \<Rightarrow> u64 option" where
  "search_tables entry signature m i 0 = None"
| "search_tables entry signature m i (Suc n) =
     (if strncmp (entry i) signature 4 m = 0 then Some (entry i) else search_tables entry signature m (Suc i) n)"

definition find_table :: "u64 \<Rightarrow> u64 \<Rightarrow> u64 \<Rightarrow> mem \<Rightarrow> hw \<Rightarrow> u64 \<times> hw" where
  "find_table rsdp offset signature m s =
     (let x = XSDP_at m rsdp;
          found = (if 2 \<le> xsdp_revision x \<and> xsdt_addr x \<noteq> 0
                   then let xsdt = xsdt_addr x + offset
                        in search_tables (\<lambda>i. xsdt_entry xsdt offset i m) signature m 0 (table_entries (hdr_length (XSDT_header_at m xsdt)) 8)
                   else let rsdt = ucast (rsdt_addr x) + offset
                        in search_tables (\<lambda>i. rsdt_entry rsdt offset i m) signature m 0 (table_entries (hdr_length (XSDT_header_at m rsdt)) 4))
      in case found of Some h \<Rightarrow> (h, s) | None \<Rightarrow> (0, kprintf ''No Table Found!\<newline>'' [] s))"

text \<open>
  What the walk over the records of the MADT finds: the I/O APIC and its first interrupt,
  and for each interrupt of the ISA bus its global number and flags.
\<close>

record madt_scan =
  ioapic_phys :: u64
  gsi_base :: u64
  irq_gsi :: "u32 list"
  irq_flags :: "u16 list"

definition madt_start :: madt_scan where
  "madt_start = \<lparr>ioapic_phys = 0, gsi_base = 0, irq_gsi = map of_nat [0..<16], irq_flags = replicate 16 0\<rparr>"

definition madt_record :: "u64 \<Rightarrow> mem \<Rightarrow> madt_scan \<Rightarrow> madt_scan" where
  "madt_record p m r =
     (if rec_type (MADT_record_at m p) = 1
      then let io = madt_ioapic_at m p in r\<lparr>ioapic_phys := ucast (ioapic_addr io), gsi_base := ucast (ioapic_gsi_base io)\<rparr>
      else if rec_type (MADT_record_at m p) = 2
      then let iso = madt_iso_at m p
           in if irq_src iso < 16
              then r\<lparr>irq_gsi := (irq_gsi r)[unat (irq_src iso) := iso_gsi iso],
                     irq_flags := (irq_flags r)[unat (irq_src iso) := override_flags iso]\<rparr>
              else r
      else r)"

partial_function (option) madt_loop :: "u64 \<Rightarrow> u64 \<Rightarrow> mem \<Rightarrow> madt_scan \<Rightarrow> madt_scan option" where
  "madt_loop p end_p m r =
     (if p < end_p
      then let entry = MADT_record_at m p
           in if rec_length entry = 0 then Some r
              else madt_loop (p + ucast (rec_length entry)) end_p m (madt_record p m r)
      else Some r)"

declare madt_loop.simps [code]

definition ioapic_init :: "u64 \<Rightarrow> u64 \<Rightarrow> u64 \<Rightarrow> mem \<Rightarrow> apic \<Rightarrow> hw \<Rightarrow> (apic \<times> hw) res option" where
  "ioapic_init rsdp offset signature m a s0 =
     (case find_table rsdp offset signature m s0 of (madt, s) \<Rightarrow>
        if madt = 0 then Some (Inr (a, s))
        else Option.bind (madt_loop (madt + sizeof_MADT) (madt + ucast (hdr_length (madt_hdr (MADT_at m madt)))) m madt_start) (\<lambda>r.
          if ioapic_phys r = 0 then Some (Inr (a, kprintf ''No IO APIC found in MADT!\<newline>'' [] s))
          else let base = ioapic_phys r + offset
               in Some (bindR (map_page (ioapic_phys r) base 0x18 (apager a)) (\<lambda>pg.
                    let a = a\<lparr>apager := pg\<rparr>
                    in case read_reg 0x20 a s of (v, s) \<Rightarrow>
                         let lapic_id = ucast (drop_bit 24 v) :: u8;
                             route = (\<lambda>irq vector. ioapic_route base (ucast (gsi_base r)) (irq_gsi r ! irq) (irq_flags r ! irq) vector lapic_id)
                         in Inr (a, route 4 0x23 (route 3 0x22 (route 1 0x21 s)))))))"

subsection \<open>Properties of the APIC code\<close>

lemma apic_constants:
  "(0xfffff000 :: 'a::len word) = push_bit 12 (mask 20)" "(0x0f :: 'a::len word) = mask 4" "(0x800 :: 'a::len word) = push_bit 11 1"
  by (simp_all add: mask_eq_exp_minus_1 push_bit_eq_mult)

lemma bit_apic_enable: "bit (0x800 :: u64) n \<longleftrightarrow> n = 11" "bit (0x800 :: int) n \<longleftrightarrow> n = 11" "bit (0x800 :: nat) n \<longleftrightarrow> n = 11"
proof -
  have "bit (push_bit 11 1 :: u64) n \<longleftrightarrow> n = 11" "bit (push_bit 11 1 :: int) n \<longleftrightarrow> n = 11" "bit (push_bit 11 1 :: nat) n \<longleftrightarrow> n = 11"
    by (simp_all only: bit_push_bit_iff bit_1_iff) auto
  then show "bit (0x800 :: u64) n \<longleftrightarrow> n = 11" "bit (0x800 :: int) n \<longleftrightarrow> n = 11" "bit (0x800 :: nat) n \<longleftrightarrow> n = 11" by simp_all
qed

lemma apic_base_bits:
  "bit (fst (cpu_get_apic_base (cpu_set_apic_base a s))) n \<longleftrightarrow> bit a n \<and> 12 \<le> n \<and> n < 36"
proof (cases "n < 32")
  case True
  then show ?thesis
    unfolding cpu_get_apic_base_def cpu_set_apic_base_def cpuGetMSR_def cpuSetMSR_def apic_constants Let_def emit_def
    by (auto simp: bit_or_iff bit_and_iff bit_push_bit_iff bit_mask_iff bit_ucast_iff bit_drop_bit_eq bit_apic_enable)
next
  case False
  then obtain k where k: "n = 32 + k" using le_Suc_ex[of 32 n] by auto
  show ?thesis
    unfolding cpu_get_apic_base_def cpu_set_apic_base_def cpuGetMSR_def cpuSetMSR_def apic_constants Let_def emit_def k
    by (auto simp: bit_or_iff bit_and_iff bit_push_bit_iff bit_mask_iff bit_ucast_iff bit_drop_bit_eq bit_apic_enable)
qed

text \<open>
  Storing a base address in the APIC base register and reading it back gives the
  address with its page offset cleared and cut to 36 bits; exactly the page-aligned
  addresses below 64 GiB survive.
\<close>

theorem apic_base_roundtrip:
  "fst (cpu_get_apic_base (cpu_set_apic_base a s)) = take_bit 36 a AND NOT (mask 12) \<and>
   (fst (cpu_get_apic_base (cpu_set_apic_base a s)) = a \<longleftrightarrow> take_bit 12 a = 0 \<and> a < 2 ^ 36)"
proof -
  let ?b = "fst (cpu_get_apic_base (cpu_set_apic_base a s))"
  have b: "?b = take_bit 36 a AND NOT (mask 12)"
    by (rule bit_word_eqI) (auto simp: apic_base_bits bit_and_iff bit_take_bit_iff bit_not_iff bit_mask_iff)
  have "?b = a \<longleftrightarrow> (\<forall>n. bit a n \<longrightarrow> 12 \<le> n \<and> n < 36)"
    using apic_base_bits[of a s] bit_word_eqI[of ?b a] by metis
  moreover have "take_bit 12 a = 0 \<longleftrightarrow> (\<forall>n<12. \<not> bit a n)"
    by (auto simp: bit_eq_iff bit_take_bit_iff dest: bit_imp_le_length)
  moreover have "a < 2 ^ 36 \<longleftrightarrow> take_bit 36 a = a"
    by (simp add: word_less_nat_alt word_unat_eq_iff unsigned_take_bit_eq take_bit_nat_eq_self_iff)
  moreover have "take_bit 36 a = a \<longleftrightarrow> (\<forall>n. bit a n \<longrightarrow> n < 36)"
    using bit_take_bit_iff[of 36 a] bit_word_eqI[of "take_bit 36 a" a] by metis
  ultimately show ?thesis using b by (metis not_le)
qed

text \<open>The table walk: every record is at least one byte long, so it ends when the table does not wrap around.\<close>

lemma madt_loop_total:
  assumes "unat end_p + 255 < 2 ^ 64" "length (irq_gsi r) = 16" "length (irq_flags r) = 16"
  shows "\<exists>r'. madt_loop p end_p m r = Some r' \<and> length (irq_gsi r') = 16 \<and> length (irq_flags r') = 16"
  using assms(2,3)
proof (induction "unat end_p - unat p" arbitrary: p r rule: less_induct)
  case less
  let ?q = "p + ucast (m (p + 1))"
  have len: "length (irq_gsi (madt_record p m r)) = 16" "length (irq_flags (madt_record p m r)) = 16"
    using less.prems by (simp_all add: madt_record_def Let_def)
  show ?case
  proof (cases "p < end_p \<and> m (p + 1) \<noteq> 0")
    case True
    have "unat (m (p + 1)) < 2 ^ 8" by (rule order_less_le_trans[OF unsigned_less]) simp
    moreover have "0 < unat (m (p + 1))" using True by (simp add: unat_gt_0)
    moreover have u: "unat (ucast (m (p + 1)) :: u64) = unat (m (p + 1))"
      using calculation(1) by (simp add: unsigned_ucast_eq take_bit_nat_eq_self)
    moreover have "unat p < unat end_p" using True by (simp add: word_less_nat_alt)
    ultimately have "unat ?q = unat p + unat (m (p + 1))" using assms(1) by (simp add: unat_word_ariths(1) u)
    then have "unat end_p - unat ?q < unat end_p - unat p" using \<open>0 < unat (m (p + 1))\<close> \<open>unat p < unat end_p\<close> by simp
    from less.hyps[OF this len] True show ?thesis by (subst madt_loop.simps) (simp add: MADT_record_at_def)
  next
    case False
    then show ?thesis using less.prems by (subst madt_loop.simps) (auto simp: MADT_record_at_def)
  qed
qed

text \<open>
  The walk over the interrupt table ends for every content of the memory, however
  malformed the records are, as long as the table does not lie at the very top of the
  address space, and it keeps the two arrays of 16 entries that \<open>ioapic_init\<close> reads later.
\<close>

theorem madt_loop_terminates:
  assumes "unat end_p + 255 < 2 ^ 64"
  shows "\<exists>r. madt_loop p end_p m madt_start = Some r \<and> length (irq_gsi r) = 16 \<and> length (irq_flags r) = 16"
  by (rule madt_loop_total[OF assms]) (simp_all add: madt_start_def)

theorem madt_loop_terminates_witness:
  "\<exists>r. madt_loop 0x1000 0x2000 (\<lambda>a. ucast a) madt_start = Some r \<and> length (irq_gsi r) = 16"
  using madt_loop_terminates[of "0x2000" "0x1000" "\<lambda>a. ucast a"] by auto

text \<open>
  The I/O APIC as the manual describes it: a write to the base selects a register, a write
  16 bytes above stores into the selected one.
\<close>

fun ioapic_run :: "u64 \<Rightarrow> hwev list \<Rightarrow> u32 \<times> (u32 \<Rightarrow> u32) \<Rightarrow> u32 \<times> (u32 \<Rightarrow> u32)" where
  "ioapic_run base [] d = d"
| "ioapic_run base (MmioWrite a v # es) d =
     ioapic_run base es (if a = base then (v, snd d) else if a = base + 0x10 then (fst d, (snd d)(fst d := v)) else d)"
| "ioapic_run base (e # es) d = ioapic_run base es d"

definition route_low :: "u16 \<Rightarrow> u8 \<Rightarrow> u32" where
  "route_low iso_flags vector =
     ucast vector OR (if iso_flags AND 0x3 = 0x3 then push_bit 13 1 else 0) OR (if iso_flags AND 0xc = 0xc then push_bit 15 1 else 0)"

lemma route_low_fields:
  "take_bit 8 (route_low f v) = ucast v" "bit (route_low f v) 13 \<longleftrightarrow> f AND 0x3 = 0x3" "bit (route_low f v) 15 \<longleftrightarrow> f AND 0xc = 0xc"
  "\<not> bit (route_low f v) 16"
proof -
  have one: "bit (push_bit k 1 :: u32) n \<longleftrightarrow> n = k" if "k < 32" for k n
    using that by (simp only: bit_push_bit_iff bit_1_iff) auto
  have opt: "bit (if P then push_bit k 1 else 0 :: u32) n \<longleftrightarrow> P \<and> n = k" if "k < 32" for P k n
    using one[OF that] by (cases P) simp_all
  have b: "bit (route_low f v) n \<longleftrightarrow> bit v n \<or> (n = 13 \<and> f AND 0x3 = 0x3) \<or> (n = 15 \<and> f AND 0xc = 0xc)" if "n < 32" for n
    using that opt[of 13] opt[of 15] unfolding route_low_def bit_or_iff by (auto simp: bit_ucast_iff)
  have v: "\<not> bit v n" if "8 \<le> n" for n using that bit_imp_le_length[of v n] by auto
  show "bit (route_low f v) 13 \<longleftrightarrow> f AND 0x3 = 0x3" "bit (route_low f v) 15 \<longleftrightarrow> f AND 0xc = 0xc" "\<not> bit (route_low f v) 16"
    using b v by simp_all
  show "take_bit 8 (route_low f v) = ucast v"
    by (rule bit_word_eqI) (auto simp: bit_take_bit_iff b bit_ucast_iff dest: bit_imp_le_length)
qed


lemma route_events:
  "ioapic_route base gb gsi f v l s =
     s\<lparr>events := events s @ [MmioWrite base (ucast (ucast (0x10 + (gsi - gb) * 2 + 1) :: u8)), MmioWrite (base + 0x10) (push_bit 24 (ucast l)),
        MmioWrite base (ucast (ucast (0x10 + (gsi - gb) * 2) :: u8)), MmioWrite (base + 0x10) (route_low f v)]\<rparr>"
  by (simp add: ioapic_route_def write_ioapic_def mmio_write_def emit_def route_low_def Let_def or.assoc)

lemma redirection_registers:
  assumes "unat (i :: u32) < 120"
  shows "unat (0x10 + i * 2) = 16 + unat i * 2" "unat (0x11 + i * 2) = 17 + unat i * 2" "0x10 + i * 2 \<noteq> 0x11 + i * 2"
    "ucast (ucast (0x10 + i * 2) :: u8) = 0x10 + i * 2" "ucast (ucast (0x10 + i * 2 + 1) :: u8) = 0x11 + i * 2"
proof -
  let ?lo = "0x10 + i * 2" and ?hi = "0x11 + i * 2"
  show u: "unat ?lo = 16 + unat i * 2" "unat ?hi = 17 + unat i * 2" using assms by (simp_all add: unat_word_ariths)
  have narrow: "ucast (ucast x :: u8) = x" if "unat x < 256" for x :: u32
    using that by (simp add: word_unat_eq_iff unsigned_ucast_eq unsigned_take_bit_eq take_bit_nat_eq_self)
  show "ucast (ucast ?lo :: u8) = ?lo" "ucast (ucast (?lo + 1) :: u8) = ?hi"
    using narrow[of ?lo] narrow[of ?hi] u assms by (simp_all add: add.commute add.left_commute)
  show "?lo \<noteq> ?hi"
  proof
    assume "?lo = ?hi"
    then have "unat ?lo = unat ?hi" by (rule arg_cong)
    then show False unfolding u by simp
  qed
qed

text \<open>The events of a route, and what they do to the chip.\<close>

definition route_writes :: "u64 \<Rightarrow> u32 \<Rightarrow> u16 \<Rightarrow> u8 \<Rightarrow> u8 \<Rightarrow> hwev list" where
  "route_writes base i f v l = [MmioWrite base (0x11 + i * 2), MmioWrite (base + 0x10) (push_bit 24 (ucast l)),
     MmioWrite base (0x10 + i * 2), MmioWrite (base + 0x10) (route_low f v)]"

lemma route_run:
  assumes "unat (gsi - gb) < 120"
  shows "events (ioapic_route base gb gsi f v l s) = events s @ route_writes base (gsi - gb) f v l"
    "ioapic_run base (route_writes base i f v l) d =
      (0x10 + i * 2, (snd d)(0x11 + i * 2 := push_bit 24 (ucast l), 0x10 + i * 2 := route_low f v))"
  using redirection_registers(4,5)[OF assms] by (simp_all add: route_events route_writes_def)

lemma drop_push_24: "drop_bit 24 (push_bit 24 (ucast (l :: u8) :: u32)) = ucast l"
  by (rule bit_word_eqI) (auto simp: bit_drop_bit_eq bit_push_bit_iff bit_ucast_iff dest: bit_imp_le_length)

text \<open>
  Routing an interrupt programs its redirection entry and no other register of the I/O
  APIC: the vector, the polarity and trigger mode that the source override asks for, not
  masked, and the local APIC as the destination, for every interrupt the chip has room for.
\<close>

theorem ioapic_route_entry:
  assumes "unat (gsi - gb) < 120"
  shows "\<exists>s' sel regs'. ioapic_route base gb gsi f v l s = s' \<and>
    ioapic_run base (new_events s s') (sel0, regs) = (sel, regs') \<and>
    (let lo = regs' (0x10 + (gsi - gb) * 2); hi = regs' (0x11 + (gsi - gb) * 2)
     in take_bit 8 lo = ucast v \<and> (bit lo 13 \<longleftrightarrow> f AND 3 = 3) \<and> (bit lo 15 \<longleftrightarrow> f AND 0xc = 0xc) \<and> \<not> bit lo 16 \<and>
        drop_bit 24 hi = ucast l) \<and>
    (\<forall>x. x \<noteq> 0x10 + (gsi - gb) * 2 \<longrightarrow> x \<noteq> 0x11 + (gsi - gb) * 2 \<longrightarrow> regs' x = regs x)"
proof -
  have "new_events s (ioapic_route base gb gsi f v l s) = route_writes base (gsi - gb) f v l"
    by (simp add: new_events_def route_run(1)[OF assms])
  then show ?thesis using route_run(2)[OF assms, of base "gsi - gb" f v l "(sel0, regs)"] redirection_registers(3)[OF assms]
    route_low_fields[of f v] drop_push_24[of l] by (auto simp: Let_def)
qed

theorem ioapic_route_entry_witness:
  "\<exists>s' sel regs'. ioapic_route 0xfec00000 0 1 0 0x21 0 hw_example = s' \<and>
    ioapic_run 0xfec00000 (new_events hw_example s') (0, \<lambda>_. 0) = (sel, regs') \<and> take_bit 8 (regs' 0x12) = 0x21"
  using ioapic_route_entry[of 1 0 "0xfec00000" 0 "0x21" 0 hw_example 0 "\<lambda>_. 0"] by (auto simp: Let_def)

end
