(* ===== verification/Nya_Acpi.thy ===== *)
theory Nya_Acpi
  imports Nya_Apic
begin

unbundle bit_operations_syntax

section \<open>The interrupt table of ACPI\<close>

text \<open>
  The MADT as the firmware writes it, a sequence of records, and what \<open>ioapic_init\<close> makes of
  it: the walk over the bytes finds the I/O APIC and the source overrides that the records
  describe.
\<close>

subsection \<open>Records and their bytes\<close>

datatype madt_entry =
    IoApic (entry_id: u8) (entry_reserved: u8) (entry_addr: u32) (entry_base: u32)
  | Override (entry_bus: u8) (entry_src: u8) (entry_gsi: u32) (entry_flags: u16)
  | OtherRecord (entry_type: u8) (entry_data: "u8 list")

definition num_bytes :: "nat \<Rightarrow> 'a::len word \<Rightarrow> u8 list" where
  "num_bytes n w = map (\<lambda>k. ucast (drop_bit (8 * k) w)) [0..<n]"

fun record_bytes :: "madt_entry \<Rightarrow> u8 list" where
  "record_bytes (IoApic i r a g) = [1, 12, i, r] @ num_bytes 4 a @ num_bytes 4 g"
| "record_bytes (Override b s g f) = [2, 10, b, s] @ num_bytes 4 g @ num_bytes 2 f"
| "record_bytes (OtherRecord t bs) = [t, of_nat (length bs + 2)] @ bs"

fun entry_wf :: "madt_entry \<Rightarrow> bool" where
  "entry_wf (OtherRecord t bs) \<longleftrightarrow> t \<noteq> 1 \<and> t \<noteq> 2 \<and> length bs + 2 < 256"
| "entry_wf e \<longleftrightarrow> True"

definition holds :: "mem \<Rightarrow> u64 \<Rightarrow> u8 list \<Rightarrow> bool" where
  "holds m p bs \<longleftrightarrow> (\<forall>i<length bs. m (p + of_nat i) = bs ! i)"

lemma holds_Cons: "holds m p (b # bs) \<longleftrightarrow> m p = b \<and> holds m (p + 1) bs"
  by (auto simp: holds_def nth_Cons less_Suc_eq_0_disj add.assoc split: nat.splits)

lemma holds_Nil [simp]: "holds m p []"
  by (simp add: holds_def)

lemma holds_append: "holds m p (xs @ ys) \<longleftrightarrow> holds m p xs \<and> holds m (p + of_nat (length xs)) ys"
  by (induction xs arbitrary: p) (auto simp: holds_Cons add.assoc)

lemma length_num_bytes [simp]: "length (num_bytes n w) = n"
  by (simp add: num_bytes_def)

text \<open>A little-endian load of a number gives the number.\<close>

lemma rd_num_bytes:
  assumes "8 * n = LENGTH('a)" "holds m a (num_bytes n (w :: 'a::len word))"
  shows "rd n m a = w"
proof (rule bit_word_eqI)
  fix k
  assume k: "k < LENGTH('a)"
  then have d: "k div 8 < n" using assms(1) by (simp add: less_mult_imp_div_less mult.commute)
  then have "m (a + of_nat (k div 8)) = ucast (drop_bit (8 * (k div 8)) w)" using assms(2) by (simp add: holds_def num_bytes_def)
  then show "bit (rd n m a :: 'a word) k = bit w k" using k assms(1) by (simp add: bit_rd bit_ucast_iff bit_drop_bit_eq)
qed

subsection \<open>The walk\<close>

text \<open>What a record means.\<close>

fun apply_entry :: "madt_entry \<Rightarrow> madt_scan \<Rightarrow> madt_scan" where
  "apply_entry (IoApic i v a g) r = r\<lparr>ioapic_phys := ucast a, gsi_base := ucast g\<rparr>"
| "apply_entry (Override b s g f) r =
     (if s < 16 then r\<lparr>irq_gsi := (irq_gsi r)[unat s := g], irq_flags := (irq_flags r)[unat s := f]\<rparr> else r)"
| "apply_entry (OtherRecord t bs) r = r"

lemma unat_ucast_byte: "unat (ucast (w :: u8) :: u64) = unat w"
  by (simp add: unsigned_ucast_eq take_bit_nat_eq_self unsigned_less order_less_trans[OF unsigned_less])

lemma madt_record_applies:
  assumes "holds m p (record_bytes e)" "entry_wf e"
  shows "madt_record p m r = apply_entry e r" "unat (rec_length (MADT_record_at m p)) = length (record_bytes e)"
proof -
  show "madt_record p m r = apply_entry e r"
  proof (cases e)
    case (IoApic i v a g)
    then have h: "m p = 1" "holds m (p + 4) (num_bytes 4 a)" "holds m (p + 8) (num_bytes 4 g)"
      using assms(1) by (simp_all add: holds_Cons holds_append add.assoc)
    then show ?thesis using rd_num_bytes[OF _ h(2)] rd_num_bytes[OF _ h(3)] IoApic
      by (simp add: madt_record_def MADT_record_at_def madt_ioapic_at_def)
  next
    case (Override b s g f)
    then have h: "m p = 2" "m (p + 3) = s" "holds m (p + 4) (num_bytes 4 g)" "holds m (p + 8) (num_bytes 2 f)"
      using assms(1) by (simp_all add: holds_Cons holds_append add.assoc)
    then show ?thesis using rd_num_bytes[OF _ h(3)] rd_num_bytes[OF _ h(4)] Override
      by (simp add: madt_record_def MADT_record_at_def madt_iso_at_def Let_def)
  next
    case (OtherRecord t bs)
    then show ?thesis using assms by (simp add: madt_record_def MADT_record_at_def holds_Cons)
  qed
  show "unat (rec_length (MADT_record_at m p)) = length (record_bytes e)"
    using assms by (cases e) (auto simp: MADT_record_at_def holds_Cons unat_word_ariths unat_of_nat)
qed

lemma madt_loop_decodes:
  assumes "\<forall>e\<in>set es. entry_wf e" "holds m p (concat (map record_bytes es))" "unat p + length (concat (map record_bytes es)) < 2 ^ 64"
  shows "madt_loop p (p + of_nat (length (concat (map record_bytes es)))) m r = Some (fold apply_entry es r)"
  using assms
proof (induction es arbitrary: p r)
  case Nil
  then show ?case by (subst madt_loop.simps) simp
next
  case (Cons e es)
  let ?n = "length (record_bytes e)" and ?k = "length (concat (map record_bytes es))"
  have h: "holds m p (record_bytes e)" "holds m (p + of_nat ?n) (concat (map record_bytes es))" "entry_wf e"
    using Cons.prems(1,2) by (simp_all add: holds_append)
  note e = madt_record_applies[OF h(1,3)]
  have pos: "0 < ?n" by (cases e) simp_all
  have lt: "unat p + ?n + ?k < 2 ^ 64" using Cons.prems(3) by simp
  have n: "unat (of_nat ?n :: u64) = ?n" "unat (of_nat (?n + ?k) :: u64) = ?n + ?k" using lt by (simp_all add: unat_of_nat del: of_nat_add)
  have q: "unat (p + of_nat ?n) = unat p + ?n" "unat (p + of_nat (?n + ?k)) = unat p + (?n + ?k)"
    using lt n by (simp_all add: unat_word_ariths del: of_nat_add)
  have step: "ucast (rec_length (MADT_record_at m p)) = (of_nat ?n :: u64)"
    using e(2) n(1) by (simp add: word_unat_eq_iff unat_ucast_byte)
  have nz: "rec_length (MADT_record_at m p) \<noteq> 0" using e(2) pos by auto
  have less: "p < p + of_nat (?n + ?k)" using q(2) pos by (simp add: word_less_nat_alt)
  have "madt_loop p (p + of_nat (?n + ?k)) m r = madt_loop (p + of_nat ?n) (p + of_nat (?n + ?k)) m (apply_entry e r)"
    by (subst madt_loop.simps) (use less nz e(1) step in \<open>simp add: Let_def del: of_nat_add\<close>)
  also have "\<dots> = Some (fold apply_entry es (apply_entry e r))"
    using Cons.IH[OF _ h(2), of "apply_entry e r"] Cons.prems(1) q(1) lt by (simp add: add.assoc)
  finally show ?case by simp
qed

subsection \<open>What the table says\<close>

text \<open>The last record that speaks of an interrupt of the ISA bus, and the last I/O APIC.\<close>

fun overrides :: "nat \<Rightarrow> madt_entry \<Rightarrow> bool" where
  "overrides i (Override b s g f) \<longleftrightarrow> unat s = i"
| "overrides i e \<longleftrightarrow> False"

fun is_ioapic :: "madt_entry \<Rightarrow> bool" where
  "is_ioapic (IoApic i v a g) \<longleftrightarrow> True"
| "is_ioapic e \<longleftrightarrow> False"

definition gsi_of :: "madt_entry list \<Rightarrow> nat \<Rightarrow> u32" where
  "gsi_of es i = (case find (overrides i) (rev es) of None \<Rightarrow> of_nat i | Some e \<Rightarrow> entry_gsi e)"

definition flags_of :: "madt_entry list \<Rightarrow> nat \<Rightarrow> u16" where
  "flags_of es i = (case find (overrides i) (rev es) of None \<Rightarrow> 0 | Some e \<Rightarrow> entry_flags e)"

definition ioapic_of :: "madt_entry list \<Rightarrow> madt_entry option" where
  "ioapic_of es = find is_ioapic (rev es)"

definition scan_means :: "madt_entry list \<Rightarrow> madt_scan \<Rightarrow> bool" where
  "scan_means es r \<longleftrightarrow> length (irq_gsi r) = 16 \<and> length (irq_flags r) = 16 \<and>
     (\<forall>i<16. irq_gsi r ! i = gsi_of es i \<and> irq_flags r ! i = flags_of es i) \<and>
     (case ioapic_of es of None \<Rightarrow> ioapic_phys r = 0
      | Some e \<Rightarrow> ioapic_phys r = ucast (entry_addr e) \<and> gsi_base r = ucast (entry_base e))"

lemma scan_means_start: "scan_means [] madt_start"
  by (simp add: scan_means_def madt_start_def gsi_of_def flags_of_def ioapic_of_def del: upt_rec_numeral)

lemma scan_means_step: "scan_means es r \<Longrightarrow> scan_means (es @ [e]) (apply_entry e r)"
proof (cases e)
  case (Override b s g f)
  assume "scan_means es r"
  then show ?thesis unfolding Override
    by (auto simp: scan_means_def gsi_of_def flags_of_def ioapic_of_def nth_list_update word_less_nat_alt split: option.splits)
qed (auto simp: scan_means_def gsi_of_def flags_of_def ioapic_of_def split: option.splits)

lemma scan_means_fold: "scan_means es r \<Longrightarrow> scan_means (es @ fs) (fold apply_entry fs r)"
proof (induction fs arbitrary: es r)
  case (Cons f fs)
  then show ?case using Cons.IH[OF scan_means_step[OF Cons.prems, of f]] by simp
qed simp

lemma madt_walk:
  assumes "\<forall>e\<in>set es. entry_wf e" "holds m p (concat (map record_bytes es))" "unat p + length (concat (map record_bytes es)) < 2 ^ 64"
  shows "\<exists>r. madt_loop p (p + of_nat (length (concat (map record_bytes es)))) m madt_start = Some r \<and> scan_means es r"
  using madt_loop_decodes[OF assms, of madt_start] scan_means_fold[OF scan_means_start, of es] by auto

subsection \<open>Routing\<close>

lemma ioapic_run_append: "ioapic_run base (xs @ ys) d = ioapic_run base ys (ioapic_run base xs d)"
  by (induction base xs d rule: ioapic_run.induct) simp_all

text \<open>The redirection entry of an interrupt: its vector, polarity, trigger mode and destination, and that it is not masked.\<close>

definition routed :: "(u32 \<Rightarrow> u32) \<Rightarrow> u32 \<Rightarrow> u16 \<Rightarrow> u8 \<Rightarrow> u8 \<Rightarrow> bool" where
  "routed regs i f v l \<longleftrightarrow>
     (let lo = regs (0x10 + i * 2); hi = regs (0x11 + i * 2)
      in take_bit 8 lo = ucast v \<and> (bit lo 13 \<longleftrightarrow> f AND 3 = 3) \<and> (bit lo 15 \<longleftrightarrow> f AND 0xc = 0xc) \<and> \<not> bit lo 16 \<and>
         drop_bit 24 hi = ucast l)"

lemma routed_writes:
  assumes "unat i < 120"
  shows "routed (snd (ioapic_run base (route_writes base i f v l) d)) i f v l"
    "unat j < 120 \<Longrightarrow> i \<noteq> j \<Longrightarrow> routed (snd (ioapic_run base (route_writes base i f v l) d)) j f' v' l' = routed (snd d) j f' v' l'"
proof -
  have z: "unat (i - 0) < 120" using assms by simp
  note run = route_run(2)[OF z, of base i f v l d] and r = redirection_registers[OF assms]
  show "routed (snd (ioapic_run base (route_writes base i f v l) d)) i f v l"
    using run r(3) route_low_fields[of f v] drop_push_24[of l] by (simp add: routed_def Let_def)
  show "routed (snd (ioapic_run base (route_writes base i f v l) d)) j f' v' l' = routed (snd d) j f' v' l'" if j: "unat j < 120" "i \<noteq> j"
  proof -
    note q = redirection_registers[OF j(1)]
    have u: "unat i \<noteq> unat j" using j(2) by (simp add: word_unat_eq_iff)
    have ne: "a \<noteq> b" if "unat a \<noteq> unat b" for a b :: u32 using that by auto
    have "0x10 + j * 2 \<noteq> 0x10 + i * 2" "0x11 + j * 2 \<noteq> 0x11 + i * 2" "0x10 + j * 2 \<noteq> 0x11 + i * 2" "0x11 + j * 2 \<noteq> 0x10 + i * 2"
      using u by (intro ne, unfold r(1,2) q(1,2), presburger)+
    then show ?thesis using run by (simp add: routed_def Let_def)
  qed
qed

lemma ucast_up_down: "(ucast (ucast (x :: u32) :: u64) :: u32) = x"
  by (rule bit_word_eqI) (simp add: bit_ucast_iff)

text \<open>
  C30. From the table of the firmware to the chip: when the MADT that \<open>find_table\<close> returns
  holds a sequence of well-formed records with an I/O APIC, \<open>ioapic_init\<close> maps its registers
  and programs the redirection entries of the keyboard and of both serial ports with the
  vectors of their handlers, each at the global interrupt and with the polarity and trigger
  mode of the last source override in the table, directed to the running processor.
\<close>

theorem ioapic_init_routes:
  assumes "find_table rsdp offset sig m s0 = (madt, s)" "madt \<noteq> 0"
    and "\<forall>e\<in>set es. entry_wf e" "holds m (madt + 44) (concat (map record_bytes es))"
    and "unat madt + 44 + length (concat (map record_bytes es)) < 2 ^ 64"
    and "unat (hdr_length (madt_hdr (MADT_at m madt))) = 44 + length (concat (map record_bytes es))"
    and "ioapic_of es = Some io" "entry_addr io \<noteq> 0" "base = ucast (entry_addr io) + offset"
    and "map_page (ucast (entry_addr io)) base 0x18 (apager a) = Inr pg"
    and "\<forall>irq\<in>{1, 3, 4}. unat (gsi_of es irq - entry_base io) < 120" "distinct (map (gsi_of es) [1, 3, 4])"
  shows "\<exists>s'. ioapic_init rsdp offset sig m a s0 = Some (Inr (a\<lparr>apager := pg\<rparr>, s')) \<and>
    (let regs' = snd (ioapic_run base (new_events s s') (sel, regs)); l = ucast (drop_bit 24 (fst (read_reg 0x20 a s)))
     in \<forall>(irq, v)\<in>{(1, 0x21), (3, 0x22), (4, 0x23)}. routed regs' (gsi_of es irq - entry_base io) (flags_of es irq) v l)"
proof -
  let ?n = "length (concat (map record_bytes es))" and ?i = "\<lambda>irq. gsi_of es irq - entry_base io"
  obtain lid s1 where rr: "read_reg 0x20 a s = (lid, s1)" by fastforce
  let ?l = "ucast (drop_bit 24 lid) :: u8"
  have p: "unat (madt + 44) = unat madt + 44" using assms(5) by (simp add: unat_word_ariths)
  have len: "unat (ucast (hdr_length (madt_hdr (MADT_at m madt))) :: u64) = unat (of_nat (44 + ?n) :: u64)"
    using assms(5,6) by (simp add: unat_ucast_up unat_of_nat del: of_nat_add)
  then have "madt + ucast (hdr_length (madt_hdr (MADT_at m madt))) = madt + 44 + of_nat ?n" by (simp add: word_unat_eq_iff[symmetric])
  then obtain r where r: "madt_loop (madt + 44) (madt + ucast (hdr_length (madt_hdr (MADT_at m madt)))) m madt_start = Some r" "scan_means es r"
    using madt_walk[OF assms(3,4)] p assms(5) by auto
  have found: "ioapic_phys r = ucast (entry_addr io)" "ucast (gsi_base r) = entry_base io"
    using r(2) assms(7) by (simp_all add: scan_means_def ucast_up_down)
  have sc: "irq_gsi r ! irq = gsi_of es irq" "irq_flags r ! irq = flags_of es irq" if "irq < 16" for irq
    using r(2) assms(7) that by (simp_all add: scan_means_def ucast_up_down)
  have nz: "ioapic_phys r \<noteq> 0" using found(1) assms(8) unat_ucast_up[of "entry_addr io"] by (auto simp: word_unat_eq_iff)
  have rr': "read_reg 0x20 (a\<lparr>apager := pg\<rparr>) s = (lid, s1)" using rr by (simp add: read_reg_def)
  let ?route = "\<lambda>irq v. ioapic_route base (entry_base io) (gsi_of es irq) (flags_of es irq) v ?l"
  let ?s = "?route 4 0x23 (?route 3 0x22 (?route 1 0x21 s1))"
  have run: "ioapic_init rsdp offset sig m a s0 = Some (Inr (a\<lparr>apager := pg\<rparr>, ?s))"
    using assms(1,2,9,10) r(1) nz found sc rr' by (simp add: ioapic_init_def Let_def)
  have i: "unat (?i 1) < 120" "unat (?i 3) < 120" "unat (?i 4) < 120" using assms(11) by simp_all
  have ne: "?i 1 \<noteq> ?i 3" "?i 1 \<noteq> ?i 4" "?i 3 \<noteq> ?i 4" using assms(12) by simp_all
  let ?w = "\<lambda>irq v. route_writes base (?i irq) (flags_of es irq) v ?l"
  have "events s1 = events s @ [MmioRead (apic_offset a + 0x20) lid]" using rr by (auto simp: read_reg_def mmio_read_def emit_def Let_def)
  then have ev: "new_events s ?s = [MmioRead (apic_offset a + 0x20) lid] @ ?w 1 0x21 @ ?w 3 0x22 @ ?w 4 0x23"
    using i by (simp add: new_events_def route_run(1))
  let ?d0 = "(sel, regs)"
  let ?d1 = "ioapic_run base (?w 1 0x21) ?d0"
  let ?d2 = "ioapic_run base (?w 3 0x22) ?d1"
  have d: "ioapic_run base (new_events s ?s) ?d0 = ioapic_run base (?w 4 0x23) ?d2" unfolding ev ioapic_run_append by simp
  have r4: "routed (snd (ioapic_run base (?w 4 0x23) ?d2)) (?i 4) (flags_of es 4) 0x23 ?l" by (rule routed_writes(1)[OF i(3)])
  have r3: "routed (snd (ioapic_run base (?w 4 0x23) ?d2)) (?i 3) (flags_of es 3) 0x22 ?l"
    unfolding routed_writes(2)[OF i(3,2) ne(3)[symmetric]] by (rule routed_writes(1)[OF i(2)])
  have r1: "routed (snd (ioapic_run base (?w 4 0x23) ?d2)) (?i 1) (flags_of es 1) 0x21 ?l"
    unfolding routed_writes(2)[OF i(3,1) ne(2)[symmetric]] routed_writes(2)[OF i(2,1) ne(1)[symmetric]] by (rule routed_writes(1)[OF i(1)])
  have "\<forall>(irq, v)\<in>{(1, 0x21), (3, 0x22), (4, 0x23)}. routed (snd (ioapic_run base (new_events s ?s) ?d0)) (?i irq) (flags_of es irq) v ?l"
    unfolding d using r1 r3 r4 by blast
  then show ?thesis using run rr by (intro exI[of _ ?s]) (simp add: Let_def)
qed

text \<open>A machine with one I/O APIC, whose firmware moves the interrupt 4 to 5.\<close>

definition acpi_entries :: "madt_entry list" where
  "acpi_entries = [IoApic 0 0 0xfec00000 0, OtherRecord 0 [1, 2], Override 0 4 5 0xf]"

definition place :: "u64 \<Rightarrow> u8 list \<Rightarrow> mem \<Rightarrow> mem" where
  "place p bs m = (\<lambda>x. if unat (x - p) < length bs then bs ! unat (x - p) else m x)"

definition acpi_mem :: mem where
  "acpi_mem = place 0x100f [2] (place 0x1018 (num_bytes 8 (0x2000 :: u64)) (place 0x2004 (num_bytes 4 (44 :: u32))
     (place 0x2024 (num_bytes 8 (0x3000 :: u64)) (place 0x3000 [65, 80, 73, 67] (place 0x3004 (num_bytes 4 (70 :: u32))
     (place 0x302c (concat (map record_bytes acpi_entries)) (place 0x4000 [65, 80, 73, 67, 0] (\<lambda>_. 0))))))))"

definition apic_example :: apic where
  "apic_example = \<lparr>apic_offset = 0xfee00000, apager = \<lparr>pg_mem = (\<lambda>_. 1), pml4 = 0, hhdm = 0, cr3 = 0, frames = pfa_example\<rparr>\<rparr>"

lemma holds_place:
  assumes "length cs < 2 ^ 64"
  shows "holds (place q cs m) q cs" "apart p (length bs) q (length cs) \<Longrightarrow> holds m p bs \<Longrightarrow> holds (place q cs m) p bs"
proof -
  show "holds (place q cs m) q cs" using assms by (simp add: holds_def place_def unat_of_nat)
  have "\<not> unat (p + of_nat i - q) < length cs" if "apart p (length bs) q (length cs)" "i < length bs" for i
    using apart_offset[OF that] assms by (simp add: word_less_nat_alt unat_of_nat)
  then show "holds (place q cs m) p bs" if "apart p (length bs) q (length cs)" "holds m p bs"
    using that by (simp add: holds_def place_def)
qed

lemma acpi_bytes_length: "length (concat (map record_bytes acpi_entries)) = 26"
  by (simp add: acpi_entries_def)

lemma acpi_holds:
  "holds acpi_mem 0x100f [2]" "holds acpi_mem 0x1018 (num_bytes 8 (0x2000 :: u64))" "holds acpi_mem 0x2004 (num_bytes 4 (44 :: u32))"
  "holds acpi_mem 0x2024 (num_bytes 8 (0x3000 :: u64))" "holds acpi_mem 0x3000 [65, 80, 73, 67]"
  "holds acpi_mem 0x3004 (num_bytes 4 (70 :: u32))" "holds acpi_mem 0x302c (concat (map record_bytes acpi_entries))"
  "holds acpi_mem 0x4000 [65, 80, 73, 67, 0]"
  unfolding acpi_mem_def by (intro holds_place; simp add: apart_def acpi_bytes_length)+

lemma acpi_loads:
  "acpi_mem 0x100f = 2" "rd64 acpi_mem 0x1018 = 0x2000" "rd32 acpi_mem 0x2004 = 44" "rd64 acpi_mem 0x2024 = 0x3000"
  "rd32 acpi_mem 0x3004 = 70"
  using acpi_holds(1) by (simp_all add: holds_Cons rd_num_bytes[OF _ acpi_holds(2)] rd_num_bytes[OF _ acpi_holds(3)]
    rd_num_bytes[OF _ acpi_holds(4)] rd_num_bytes[OF _ acpi_holds(6)])

lemma acpi_found: "find_table 0x1000 0 0x4000 acpi_mem hw_example = (0x3000, hw_example)"
proof -
  have n: "table_entries 44 8 = 1" by code_simp
  have four: "4 = Suc (Suc (Suc (Suc 0)))" by simp
  have "strncmp_n (Suc (Suc (Suc (Suc 0)))) 0x3000 0x4000 acpi_mem = 0" using acpi_holds(5,8) by (simp add: holds_Cons)
  then have "strncmp_n 4 0x3000 0x4000 acpi_mem = 0" unfolding four .
  then have c: "strncmp 0x3000 0x4000 4 acpi_mem = 0" by (simp add: strncmp_def)
  show ?thesis using n c acpi_loads
    by (simp add: find_table_def XSDP_at_def XSDT_header_at_def xsdt_entry_def Let_def)
qed

theorem ioapic_init_routes_witness:
  "\<exists>a' s'. ioapic_init 0x1000 0 0x4000 acpi_mem apic_example hw_example = Some (Inr (a', s')) \<and>
     (\<forall>(irq, v)\<in>{(1, 0x21), (3, 0x22), (4, 0x23)}.
        routed (snd (ioapic_run 0xfec00000 (new_events hw_example s') (0, \<lambda>_. 0))) (gsi_of acpi_entries irq) (flags_of acpi_entries irq) v
          (ucast (drop_bit 24 (fst (read_reg 0x20 apic_example hw_example))))) \<and>
     gsi_of acpi_entries 4 = 5"
proof -
  have g: "gsi_of acpi_entries 1 = 1" "gsi_of acpi_entries 3 = 3" "gsi_of acpi_entries 4 = 5" by code_simp+
  have io: "ioapic_of acpi_entries = Some (IoApic 0 0 0xfec00000 0)" by code_simp
  obtain pg where pg: "map_page 0xfec00000 0xfec00000 0x18 (apager apic_example) = Inr pg"
    by (auto simp: map_page_def next_table_def pg_get_def apic_example_def bindR_def Let_def)
  have wf: "\<forall>e\<in>set acpi_entries. entry_wf e" by (simp add: acpi_entries_def)
  have h: "holds acpi_mem (0x3000 + 44) (concat (map record_bytes acpi_entries))" using acpi_holds(7) by simp
  have n: "unat (0x3000 :: u64) + 44 + length (concat (map record_bytes acpi_entries)) < 2 ^ 64"
    "unat (hdr_length (madt_hdr (MADT_at acpi_mem 0x3000))) = 44 + length (concat (map record_bytes acpi_entries))"
    by (simp_all add: acpi_bytes_length MADT_at_def XSDT_header_at_def acpi_loads)
  have b: "(0xfec00000 :: u64) = ucast (entry_addr (IoApic 0 0 0xfec00000 0)) + 0" by simp
  have p: "map_page (ucast (entry_addr (IoApic 0 0 0xfec00000 0))) 0xfec00000 0x18 (apager apic_example) = Inr pg" using pg by simp
  have i: "\<forall>irq\<in>{1, 3, 4}. unat (gsi_of acpi_entries irq - entry_base (IoApic 0 0 0xfec00000 0)) < 120" using g by simp
  have ds: "distinct (map (gsi_of acpi_entries) [1, 3, 4])" using g by simp
  have nz: "(0x3000 :: u64) \<noteq> 0" "entry_addr (IoApic 0 0 0xfec00000 0) \<noteq> 0" by simp_all
  have z: "gsi - entry_base (IoApic 0 0 0xfec00000 0) = gsi" for gsi by simp
  from ioapic_init_routes[OF acpi_found nz(1) wf h n io nz(2) b p i ds, of 0 "\<lambda>_. 0"] show ?thesis
    unfolding z Let_def using g(3) by blast
qed

end
