(* ===== verification/Nya_Descriptors.thy ===== *)
theory Nya_Descriptors
  imports Nya_Pic
begin

unbundle bit_operations_syntax

section \<open>Segment and interrupt descriptors\<close>

text \<open>
  \<open>gdt.c\<close> and \<open>idt.c\<close> of \<open>kernel/arch/x86_64\<close>, with the structures of \<open>kernel/system.h\<close>.
  The addresses the linker chooses for the tables are parameters. Besides the code there is
  the reading of a descriptor that the processor manual gives: the base, limit and entry
  point that the fields of an entry stand for.
\<close>

subsection \<open>Structures\<close>

record gdt_entry =
  limit_lo :: u16
  base_lo :: u16
  base_mid :: u8
  access_byte :: u8
  gflags :: u8
  base_hi :: u8

definition gdt_entry0 :: gdt_entry where
  "gdt_entry0 = \<lparr>limit_lo = 0, base_lo = 0, base_mid = 0, access_byte = 0, gflags = 0, base_hi = 0\<rparr>"

record tss_entry =
  tss_reserved :: u32
  rsp0 :: u64
  rsp1 :: u64
  rsp2 :: u64
  reserved1 :: u64
  ist1 :: u64
  ist2 :: u64
  ist3 :: u64
  ist4 :: u64
  ist5 :: u64
  ist6 :: u64
  ist7 :: u64
  reserved2 :: u64
  reserved3 :: u8
  iopb :: u8

definition tss0 :: tss_entry where
  "tss0 = \<lparr>tss_reserved = 0, rsp0 = 0, rsp1 = 0, rsp2 = 0, reserved1 = 0, ist1 = 0, ist2 = 0, ist3 = 0, ist4 = 0,
     ist5 = 0, ist6 = 0, ist7 = 0, reserved2 = 0, reserved3 = 0, iopb = 0\<rparr>"

text \<open>
  The structure is not packed: four bytes of padding follow the first field and six the last
  one, so its size is 112 bytes.
\<close>

definition sizeof_tss :: u32 where
  "sizeof_tss = 112"

record gdt_state =
  gdt :: "gdt_entry list"
  gp_limit :: u16
  gp_base :: u64
  tss :: tss_entry

definition gdt_boot :: "tss_entry \<Rightarrow> gdt_state" where
  "gdt_boot t = \<lparr>gdt = replicate 9 gdt_entry0, gp_limit = 0, gp_base = 0, tss = t\<rparr>"

subsection \<open>The global descriptor table\<close>

definition upd_gdt :: "nat \<Rightarrow> (gdt_entry \<Rightarrow> gdt_entry) \<Rightarrow> gdt_state \<Rightarrow> gdt_state res" where
  "upd_gdt i f g = (if i < length (gdt g) then Inr (g\<lparr>gdt := (gdt g)[i := f (gdt g ! i)]\<rparr>) else Inl OutOfBounds)"

definition encodeGDTEntry :: "nat \<Rightarrow> u64 \<Rightarrow> u32 \<Rightarrow> u8 \<Rightarrow> u8 \<Rightarrow> gdt_state \<Rightarrow> gdt_state res" where
  "encodeGDTEntry i base limit access flags g =
     upd_gdt i (\<lambda>e. e\<lparr>base_lo := ucast (base AND 0xffff),
                      base_mid := ucast (drop_bit 16 base AND 0xff),
                      base_hi := ucast (drop_bit 24 base AND 0xff),
                      limit_lo := ucast (limit AND 0xffff),
                      access_byte := access,
                      gflags := ucast (drop_bit 16 limit AND 0x0f) OR push_bit 4 flags\<rparr>) g"

definition write_tss :: "u64 \<Rightarrow> nat \<Rightarrow> gdt_state \<Rightarrow> gdt_state res" where
  "write_tss tss_addr idx g =
     bindR (encodeGDTEntry idx tss_addr (sizeof_tss - 1) 0x89 0 g) (\<lambda>g.
     bindR (upd_gdt (idx + 1) (\<lambda>e. e\<lparr>base_lo := ucast (drop_bit 32 tss_addr AND 0xffff),
                                     limit_lo := ucast (drop_bit 48 tss_addr AND 0xffff)\<rparr>) g) (\<lambda>g.
       Inr (g\<lparr>tss := tss0\<rparr>)))"

definition gdt_init :: "u64 \<Rightarrow> u64 \<Rightarrow> gdt_state \<Rightarrow> hw \<Rightarrow> (gdt_state \<times> hw) res" where
  "gdt_init gdt_addr tss_addr g s =
     bindR (encodeGDTEntry 0 0 0 0 0 (g\<lparr>gp_limit := 72 - 1, gp_base := gdt_addr\<rparr>)) (\<lambda>g.
     bindR (encodeGDTEntry 1 0 0xfffff 0x9a 0xc g) (\<lambda>g.
     bindR (encodeGDTEntry 2 0 0xfffff 0x9a 0xa g) (\<lambda>g.
     bindR (encodeGDTEntry 3 0 0xfffff 0x92 0xc g) (\<lambda>g.
     bindR (encodeGDTEntry 4 0 0xfffff 0xfa 0xa g) (\<lambda>g.
     bindR (encodeGDTEntry 5 0 0xfffff 0xf2 0xc g) (\<lambda>g.
     bindR (encodeGDTEntry 6 0 0xfffff 0xfa 0xa g) (\<lambda>g.
     bindR (write_tss tss_addr 7 g) (\<lambda>g.
       Inr (g, emit Ltr (emit (Lgdt (gp_limit g) (gp_base g)) s))))))))))"

subsection \<open>The interrupt descriptor table\<close>

record idt_entry =
  offset_lo :: u16
  ss :: u16
  ist :: u8
  attributes :: u8
  offset_mid :: u16
  offset_hi :: u32
  reserved :: u32

definition idt_entry0 :: idt_entry where
  "idt_entry0 = \<lparr>offset_lo = 0, ss = 0, ist = 0, attributes = 0, offset_mid = 0, offset_hi = 0, reserved = 0\<rparr>"

record idt_state =
  idt :: "idt_entry list"
  idtr_limit :: u16
  idtr_base :: u64
  vectors :: "bool list"

definition idt_boot :: idt_state where
  "idt_boot = \<lparr>idt = replicate 256 idt_entry0, idtr_limit = 0, idtr_base = 0, vectors = replicate 256 False\<rparr>"

definition idt_descriptor :: "u64 \<Rightarrow> u8 \<Rightarrow> idt_entry" where
  "idt_descriptor isr flags =
     \<lparr>offset_lo = ucast (isr AND 0xffff), ss = push_bit 3 2 OR 0, ist = 0, attributes = flags,
      offset_mid = ucast (drop_bit 16 isr AND 0xffff), offset_hi = ucast (drop_bit 32 isr AND 0xffffffff), reserved = 0\<rparr>"

definition idt_set_descriptor :: "u8 \<Rightarrow> u64 \<Rightarrow> u8 \<Rightarrow> idt_state \<Rightarrow> idt_state res" where
  "idt_set_descriptor vector isr flags d =
     (if unat vector < length (idt d) then Inr (d\<lparr>idt := (idt d)[unat vector := idt_descriptor isr flags]\<rparr>)
      else Inl OutOfBounds)"

text \<open>The body of the loop over the vectors; \<open>isr_stub_table\<close> is defined in assembly.\<close>

definition idt_vector :: "u64 list \<Rightarrow> nat \<Rightarrow> idt_state \<Rightarrow> idt_state res" where
  "idt_vector isr_stub_table v d =
     (if v < length isr_stub_table
      then bindR (idt_set_descriptor (of_nat v) (isr_stub_table ! v) 0x8e d) (\<lambda>d.
             if v < length (vectors d) then Inr (d\<lparr>vectors := (vectors d)[v := True]\<rparr>) else Inl OutOfBounds)
      else Inl OutOfBounds)"

definition idt_init :: "u64 list \<Rightarrow> u64 \<Rightarrow> idt_state \<Rightarrow> hw \<Rightarrow> (idt_state \<times> hw) res" where
  "idt_init isr_stub_table idt_addr d s =
     bindR (for_range (idt_vector isr_stub_table) 0 256 (d\<lparr>idtr_base := idt_addr, idtr_limit := 16 * 256 - 1\<rparr>)) (\<lambda>d.
       Inr (d, emit Sti (emit (Lidt (idtr_limit d) (idtr_base d)) s)))"

subsection \<open>How the processor reads a descriptor\<close>

definition seg_base :: "gdt_entry \<Rightarrow> u32" where
  "seg_base e = push_bit 24 (ucast (base_hi e)) OR push_bit 16 (ucast (base_mid e)) OR ucast (base_lo e)"

definition seg_limit :: "gdt_entry \<Rightarrow> u32" where
  "seg_limit e = push_bit 16 (ucast (gflags e AND 0xf)) OR ucast (limit_lo e)"

definition seg_flags :: "gdt_entry \<Rightarrow> u8" where
  "seg_flags e = drop_bit 4 (gflags e)"

text \<open>
  A system descriptor takes two entries: the first four bytes of the second one are the bits
  32 to 63 of the base, in little-endian order.
\<close>

definition sys_base :: "gdt_entry \<Rightarrow> gdt_entry \<Rightarrow> u64" where
  "sys_base e e' = push_bit 48 (ucast (base_lo e')) OR push_bit 32 (ucast (limit_lo e')) OR ucast (seg_base e)"

definition gate_offset :: "idt_entry \<Rightarrow> u64" where
  "gate_offset e = push_bit 32 (ucast (offset_hi e)) OR push_bit 16 (ucast (offset_mid e)) OR ucast (offset_lo e)"

definition gate_type :: "idt_entry \<Rightarrow> u8" where
  "gate_type e = attributes e AND 0xf"

subsection \<open>Encoding and decoding\<close>

lemma and_low_bits [word_bits]:
  "(w :: 'a::len word) AND 0xf = take_bit 4 w" "w AND 0xff = take_bit 8 w" "w AND 0xffff = take_bit 16 w"
  "w AND 0xfffff = take_bit 20 w" "w AND 0xffffffff = take_bit 32 w"
  by (simp_all add: take_bit_eq_mask mask_eq_exp_minus_1)

lemmas descriptor_bits = bit_or_iff bit_and_iff bit_push_bit_iff bit_drop_bit_eq bit_ucast_iff bit_take_bit_iff

lemma gate_offset_descriptor: "gate_offset (idt_descriptor isr flags) = isr"
  unfolding gate_offset_def idt_descriptor_def idt_entry.simps word_bits
proof (rule bit_word_eqI)
  fix n assume n: "n < LENGTH(64)"
  consider "n < 16" | "16 \<le> n" "n < 32" | "32 \<le> n" by linarith
  then show "bit (push_bit 32 (ucast (ucast (take_bit 32 (drop_bit 32 isr)) :: u32)) OR
      push_bit 16 (ucast (ucast (take_bit 16 (drop_bit 16 isr)) :: u16)) OR ucast (ucast (take_bit 16 isr) :: u16) :: u64) n = bit isr n"
    using n by cases (auto simp: descriptor_bits)
qed

definition gdt_record :: "u64 \<Rightarrow> u32 \<Rightarrow> u8 \<Rightarrow> u8 \<Rightarrow> gdt_entry" where
  "gdt_record base limit access flags =
     \<lparr>limit_lo = ucast (limit AND 0xffff), base_lo = ucast (base AND 0xffff), base_mid = ucast (drop_bit 16 base AND 0xff),
      access_byte = access, gflags = ucast (drop_bit 16 limit AND 0x0f) OR push_bit 4 flags,
      base_hi = ucast (drop_bit 24 base AND 0xff)\<rparr>"

lemma encodeGDTEntry_ok:
  "i < length (gdt g) \<Longrightarrow> encodeGDTEntry i base limit access flags g =
     Inr (g\<lparr>gdt := (gdt g)[i := gdt_record base limit access flags]\<rparr>)"
  by (cases "gdt g ! i") (simp add: encodeGDTEntry_def upd_gdt_def gdt_record_def)

lemma gdt_record_decode:
  "seg_base (gdt_record base limit access flags) = ucast base"
  "seg_limit (gdt_record base limit access flags) = limit AND 0xfffff"
  "seg_flags (gdt_record base limit access flags) = flags AND 0xf"
  "access_byte (gdt_record base limit access flags) = access"
proof -
  show "seg_base (gdt_record base limit access flags) = ucast base"
  proof (rule bit_word_eqI)
    fix n assume n: "n < LENGTH(32)"
    consider "n < 16" | "16 \<le> n" "n < 24" | "24 \<le> n" by linarith
    then show "bit (seg_base (gdt_record base limit access flags)) n = bit (ucast base :: u32) n"
      unfolding seg_base_def gdt_record_def gdt_entry.simps word_bits using n by cases (auto simp: descriptor_bits)
  qed
  show "seg_limit (gdt_record base limit access flags) = limit AND 0xfffff"
  proof (rule bit_word_eqI)
    fix n assume n: "n < LENGTH(32)"
    consider "n < 16" | "16 \<le> n" "n < 20" | "20 \<le> n" by linarith
    then show "bit (seg_limit (gdt_record base limit access flags)) n = bit (limit AND 0xfffff) n"
      unfolding seg_limit_def gdt_record_def gdt_entry.simps word_bits using n by cases (auto simp: descriptor_bits)
  qed
  show "seg_flags (gdt_record base limit access flags) = flags AND 0xf"
    unfolding seg_flags_def gdt_record_def gdt_entry.simps word_bits
    by (rule bit_word_eqI) (auto simp: descriptor_bits)
  show "access_byte (gdt_record base limit access flags) = access" by (simp add: gdt_record_def)
qed

text \<open>
  C21. Encoding a segment descriptor and reading it back the way the processor does gives the
  low 32 bits of the base, the low 20 bits of the limit, the access byte and the four flags,
  and leaves every other entry as it is; an index past the table is a fault.
\<close>

theorem gdt_entry_roundtrip:
  "(i < length (gdt g) \<longrightarrow> (\<exists>g'. encodeGDTEntry i base limit access flags g = Inr g' \<and>
      seg_base (gdt g' ! i) = ucast base \<and> seg_limit (gdt g' ! i) = limit AND 0xfffff \<and>
      access_byte (gdt g' ! i) = access \<and> seg_flags (gdt g' ! i) = flags AND 0xf \<and>
      (\<forall>j. j \<noteq> i \<longrightarrow> gdt g' ! j = gdt g ! j))) \<and>
   (length (gdt g) \<le> i \<longrightarrow> encodeGDTEntry i base limit access flags g = Inl OutOfBounds)"
  using encodeGDTEntry_ok[of i g base limit access flags] gdt_record_decode[of base limit access flags]
  by (simp add: encodeGDTEntry_def upd_gdt_def nth_list_update)

theorem gdt_entry_roundtrip_witness:
  "\<exists>g'. encodeGDTEntry 2 0 0xfffff 0x9a 0xa (gdt_boot tss0) = Inr g' \<and> seg_limit (gdt g' ! 2) = 0xfffff \<and> seg_flags (gdt g' ! 2) = 0xa"
  using gdt_entry_roundtrip[of 2 "gdt_boot tss0" 0 "0xfffff" "0x9a" "0xa"] by (auto simp: gdt_boot_def)

subsection \<open>The tables at boot\<close>

definition tss_high :: "u64 \<Rightarrow> gdt_entry \<Rightarrow> gdt_entry" where
  "tss_high a e = e\<lparr>base_lo := ucast (drop_bit 32 a AND 0xffff), limit_lo := ucast (drop_bit 48 a AND 0xffff)\<rparr>"

lemma gdt_init_run:
  assumes "length (gdt g) = 9"
  shows "gdt_init ga ta g s =
    Inr (g\<lparr>gdt := [gdt_record 0 0 0 0, gdt_record 0 0xfffff 0x9a 0xc, gdt_record 0 0xfffff 0x9a 0xa, gdt_record 0 0xfffff 0x92 0xc,
             gdt_record 0 0xfffff 0xfa 0xa, gdt_record 0 0xfffff 0xf2 0xc, gdt_record 0 0xfffff 0xfa 0xa,
             gdt_record ta (sizeof_tss - 1) 0x89 0, tss_high ta (gdt g ! 8)],
           gp_limit := 71, gp_base := ga, tss := tss0\<rparr>,
         emit Ltr (emit (Lgdt 71 ga) s))"
proof -
  have "\<exists>a b c d e f h i j. gdt g = [a, b, c, d, e, f, h, i, j]"
    using assms by (auto simp: length_Suc_conv eval_nat_numeral)
  then obtain a b c d e f h i j where "gdt g = [a, b, c, d, e, f, h, i, j]" by blast
  then show ?thesis
    by (simp add: gdt_init_def write_tss_def encodeGDTEntry_ok upd_gdt_def tss_high_def eval_nat_numeral)
qed

lemma tss_high_base:
  assumes "base_mid e = 0" "base_hi e = 0"
  shows "sys_base (gdt_record a l x f) (tss_high a e) = a \<longleftrightarrow> (drop_bit 32 a AND 0xffff = drop_bit 48 a AND 0xffff)"
proof -
  let ?b = "sys_base (gdt_record a l x f) (tss_high a e)"
  have b: "bit (sys_base (gdt_record a l x f) (tss_high a e)) n \<longleftrightarrow>
      (if n < 32 then bit a n else if n < 48 then bit a (16 + n) else n < 64 \<and> bit a (n - 16))" for n
    unfolding sys_base_def gdt_record_decode tss_high_def gdt_entry.simps word_bits
    by (auto simp: descriptor_bits)
  have h: "drop_bit 32 a AND 0xffff = drop_bit 48 a AND 0xffff \<longleftrightarrow> (\<forall>n<16. bit a (32 + n) = bit a (48 + n))"
    (is "?l \<longleftrightarrow> ?r")
  proof
    assume "?l"
    then have "bit (drop_bit 32 a AND 0xffff) n = bit (drop_bit 48 a AND 0xffff) n" for n by simp
    then show ?r unfolding word_bits by (simp add: descriptor_bits) (metis add.commute)
  qed (rule bit_word_eqI, unfold word_bits, auto simp: descriptor_bits)
  show ?thesis
  proof
    assume "?b = a"
    then have "bit a (32 + n) = bit a (48 + n)" if "n < 16" for n using b[of "32 + n"] that by simp
    then show "drop_bit 32 a AND 0xffff = drop_bit 48 a AND 0xffff" unfolding h by blast
  next
    assume "drop_bit 32 a AND 0xffff = drop_bit 48 a AND 0xffff"
    then have e: "bit a (32 + n) = bit a (48 + n)" if "n < 16" for n using that unfolding h by blast
    show "?b = a"
    proof (rule bit_word_eqI)
      fix n assume n: "n < LENGTH(64)"
      consider "n < 32" | "32 \<le> n" "n < 48" | "48 \<le> n" by linarith
      then show "bit ?b n = bit a n" using b[of n] e[of "n - 32"] e[of "n - 48"] n by cases auto
    qed
  qed
qed

lemma idt_loop:
  assumes "length stubs = 256" "length (idt d) = 256" "length (vectors d) = 256" "k + n = 256"
  shows "for_range (idt_vector stubs) k n d =
    Inr (d\<lparr>idt := take k (idt d) @ map (\<lambda>v. idt_descriptor (stubs ! v) 0x8e) [k..<256],
           vectors := take k (vectors d) @ replicate n True\<rparr>)"
  using assms
proof (induction n arbitrary: k d)
  case (Suc n)
  have u: "unat (of_nat k :: u8) = k" using Suc.prems(4) by (simp add: unat_of_nat)
  let ?d = "d\<lparr>idt := (idt d)[k := idt_descriptor (stubs ! k) 0x8e], vectors := (vectors d)[k := True]\<rparr>"
  have "idt_vector stubs k d = Inr ?d" using Suc.prems u by (simp add: idt_vector_def idt_set_descriptor_def)
  then have "for_range (idt_vector stubs) k (Suc n) d = for_range (idt_vector stubs) (Suc k) n ?d" by simp
  also have "\<dots> = Inr (?d\<lparr>idt := take (Suc k) (idt ?d) @ map (\<lambda>v. idt_descriptor (stubs ! v) 0x8e) [Suc k..<256],
           vectors := take (Suc k) (vectors ?d) @ replicate n True\<rparr>)"
    using Suc.prems by (intro Suc.IH) simp_all
  finally show ?case using Suc.prems by (simp add: take_Suc_conv_app_nth upt_rec[of k])
qed simp

text \<open>
  C34. \<open>gdt_init\<close> loads a table of nine entries in which entry 2 is the 64-bit kernel code
  segment and entry 3 the kernel data segment, flat over the whole address space. The base
  of the task state segment in entries 7 and 8 is right exactly when the bits 32 to 47 and
  48 to 63 of its address agree, since the code stores the two halves in each other's place.
\<close>

theorem gdt_init_table:
  assumes "length (gdt g) = 9" "base_mid (gdt g ! 8) = 0" "base_hi (gdt g ! 8) = 0"
  shows "\<exists>g'. gdt_init ga ta g s = Inr (g', emit Ltr (emit (Lgdt 71 ga) s)) \<and> length (gdt g') = 9 \<and>
    access_byte (gdt g' ! 2) = 0x9a \<and> seg_flags (gdt g' ! 2) = 0xa \<and>
    access_byte (gdt g' ! 3) = 0x92 \<and> seg_flags (gdt g' ! 3) = 0xc \<and>
    (\<forall>i\<in>{1..6}. seg_base (gdt g' ! i) = 0 \<and> seg_limit (gdt g' ! i) = 0xfffff) \<and>
    access_byte (gdt g' ! 7) = 0x89 \<and> seg_limit (gdt g' ! 7) = 111 \<and>
    (sys_base (gdt g' ! 7) (gdt g' ! 8) = ta \<longleftrightarrow> drop_bit 32 ta AND 0xffff = drop_bit 48 ta AND 0xffff)"
proof -
  let ?seg = "\<lambda>a f. gdt_record 0 0xfffff a f"
  have i: "{1..6} = {1, 2, 3, 4, 5, 6 :: nat}" by auto
  have flat: "seg_base (?seg a f) = 0" "seg_limit (?seg a f) = 0xfffff" for a f by (simp_all add: gdt_record_decode)
  have tss: "seg_limit (gdt_record ta (sizeof_tss - 1) 0x89 0) = 111" by (simp add: gdt_record_decode sizeof_tss_def)
  have fl: "seg_flags (?seg 0x9a 0xa) = 0xa" "seg_flags (?seg 0x92 0xc) = 0xc" by (simp_all add: gdt_record_decode)
  show ?thesis unfolding gdt_init_run[OF assms(1)] i
    using flat tss fl tss_high_base[OF assms(2,3), of ta "sizeof_tss - 1" "0x89" 0]
    by (simp add: gdt_record_decode(4) eval_nat_numeral)
qed

theorem gdt_init_table_witness:
  "\<exists>g'. gdt_init 0xffffffff80200000 0x0000123480201000 (gdt_boot tss0) hw_example = Inr (g', emit Ltr (emit (Lgdt 71 0xffffffff80200000) hw_example)) \<and>
     sys_base (gdt g' ! 7) (gdt g' ! 8) \<noteq> 0x0000123480201000"
proof -
  have g: "length (gdt (gdt_boot tss0)) = 9" "base_mid (gdt (gdt_boot tss0) ! 8) = 0" "base_hi (gdt (gdt_boot tss0) ! 8) = 0"
    by (simp_all add: gdt_boot_def gdt_entry0_def)
  then show ?thesis using gdt_init_table[OF g, of "0xffffffff80200000" "0x0000123480201000" hw_example] by auto
qed

text \<open>
  \<open>idt_init\<close> installs all 256 gates: each is a present interrupt gate through the kernel
  code segment whose entry point, put together the way the processor does, is exactly the
  stub of its vector.
\<close>

theorem idt_init_gates:
  assumes "length stubs = 256" "length (idt d) = 256" "length (vectors d) = 256"
  shows "\<exists>d'. idt_init stubs a d s = Inr (d', emit Sti (emit (Lidt 4095 a) s)) \<and> length (idt d') = 256 \<and>
    (\<forall>v<256. gate_offset (idt d' ! v) = stubs ! v \<and> ss (idt d' ! v) = 0x10 \<and> gate_type (idt d' ! v) = 0xe \<and>
      bit (attributes (idt d' ! v)) 7 \<and> vectors d' ! v)"
proof -
  let ?d = "d\<lparr>idtr_base := a, idtr_limit := 4095\<rparr>"
  have "for_range (idt_vector stubs) 0 256 ?d =
      Inr (?d\<lparr>idt := map (\<lambda>v. idt_descriptor (stubs ! v) 0x8e) [0..<256], vectors := replicate 256 True\<rparr>)"
    using idt_loop[of stubs ?d 0 256] assms by simp
  moreover have "ss (idt_descriptor i 0x8e) = 0x10" "gate_type (idt_descriptor i 0x8e) = 0xe"
    "bit (attributes (idt_descriptor i 0x8e)) 7" for i by (simp_all add: idt_descriptor_def gate_type_def)
  ultimately show ?thesis by (simp add: idt_init_def gate_offset_descriptor)
qed

theorem idt_init_gates_witness:
  "\<exists>d'. idt_init (map of_nat [4096..<4352]) 0x5000 idt_boot hw_example = Inr (d', emit Sti (emit (Lidt 4095 0x5000) hw_example)) \<and>
     gate_offset (idt d' ! 0x21) = 4129"
proof -
  have l: "length (map of_nat [4096..<4352] :: u64 list) = 256" "length (idt idt_boot) = 256" "length (vectors idt_boot) = 256"
    by (simp_all add: idt_boot_def)
  have "(map of_nat [4096..<4352] :: u64 list) ! 0x21 = 4129" by (simp del: upt_Suc)
  moreover have "(0x21 :: nat) < 256" by simp
  ultimately show ?thesis using idt_init_gates[OF l, of "0x5000" hw_example] by metis
qed

end
