(* ===== verification/Nya_Kernel.thy ===== *)
theory Nya_Kernel
  imports Nya_Slab Nya_Keyboard Nya_Descriptors Nya_Apic Nya_Tty Nya_Stdio
begin

unbundle bit_operations_syntax

section \<open>Interrupts and the start of the kernel\<close>

text \<open>
  \<open>isr.c\<close>, \<open>requests.c\<close> and \<open>kernel.c\<close>, and \<open>abort.c\<close> of the C library: where the components
  meet. The state of the machine is the product of theirs.
\<close>

subsection \<open>The machine\<close>

record machine =
  mhw :: hw
  mkb :: keyboard
  mapic :: apic
  mgdt :: gdt_state
  midt :: idt_state
  mheap :: kheap
  mtty :: tty

text \<open>What the boot loader answers to the requests of \<open>requests.c\<close>.\<close>

record requests =
  hhdm_request :: u64
  framebuffer_request :: "framebuffer list option"
  module_request :: "u8 list"
  mmap_request :: "limine_memmap_entry list"
  eaddr_request :: "u64 \<times> u64"
  rsdp_request :: u64

text \<open>The addresses the linker chooses, and the assembly stubs.\<close>

record linker =
  l_gdt :: u64
  l_tss :: u64
  l_idt :: u64
  l_stubs :: "u64 list"
  l_kernel_start :: u64
  l_kernel_end :: u64
  l_apic_signature :: u64
  l_cc_name :: u64
  l_tmp_name :: u64
  l_smiley :: u64

subsection \<open>Interrupts\<close>

record registers =
  r15 :: u64 r14 :: u64 r13 :: u64 r12 :: u64 r11 :: u64 r10 :: u64 r9 :: u64 r8 :: u64
  rbp :: u64 rdi :: u64 rsi :: u64 rdx :: u64 rcx :: u64 rbx :: u64 rax :: u64
  vector :: u64 error_code :: u64
  rip :: u64 cs :: u64 rflags :: u64 rsp :: u64 rss :: u64

definition page_fault :: "u64 \<Rightarrow> hw \<Rightarrow> hw" where
  "page_fault vaddr s = kprintf ''faulting addr (CR2)=%#llx\<newline>'' [vaddr] s"

text \<open>A handler resumes the interrupted code or halts the processor for ever.\<close>

datatype 'a outcome = Resumed 'a | Halted 'a

definition exception_handler :: "registers \<Rightarrow> u64 \<Rightarrow> machine \<Rightarrow> machine outcome res" where
  "exception_handler regs cr2 m =
     (if 0x20 \<le> vector regs \<and> vector regs \<le> 0x2f
      then bindR (if vector regs = 0x21
                  then bindR (handle_keyboard (mkb m) (mhw m)) (\<lambda>(kb, s). Inr (m\<lparr>mkb := kb, mhw := s\<rparr>))
                  else Inr m) (\<lambda>m.
           let m = (if vector regs = 0x22 \<or> vector regs = 0x23
                    then m\<lparr>mhw := handle_serial (ucast (vector regs)) (mhw m)\<rparr> else m)
           in Inr (Resumed (m\<lparr>mhw := send_eoi (mapic m) (mhw m)\<rparr>)))
      else if vector regs = 0x30
      then Inr (Resumed (m\<lparr>mhw := send_eoi (mapic m) (mhw m)\<rparr>))
      else let s = kprintf ''\<newline>*** EXCEPTION %llu\<newline>'' [vector regs] (mhw m);
               s = kprintf ''err=%#llx  RIP=%#llx  CS=%#llx  RFLAGS=%#llx\<newline>''
                     [error_code regs, rip regs, cs regs, rflags regs] s;
               s = kprintf ''RAX=%#llx RBX=%#llx ... RSP=%#llx\<newline>'' [rax regs, rbx regs, rsp regs] s;
               s = (if vector regs = 14 then page_fault cr2 s else s)
           in Inr (Halted (m\<lparr>mhw := s\<rparr>)))"

subsection \<open>Panic\<close>

definition abort :: "hw \<Rightarrow> hw option" where
  "abort s = hcf (kprintf ''kernel: panic: abort()\<newline>'' [] s)"

subsection \<open>The boot sequence\<close>

text \<open>
  \<open>kernel_main\<close> up to its final \<open>hcf\<close>: the result is the machine that then halts between
  interrupts. \<open>None\<close> is a boot that hangs: an unsupported boot protocol, no framebuffer, or
  a device that never answers.
\<close>

definition boot_info_of :: "requests \<Rightarrow> linker \<Rightarrow> boot_info" where
  "boot_info_of q l =
     \<lparr>bi_offset = hhdm_request q, bi_kernel_start = l_kernel_start l, bi_kernel_end = l_kernel_end l,
      bi_virtual_base = snd (eaddr_request q), bi_physical_base = fst (eaddr_request q), bi_mmap = mmap_request q\<rparr>"

definition boot_memory :: "requests \<Rightarrow> linker \<Rightarrow> machine \<Rightarrow> machine res option" where
  "boot_memory q l m =
     (let h = mheap m; pg = kpager h
      in bindX (pfa_init (hhdm_request q) (mmap_request q) (frames pg)) (\<lambda>fr.
         bindS (paging_init (boot_info_of q l) (pg\<lparr>frames := fr\<rparr>)) (\<lambda>pg.
         bindS (idt_init (l_stubs l) (l_idt l) (midt m) (mhw m)) (\<lambda>(d, s).
         bindX (slab_alloc_init (l_cc_name l) (l_tmp_name l) (h\<lparr>kpager := pg\<rparr>)) (\<lambda>h.
           Some (Inr (m\<lparr>mheap := h, midt := d, mhw := s\<rparr>)))))))"

definition boot_interrupts :: "requests \<Rightarrow> linker \<Rightarrow> machine \<Rightarrow> machine res option" where
  "boot_interrupts q l m =
     bindS (apic_init ((mapic m)\<lparr>apager := kpager (mheap m)\<rparr>) (mhw m)) (\<lambda>(a, s).
     bindX (ioapic_init (rsdp_request q) (hhdm_request q) (l_apic_signature l) (kmem (mheap m)) a
              (apic_start_timer 3 1000000 a s)) (\<lambda>(a, s).
       Some (Inr (m\<lparr>mapic := a, mheap := (mheap m)\<lparr>kpager := apager a\<rparr>, mhw := s\<rparr>))))"

definition boot_devices :: "linker \<Rightarrow> machine \<Rightarrow> machine option" where
  "boot_devices l m = do {
     s \<leftarrow> ps2_init (kprintf ''UwU Hallo %sUwu\<newline>Welcome to NyaOS\<newline>'' [l_smiley l] (mhw m));
     (kb, s) \<leftarrow> kb_enable_scanning (mkb m) s;
     Some (m\<lparr>mkb := kb\<lparr>key_down_handler := Some KeyDown\<rparr>, mhw := s\<rparr>) }"

definition kernel_main :: "bool \<Rightarrow> requests \<Rightarrow> linker \<Rightarrow> machine \<Rightarrow> machine res option" where
  "kernel_main base_revision_supported q l m =
     (if \<not> base_revision_supported then Option.bind (hcf (mhw m)) (\<lambda>_. None)
      else bindS (gdt_init (l_gdt l) (l_tss l) (mgdt m) (emit EnableSse (mhw m))) (\<lambda>(g, s).
        bindX (terminal_initialize (framebuffer_request q) (module_request q) (mtty m)) (\<lambda>t.
        bindX (boot_memory q l (m\<lparr>mgdt := g, mtty := t, mhw := s\<rparr>)) (\<lambda>m.
        bindX (boot_interrupts q l m) (\<lambda>m.
          map_option Inr (boot_devices l m))))))"

end
