(* ===== verification/Lim_Device.thy ===== *)
theory Lim_Device
  imports Nya_Memory
begin

unbundle bit_operations_syntax

section \<open>The boot loader tool: device, block cache and undo log\<close>

text \<open>
  The first part of \<open>limine-binary/limine.c\<close>, the tool that writes the boot loader to the
  disk image: byte order and overflow helpers, the write-back cache of one block, reads and
  writes of byte ranges through it, and the log from which an installation is undone.

  The device is a list of bytes. A call of the C library that can fail (\<open>fseek\<close>, \<open>fread\<close>,
  \<open>fwrite\<close>, \<open>malloc\<close>, \<open>realloc\<close>) asks \<open>lib_ok\<close> for its outcome, so a run with failing calls is
  one value of that function; in addition a read past the end of the device is short and a
  seek to a negative offset fails. The tool runs on a little-endian machine with a 64-bit
  \<open>long\<close>; the branch for a 32-bit \<open>long\<close> is \<open>set_pos_jumps\<close>. Messages to \<open>stderr\<close> are left out, as is the release of memory.
\<close>

subsection \<open>Numbers\<close>

definition mul_u64_overflow :: "u64 \<Rightarrow> u64 \<Rightarrow> bool \<times> u64" where
  "mul_u64_overflow a b = (a \<noteq> 0 \<and> 0xffffffffffffffff div a < b, a * b)"

definition add_u64_overflow :: "u64 \<Rightarrow> u64 \<Rightarrow> bool \<times> u64" where
  "add_u64_overflow a b = (0xffffffffffffffff - b < a, a + b)"

definition endswap16 :: "u16 \<Rightarrow> u16" where
  "endswap16 v = (drop_bit 8 v AND 0x00ff) OR (push_bit 8 v AND 0xff00)"

definition endswap32 :: "u32 \<Rightarrow> u32" where
  "endswap32 v =
     (drop_bit 24 v AND 0x000000ff) OR (drop_bit 8 v AND 0x0000ff00) OR
     (push_bit 8 v AND 0x00ff0000) OR (push_bit 24 v AND 0xff000000)"

definition endswap64 :: "u64 \<Rightarrow> u64" where
  "endswap64 v =
     (drop_bit 56 v AND 0x00000000000000ff) OR (drop_bit 40 v AND 0x000000000000ff00) OR
     (drop_bit 24 v AND 0x0000000000ff0000) OR (drop_bit 8 v AND 0x00000000ff000000) OR
     (push_bit 8 v AND 0x000000ff00000000) OR (push_bit 24 v AND 0x0000ff0000000000) OR
     (push_bit 40 v AND 0x00ff000000000000) OR (push_bit 56 v AND 0xff00000000000000)"

definition lba2chs :: "u64 \<Rightarrow> u8 list" where
  "lba2chs lba =
     (let cylinder = lba div (255 * 63)
      in if 63 * 255 * 1024 < lba \<or> 1024 \<le> cylinder then [0xfe, 0xff, 0xff]
         else let hd = (lba div 63) mod 255; sector = lba mod 63 + 1
              in [ucast hd, ucast (drop_bit 2 cylinder AND 0xc0) OR ucast (sector AND 0x3f), ucast cylinder])"

definition gpt2mbr_type_conv_table :: "(u64 \<times> u64 \<times> u8) list" where
  "gpt2mbr_type_conv_table =
     [(0x11d2f81fc12a7328, 0x3bc93ec9a0004bba, 0xef),
      (0x4433b9e5ebd0a0a2, 0xc79926b7b668c087, 0x07),
      (0x11aa000048465300, 0xacec4365300011aa, 0xaf)]"

text \<open>\<open>None\<close> is the result \<open>-1\<close>.\<close>

definition gpt2mbr_type :: "u64 \<Rightarrow> u64 \<Rightarrow> u8 option" where
  "gpt2mbr_type t1 t2 =
     map_option (\<lambda>(a, b, t). t) (find (\<lambda>(a, b, t). a = t1 \<and> b = t2) gpt2mbr_type_conv_table)"

subsection \<open>State\<close>

datatype cache_state = CACHE_CLEAN | CACHE_DIRTY

record uninstall_data =
  ud_data :: "u8 list"
  ud_loc :: u64
  ud_count :: u64

abbreviation (input) UNINSTALL_DATA_MAX :: nat where "UNINSTALL_DATA_MAX \<equiv> 256"

text \<open>
  \<open>udata\<close> is the part of the array \<open>uninstall_data\<close> below \<open>uninstall_data_i\<close>. A division by
  a block size of zero would kill the process; \<open>killed\<close> records it.
\<close>

record dev =
  disk :: "u8 list"
  fpos :: nat
  lib_ok :: "nat \<Rightarrow> bool"
  lib_calls :: nat
  dcache_state :: cache_state
  cached_block :: u64
  dcache :: "u8 list"
  block_size :: u64
  uninstalling :: bool
  udata :: "uninstall_data list"
  killed :: bool

definition dev_start :: "u8 list \<Rightarrow> (nat \<Rightarrow> bool) \<Rightarrow> dev" where
  "dev_start d ok = \<lparr>disk = d, fpos = 0, lib_ok = ok, lib_calls = 0, dcache_state = CACHE_CLEAN, cached_block = 0,
     dcache = [], block_size = 0, uninstalling = False, udata = [], killed = False\<rparr>"

subsection \<open>The C library\<close>

definition lib_call :: "dev \<Rightarrow> bool \<times> dev" where
  "lib_call s = (lib_ok s (lib_calls s), s\<lparr>lib_calls := Suc (lib_calls s)\<rparr>)"

definition set_pos :: "u64 \<Rightarrow> dev \<Rightarrow> bool \<times> dev" where
  "set_pos pos s =
     (case lib_call s of (ok, s) \<Rightarrow> if ok \<and> 0 \<le> sint pos then (True, s\<lparr>fpos := unat pos\<rparr>) else (False, s))"

text \<open>
  The other branch of \<open>set_pos\<close>, for a \<open>long\<close> of 32 bits: the position is reached in jumps of
  \<open>LONG_MAX / 2 + 1\<close> bytes from the start of the file.
\<close>

fun jump_loop :: "nat \<Rightarrow> dev \<Rightarrow> bool \<times> dev" where
  "jump_loop 0 s = (True, s)"
| "jump_loop (Suc n) s =
     (case lib_call s of (ok, s) \<Rightarrow> if ok then jump_loop n (s\<lparr>fpos := fpos s + 0x40000000\<rparr>) else (False, s))"

definition set_pos_jumps :: "u64 \<Rightarrow> dev \<Rightarrow> bool \<times> dev" where
  "set_pos_jumps pos s =
     (let jump_size = 0x40000000; last_jump = pos mod jump_size; jumps = pos div jump_size
      in case jump_loop (unat jumps) (s\<lparr>fpos := 0\<rparr>) of
           (False, s) \<Rightarrow> (False, s)
         | (True, s) \<Rightarrow> (case lib_call s of (ok, s) \<Rightarrow> if ok then (True, s\<lparr>fpos := fpos s + unat last_jump\<rparr>) else (False, s)))"

text \<open>\<open>fread(cache, n, 1, device)\<close>: a short read has already changed the buffer.\<close>

definition fread_cache :: "nat \<Rightarrow> dev \<Rightarrow> bool \<times> dev" where
  "fread_cache n s =
     (case lib_call s of (ok, s) \<Rightarrow>
        let got = (if ok then take n (drop (fpos s) (disk s)) else [])
        in (0 < n \<and> length got = n, s\<lparr>dcache := got @ drop (length got) (dcache s), fpos := fpos s + length got\<rparr>))"

text \<open>Bytes stored at a position of a file; a gap behind the old end reads as zero.\<close>

definition splice_at :: "nat \<Rightarrow> u8 list \<Rightarrow> u8 list \<Rightarrow> u8 list" where
  "splice_at p bs xs = take p xs @ replicate (p - length xs) 0 @ bs @ drop (p + length bs) xs"

definition fwrite_cache :: "nat \<Rightarrow> dev \<Rightarrow> bool \<times> dev" where
  "fwrite_cache n s =
     (case lib_call s of (ok, s) \<Rightarrow>
        if ok \<and> 0 < n then (True, s\<lparr>disk := splice_at (fpos s) (take n (dcache s)) (disk s), fpos := fpos s + n\<rparr>)
        else (False, s))"

subsection \<open>The block cache\<close>

fun device_guess :: "nat list \<Rightarrow> dev \<Rightarrow> bool \<times> dev" where
  "device_guess [] s = (False, s)"
| "device_guess (g # gs) s =
     (case lib_call s of (ok, s) \<Rightarrow>
        if \<not> ok then (False, s)
        else case fread_cache g (s\<lparr>dcache := take g (dcache s @ replicate g 0), fpos := 0\<rparr>) of
               (True, s) \<Rightarrow> (True, s\<lparr>block_size := of_nat g, dcache_state := CACHE_CLEAN, cached_block := 0\<rparr>)
             | (False, s) \<Rightarrow> device_guess gs s)"

definition device_init :: "dev \<Rightarrow> bool \<times> dev" where
  "device_init s = device_guess [512, 2048, 4096] s"

definition device_flush_cache :: "dev \<Rightarrow> bool \<times> dev" where
  "device_flush_cache s =
     (if dcache_state s = CACHE_CLEAN then (True, s)
      else case set_pos (cached_block s * block_size s) s of
             (False, s) \<Rightarrow> (False, s)
           | (True, s) \<Rightarrow>
               (case fwrite_cache (unat (block_size s)) s of
                  (False, s) \<Rightarrow> (False, s)
                | (True, s) \<Rightarrow> (True, s\<lparr>dcache_state := CACHE_CLEAN\<rparr>)))"

definition device_cache_block :: "u64 \<Rightarrow> dev \<Rightarrow> bool \<times> dev" where
  "device_cache_block block s =
     (if cached_block s = block then (True, s)
      else case (if dcache_state s = CACHE_DIRTY then device_flush_cache s else (True, s)) of
             (False, s) \<Rightarrow> (False, s)
           | (True, s) \<Rightarrow>
               (case set_pos (block * block_size s) s of
                  (False, s) \<Rightarrow> (False, s)
                | (True, s) \<Rightarrow>
                    (case fread_cache (unat (block_size s)) s of
                       (False, s) \<Rightarrow> (False, s)
                     | (True, s) \<Rightarrow> (True, s\<lparr>cached_block := block\<rparr>))))"

subsection \<open>Ranges of bytes\<close>

text \<open>The part of the range that lies in the block of its first byte.\<close>

definition chunk_size :: "u64 \<Rightarrow> u64 \<Rightarrow> u64 \<Rightarrow> u64" where
  "chunk_size bs addr left = (let offset = addr mod bs in if bs - offset < left then bs - offset else left)"

text \<open>
  The loops of \<open>_device_read\<close> and \<open>_device_write\<close>. The result of a read is the buffer it has
  filled; \<open>None\<close> is the result \<open>false\<close>.
\<close>

function read_loop :: "u64 \<Rightarrow> u64 \<Rightarrow> u64 \<Rightarrow> dev \<Rightarrow> u8 list option \<times> dev" where
  "read_loop loc count progress s =
     (if progress < count
      then if block_size s = 0 then (None, s\<lparr>killed := True\<rparr>)
           else case device_cache_block ((loc + progress) div block_size s) s of
                  (False, s') \<Rightarrow> (None, s')
                | (True, s') \<Rightarrow>
                    (let offset = (loc + progress) mod block_size s;
                         chunk = chunk_size (block_size s) (loc + progress) (count - progress);
                         part = take (unat chunk) (drop (unat offset) (dcache s'))
                     in case read_loop loc count (progress + chunk) s' of
                          (r, s'') \<Rightarrow> (map_option ((@) part) r, s''))
      else (Some [], s))"
  by auto

function write_loop :: "u8 list \<Rightarrow> u64 \<Rightarrow> u64 \<Rightarrow> u64 \<Rightarrow> dev \<Rightarrow> bool \<times> dev" where
  "write_loop buffer loc count progress s =
     (if progress < count
      then if block_size s = 0 then (False, s\<lparr>killed := True\<rparr>)
           else case device_cache_block ((loc + progress) div block_size s) s of
                  (False, s') \<Rightarrow> (False, s')
                | (True, s') \<Rightarrow>
                    (let offset = (loc + progress) mod block_size s;
                         chunk = chunk_size (block_size s) (loc + progress) (count - progress);
                         part = take (unat chunk) (drop (unat progress) buffer)
                     in write_loop buffer loc count (progress + chunk)
                          (s'\<lparr>dcache := splice_at (unat offset) part (dcache s'), dcache_state := CACHE_DIRTY\<rparr>))
      else (True, s))"
  by auto

lemma chunk_size_progress:
  assumes "progress < count" "bs \<noteq> 0"
  shows "0 < chunk_size bs a (count - progress)" "unat (progress + chunk_size bs a (count - progress)) =
    unat progress + unat (chunk_size bs a (count - progress))" "unat (chunk_size bs a (count - progress)) \<le> unat count - unat progress"
proof -
  let ?c = "chunk_size bs a (count - progress)"
  have "0 < unat bs" using assms(2) by (simp add: unat_gt_0)
  then have m: "unat (a mod bs) < unat bs" by (simp add: unat_mod)
  then have o: "a mod bs < bs" by (simp add: word_less_nat_alt)
  have d: "unat (count - progress) = unat count - unat progress" using assms(1) by (rule unat_sub[OF order_less_imp_le])
  have b: "unat (bs - a mod bs) = unat bs - unat (a mod bs)" using o by (rule unat_sub[OF order_less_imp_le])
  show "0 < ?c" using assms(1) m b d by (auto simp: chunk_size_def Let_def word_less_nat_alt)
  show le: "unat ?c \<le> unat count - unat progress" using d by (auto simp: chunk_size_def Let_def word_less_nat_alt)
  have "unat progress + unat ?c < 2 ^ 64"
    using le assms(1) unat64[of count] by (simp add: word_less_nat_alt)
  then show "unat (progress + ?c) = unat progress + unat ?c" by (simp add: unat_word_ariths)
qed

lemma loop_decreases:
  assumes "progress < count" "bs \<noteq> 0"
  shows "unat count - unat (progress + chunk_size bs a (count - progress)) < unat count - unat progress"
  using chunk_size_progress[OF assms, of a] assms(1) by (simp add: word_less_nat_alt)

termination read_loop
  by (relation "measure (\<lambda>(loc, count, progress, s). unat count - unat progress)") (auto intro: loop_decreases)

termination write_loop
  by (relation "measure (\<lambda>(buffer, loc, count, progress, s). unat count - unat progress)") (auto intro: loop_decreases)

declare read_loop.simps [simp del] write_loop.simps [simp del]

definition device_read :: "u64 \<Rightarrow> u64 \<Rightarrow> dev \<Rightarrow> u8 list option \<times> dev" where
  "device_read loc count s = read_loop loc count 0 s"

text \<open>
  \<open>_device_write\<close>: unless the tool is undoing its work, the old contents of the range are
  saved first, and the entry becomes part of the log once the range is written.
\<close>

definition device_write :: "u8 list \<Rightarrow> u64 \<Rightarrow> u64 \<Rightarrow> dev \<Rightarrow> unit option \<times> dev" where
  "device_write buffer loc count s =
     (if uninstalling s
      then (case write_loop buffer loc count 0 s of (ok, s) \<Rightarrow> (if ok then Some () else None, s))
      else if UNINSTALL_DATA_MAX \<le> length (udata s) then (None, s)
      else case lib_call s of (ok, s) \<Rightarrow>
             if \<not> ok then (None, s)
             else case device_read loc count s of
                    (None, s) \<Rightarrow> (None, s)
                  | (Some old, s) \<Rightarrow>
                      (case write_loop buffer loc count 0 s of (ok, s) \<Rightarrow>
                         if ok then (Some (), s\<lparr>udata := udata s @ [\<lparr>ud_data = old, ud_loc = loc, ud_count = count\<rparr>]\<rparr>)
                         else (None, s)))"

subsection \<open>Undoing\<close>

text \<open>The reversal of the log goes through a second array.\<close>

definition reverse_uninstall_data :: "dev \<Rightarrow> dev" where
  "reverse_uninstall_data s =
     (let u = udata s; n = length u
      in s\<lparr>udata := fold (\<lambda>i r. r[n - 1 - i := u ! i]) [0..<n] u\<rparr>)"

text \<open>
  One entry of the log: a failed write is retried once, after the cache has been dropped.
  The result tells whether the write failed for good and whether a flush failed.
\<close>

definition uninstall_entry :: "uninstall_data \<Rightarrow> dev \<Rightarrow> (bool \<times> bool) \<times> dev" where
  "uninstall_entry ud s =
     (case device_write (ud_data ud) (ud_loc ud) (ud_count ud) s of
        (Some _, s) \<Rightarrow> ((False, False), s)
      | (None, s) \<Rightarrow>
          (case device_flush_cache s of (flushed, s) \<Rightarrow>
             (case device_write (ud_data ud) (ud_loc ud) (ud_count ud) (s\<lparr>dcache_state := CACHE_CLEAN, cached_block := - 1\<rparr>) of
                (r, s) \<Rightarrow> ((r = None, \<not> flushed), s))))"

fun uninstall_entries :: "uninstall_data list \<Rightarrow> dev \<Rightarrow> (bool \<times> bool) \<times> dev" where
  "uninstall_entries [] s = ((False, False), s)"
| "uninstall_entries (ud # uds) s =
     (case uninstall_entry ud s of ((w, f), s) \<Rightarrow>
        (case uninstall_entries uds s of ((ws, fs), s) \<Rightarrow> ((w \<or> ws, f \<or> fs), s)))"

definition uninstall :: "dev \<Rightarrow> bool \<times> dev" where
  "uninstall s =
     (case uninstall_entries (udata s) (s\<lparr>uninstalling := True, dcache_state := CACHE_CLEAN, cached_block := - 1\<rparr>) of
        ((print_write_fail, flush_fail), s) \<Rightarrow>
          (case device_flush_cache s of (flushed, s) \<Rightarrow>
             (\<not> print_write_fail \<and> \<not> (flush_fail \<or> \<not> flushed), s)))"

subsection \<open>Overflow checks\<close>

lemma mul_u64_overflow_iff: "fst (mul_u64_overflow a b) \<longleftrightarrow> 2 ^ 64 \<le> unat a * unat b"
proof (cases "a = 0")
  case False
  then have "0 < unat a" by (simp add: unat_gt_0)
  then have "(2 ^ 64 - 1) div unat a < unat b \<longleftrightarrow> 2 ^ 64 - 1 < unat b * unat a" by (rule div_less_iff_less_mult)
  then show ?thesis using False by (auto simp: mul_u64_overflow_def word_less_nat_alt unat_div mult.commute)
qed (simp add: mul_u64_overflow_def)

lemma add_u64_overflow_iff: "fst (add_u64_overflow a b) \<longleftrightarrow> 2 ^ 64 \<le> unat a + unat b"
proof -
  have "b \<le> 0xffffffffffffffff" using unat64[of b] by (simp add: word_le_nat_alt)
  then have "unat (0xffffffffffffffff - b) = 2 ^ 64 - 1 - unat b" by (simp add: unat_sub)
  then show ?thesis using unat64[of a] unat64[of b] by (simp add: add_u64_overflow_def word_less_nat_alt) linarith
qed

lemma mul_u64_exact: "mul_u64_overflow a b = (False, c) \<Longrightarrow> unat c = unat a * unat b"
  using mul_u64_overflow_iff[of a b] by (auto simp: mul_u64_overflow_def unat_word_ariths)

end
