(* ===== verification/Lim_Install.thy ===== *)
theory Lim_Install
  imports Lim_Device
begin

unbundle bit_operations_syntax

section \<open>The boot loader tool: installation\<close>

text \<open>
  \<open>bios_install\<close> of \<open>limine-binary/limine.c\<close> and what it calls. A step of the installation
  maps the device to a result and the new device; the result \<open>None\<close> is the jump to the label
  \<open>cleanup\<close>. The boot loader image, the bytes that \<open>rand\<close> returns and the contents of the files
  that are opened are parameters. Structures on the disk are read from their bytes, in
  little-endian order and at the offsets of the C structures, so \<open>ENDSWAP\<close> is the identity.
\<close>

subsection \<open>Steps\<close>

type_synonym 'a io = "dev \<Rightarrow> 'a option \<times> dev"

definition retI :: "'a \<Rightarrow> 'a io" where
  "retI a s = (Some a, s)"

definition failI :: "'a io" where
  "failI s = (None, s)"

definition bindI :: "'a io \<Rightarrow> ('a \<Rightarrow> 'b io) \<Rightarrow> 'b io" where
  "bindI m f s = (case m s of (None, s) \<Rightarrow> (None, s) | (Some a, s) \<Rightarrow> f a s)"

definition thenI :: "'a io \<Rightarrow> 'b io \<Rightarrow> 'b io" where
  "thenI m k = bindI m (\<lambda>_. k)"

definition checkI :: "(dev \<Rightarrow> bool \<times> dev) \<Rightarrow> unit io" where
  "checkI c s = (case c s of (ok, s) \<Rightarrow> (if ok then Some () else None, s))"

fun for_io :: "(nat \<Rightarrow> unit io) \<Rightarrow> nat \<Rightarrow> nat \<Rightarrow> unit io" where
  "for_io f i 0 = retI ()"
| "for_io f i (Suc n) = thenI (f i) (for_io f (Suc i) n)"

subsection \<open>Data on the disk\<close>

fun le_at :: "nat \<Rightarrow> nat \<Rightarrow> u8 list \<Rightarrow> 'a::len word" where
  "le_at 0 i bs = 0"
| "le_at (Suc n) i bs = ucast (bs ! i) OR push_bit 8 (le_at n (Suc i) bs)"

definition le_bytes :: "nat \<Rightarrow> 'a::len word \<Rightarrow> u8 list" where
  "le_bytes n w = map (\<lambda>k. ucast (drop_bit (8 * k) w)) [0..<n]"

definition ascii :: "string \<Rightarrow> u8 list" where
  "ascii str = map of_char str"

record gpt_table_header =
  signature :: "u8 list"
  revision :: u32
  header_size :: u32
  crc32 :: u32
  my_lba :: u64
  alternate_lba :: u64
  first_usable_lba :: u64
  last_usable_lba :: u64
  disk_guid :: "u64 \<times> u64"
  partition_entry_lba :: u64
  number_of_partition_entries :: u32
  size_of_partition_entry :: u32
  partition_entry_array_crc32 :: u32

definition gpt_header_of :: "u8 list \<Rightarrow> gpt_table_header" where
  "gpt_header_of bs = \<lparr>signature = take 8 bs, revision = le_at 4 8 bs, header_size = le_at 4 12 bs, crc32 = le_at 4 16 bs,
     my_lba = le_at 8 24 bs, alternate_lba = le_at 8 32 bs, first_usable_lba = le_at 8 40 bs, last_usable_lba = le_at 8 48 bs,
     disk_guid = (le_at 8 56 bs, le_at 8 64 bs), partition_entry_lba = le_at 8 72 bs,
     number_of_partition_entries = le_at 4 80 bs, size_of_partition_entry = le_at 4 84 bs,
     partition_entry_array_crc32 = le_at 4 88 bs\<rparr>"

record gpt_entry =
  partition_type_guid :: "u64 \<times> u64"
  unique_partition_guid :: "u64 \<times> u64"
  starting_lba :: u64
  ending_lba :: u64
  gpt_attributes :: u64
  partition_name :: "u16 list"

definition gpt_entry_of :: "u8 list \<Rightarrow> gpt_entry" where
  "gpt_entry_of bs = \<lparr>partition_type_guid = (le_at 8 0 bs, le_at 8 8 bs), unique_partition_guid = (le_at 8 16 bs, le_at 8 24 bs),
     starting_lba = le_at 8 32 bs, ending_lba = le_at 8 40 bs, gpt_attributes = le_at 8 48 bs,
     partition_name = map (\<lambda>k. le_at 2 (56 + 2 * k) bs) [0..<36]\<rparr>"

definition read_gpt_header :: "u64 \<Rightarrow> gpt_table_header io" where
  "read_gpt_header loc = bindI (device_read loc 96) (\<lambda>bs. retI (gpt_header_of bs))"

definition read_gpt_entry :: "u64 \<Rightarrow> gpt_entry io" where
  "read_gpt_entry loc = bindI (device_read loc 128) (\<lambda>bs. retI (gpt_entry_of bs))"

subsection \<open>File systems in the way\<close>

text \<open>One known signature: without \<open>--force\<close> it refuses the place, with it the signature is wiped.\<close>

definition hint_check :: "u64 \<Rightarrow> u8 list \<Rightarrow> nat \<Rightarrow> bool \<Rightarrow> bool io" where
  "hint_check loc sig wipe force =
     bindI (device_read loc (of_nat (length sig))) (\<lambda>hint.
       if hint = sig
       then if \<not> force then retI False
            else thenI (device_write (replicate wipe 0) loc (of_nat wipe)) (retI True)
       else retI True)"

fun hint_checks :: "(u64 \<times> u8 list \<times> nat) list \<Rightarrow> bool \<Rightarrow> bool io" where
  "hint_checks [] force = retI True"
| "hint_checks ((loc, sig, wipe) # cs) force =
     bindI (hint_check loc sig wipe force) (\<lambda>ok. if ok then hint_checks cs force else retI False)"

definition validate_or_force :: "u64 \<Rightarrow> bool \<Rightarrow> bool io" where
  "validate_or_force offset force =
     hint_checks [(offset + 3, ascii ''NTFS'', 4), (offset + 54, ascii ''FAT'', 5), (offset + 82, ascii ''FAT'', 5),
       (offset + 3, ascii ''FAT32'', 5), (offset + 1080, le_bytes 2 (0xef53 :: u16), 2)] force"

subsection \<open>Partition tables\<close>

abbreviation (input) is_gpt :: "gpt_table_header \<Rightarrow> bool" where
  "is_gpt h \<equiv> signature h = ascii ''EFI PART''"

fun probe_gpt :: "u64 list \<Rightarrow> (gpt_table_header \<times> u64) option io" where
  "probe_gpt [] = retI None"
| "probe_gpt (g # gs) = bindI (read_gpt_header g) (\<lambda>h. if is_gpt h then retI (Some (h, g)) else probe_gpt gs)"

definition check_secondary :: "gpt_table_header \<Rightarrow> u64 \<Rightarrow> unit io" where
  "check_secondary h lb_size =
     (if size_of_partition_entry h < 128 then failI
      else case mul_u64_overflow lb_size (alternate_lba h) of (ovf, loc) \<Rightarrow>
             if ovf then failI else bindI (read_gpt_header loc) (\<lambda>h2. if is_gpt h2 then retI () else failI))"

record mbr_part =
  lba_start :: u64
  lba_end :: u64
  chs_start :: "u8 list"
  chs_end :: "u8 list"
  ptype :: u8

definition part_of_entry :: "gpt_entry \<Rightarrow> mbr_part option" where
  "part_of_entry e =
     (if 0xffffffff < starting_lba e \<or> 0xffffffff < ending_lba e \<or> 0xffffffff < ending_lba e - starting_lba e + 1 then None
      else map_option (\<lambda>t. \<lparr>lba_start = starting_lba e, lba_end = ending_lba e, chs_start = lba2chs (starting_lba e),
             chs_end = lba2chs (ending_lba e), ptype = t\<rparr>)
             (gpt2mbr_type (fst (partition_type_guid e)) (snd (partition_type_guid e))))"

text \<open>The partitions to convert; \<open>None\<close> when the table cannot be converted.\<close>

fun gather_parts :: "gpt_table_header \<Rightarrow> u64 \<Rightarrow> nat \<Rightarrow> nat \<Rightarrow> mbr_part list \<Rightarrow> mbr_part list option io" where
  "gather_parts h base i 0 ps = retI (Some ps)"
| "gather_parts h base i (Suc n) ps =
     (case add_u64_overflow base (of_nat i * ucast (size_of_partition_entry h)) of (ovf, loc) \<Rightarrow>
        if ovf then retI None
        else bindI (read_gpt_entry loc) (\<lambda>e.
          if unique_partition_guid e = (0, 0) then gather_parts h base (Suc i) n ps
          else if length ps = 4 then retI None
          else case part_of_entry e of
                 None \<Rightarrow> retI None
               | Some p \<Rightarrow> gather_parts h base (Suc i) n (ps @ [p])))"

definition nuke_gpt :: "gpt_table_header \<Rightarrow> u64 \<Rightarrow> unit io" where
  "nuke_gpt h lb_size =
     (let empty_lba = replicate (unat lb_size) 0; alt_lba = alternate_lba h
      in thenI (for_io (\<lambda>i. device_write empty_lba (of_nat i * lb_size) lb_size) 0 34)
           (if 32 \<le> alt_lba
            then for_io (\<lambda>i. case mul_u64_overflow (alt_lba - 32 + of_nat i) lb_size of (ovf, loc) \<Rightarrow>
                               if ovf then failI else device_write empty_lba loc lb_size) 0 33
            else retI ()))"

definition write_mbr_part :: "mbr_part list \<Rightarrow> nat \<Rightarrow> unit io" where
  "write_mbr_part ps i =
     (let p = ps ! i; e = 0x1be + of_nat i * 16
      in thenI (device_write [ptype p] (e + 4) 1)
        (thenI (device_write (le_bytes 4 (ucast (lba_start p) :: u32)) (e + 8) 4)
        (thenI (device_write (le_bytes 4 (ucast (lba_end p - lba_start p + 1) :: u32)) (e + 0xc) 4)
        (thenI (device_write (chs_start p) (e + 1) 3)
               (device_write (chs_end p) (e + 5) 3)))))"

text \<open>An ISO image with a GUID partition table is converted; the result tells whether it still has one.\<close>

definition convert_iso :: "(nat \<Rightarrow> u8) \<Rightarrow> bool \<Rightarrow> gpt_table_header \<Rightarrow> u64 \<Rightarrow> bool io" where
  "convert_iso rnd gpt2mbr_allowed h lb_size =
     (if \<not> gpt2mbr_allowed then retI True
      else bindI (device_read 32769 5) (\<lambda>iso_signature.
        if iso_signature \<noteq> ascii ''CD001'' then retI True
        else case mul_u64_overflow (partition_entry_lba h) lb_size of (ovf, base) \<Rightarrow>
          if ovf then retI True
          else bindI (gather_parts h base 0 (unat (number_of_partition_entries h)) []) (\<lambda>r.
            case r of
              None \<Rightarrow> retI True
            | Some ps \<Rightarrow>
                thenI (checkI lib_call)
                  (thenI (nuke_gpt h lb_size)
                    (thenI (for_io (\<lambda>i. device_write [rnd i] (0x1b8 + of_nat i) 1) 0 4)
                      (thenI (for_io (write_mbr_part ps) 0 (length ps)) (retI False)))))))"

text \<open>The checks of one entry of the MBR table: whether it is plausible, and whether it is active.\<close>

definition mbr_entry :: "bool \<Rightarrow> u64 \<Rightarrow> bool \<times> bool \<Rightarrow> (bool \<times> bool) io" where
  "mbr_entry force p =
     (\<lambda>(mbr, any_active).
       bindI (device_read p 1) (\<lambda>b.
       bindI (if b ! 0 \<noteq> 0 \<and> b ! 0 \<noteq> 0x80
              then if \<not> force then retI (False, b ! 0)
                   else thenI (device_write [b ! 0 AND 0x80] p 1) (retI (mbr, b ! 0 AND 0x80))
              else retI (mbr, b ! 0)) (\<lambda>(mbr, hint8).
       let any_active = (any_active \<or> hint8 AND 0x80 \<noteq> 0)
       in bindI (device_read (p + 4) 1) (\<lambda>t.
            if t ! 0 \<noteq> 0
            then bindI (device_read (p + 8) 4) (\<lambda>d.
                   if (le_at 4 0 d :: u32) < 63 then failI else retI (mbr, any_active))
            else retI (mbr, any_active)))))"

fun mbr_entries :: "bool \<Rightarrow> u64 list \<Rightarrow> bool \<times> bool \<Rightarrow> (bool \<times> bool) io" where
  "mbr_entries force [] r = retI r"
| "mbr_entries force (p # ps) r = bindI (mbr_entry force p r) (mbr_entries force ps)"

definition check_mbr :: "bool \<Rightarrow> bool io" where
  "check_mbr force =
     bindI (mbr_entries force [446, 462, 478, 494] (True, False)) (\<lambda>(mbr, any_active).
     bindI (if mbr then validate_or_force 0 force else retI False) (\<lambda>mbr.
     thenI (if mbr \<and> \<not> any_active then device_write [0x80] 446 1 else retI ()) (retI mbr)))"

subsection \<open>The place of stage 2\<close>

text \<open>
  The number that \<open>sscanf\<close> reads from the command line: blanks, a sign, decimal digits; the
  value is that of a 64-bit \<open>strtoul\<close>, cut to 32 bits.
\<close>

definition is_digit :: "char \<Rightarrow> bool" where
  "is_digit c \<longleftrightarrow> c \<in> set ''0123456789''"

definition scan_u32 :: "string \<Rightarrow> u32 option" where
  "scan_u32 str =
     (let cs = dropWhile (\<lambda>c. c \<in> {CHR '' '', CHR 0x09, CHR 0x0a, CHR 0x0b, CHR 0x0c, CHR 0x0d}) str;
          neg = (take 1 cs = ''-'');
          ds = takeWhile is_digit (if take 1 cs = ''-'' \<or> take 1 cs = ''+'' then drop 1 cs else cs);
          n = fold (\<lambda>c n. n * 10 + (of_char c - 48)) ds (0 :: nat)
      in if ds = [] then None
         else if 2 ^ 64 \<le> n then Some (- 1)
         else Some (ucast (if neg then - of_nat n else of_nat n :: u64)))"

definition bios_boot_guid :: "u64 \<times> u64" where
  "bios_boot_guid = (le_at 8 0 (ascii ''Hah!IdontNeedEFI''), le_at 8 8 (ascii ''Hah!IdontNeedEFI''))"

definition gpt_entry_at :: "gpt_table_header \<Rightarrow> u64 \<Rightarrow> u32 \<Rightarrow> gpt_entry io" where
  "gpt_entry_at h base i =
     (case add_u64_overflow base (ucast i * ucast (size_of_partition_entry h)) of (ovf, loc) \<Rightarrow>
        if ovf then failI else read_gpt_entry loc)"

definition chosen_part :: "gpt_table_header \<Rightarrow> u64 \<Rightarrow> bool \<Rightarrow> string \<Rightarrow> gpt_entry io" where
  "chosen_part h base force part_ndx =
     (case scan_u32 part_ndx of
        None \<Rightarrow> failI
      | Some n \<Rightarrow>
          (let partition_num = n - 1
           in if number_of_partition_entries h \<le> partition_num then failI
              else bindI (gpt_entry_at h base partition_num) (\<lambda>e.
                if unique_partition_guid e = (0, 0) then failI
                else if \<not> force \<and> partition_type_guid e \<noteq> bios_boot_guid then failI
                else retI e)))"

fun detect_part :: "gpt_table_header \<Rightarrow> u64 \<Rightarrow> nat \<Rightarrow> nat \<Rightarrow> gpt_entry io" where
  "detect_part h base i 0 = failI"
| "detect_part h base i (Suc n) =
     bindI (gpt_entry_at h base (of_nat i)) (\<lambda>e.
       if partition_type_guid e = bios_boot_guid then retI e else detect_part h base (Suc i) n)"

definition gpt_stage2 :: "gpt_table_header \<Rightarrow> u64 \<Rightarrow> bool \<Rightarrow> string option \<Rightarrow> u64 io" where
  "gpt_stage2 h lb_size force part_ndx =
     (case mul_u64_overflow (partition_entry_lba h) lb_size of (ovf, base) \<Rightarrow>
        if ovf then failI
        else bindI (case part_ndx of
                      Some n \<Rightarrow> chosen_part h base force n
                    | None \<Rightarrow> detect_part h base 0 (unat (number_of_partition_entries h))) (\<lambda>e.
          if ending_lba e < starting_lba e then failI
          else case mul_u64_overflow (ending_lba e - starting_lba e + 1) lb_size of (ovf, part_size) \<Rightarrow>
            if ovf \<or> part_size < 32768 then failI
            else case mul_u64_overflow (starting_lba e) lb_size of (ovf, stage2_loc) \<Rightarrow>
              if ovf then failI
              else bindI (validate_or_force stage2_loc force) (\<lambda>valid. if valid then retI stage2_loc else failI)))"

subsection \<open>Writing the stages\<close>

definition write_stages :: "u8 list \<Rightarrow> u64 \<Rightarrow> unit io" where
  "write_stages bootloader_img stage2_loc =
     bindI (device_read 218 6) (\<lambda>timestamp.
     bindI (device_read 440 70) (\<lambda>orig_mbr.
     thenI (device_write (take 512 bootloader_img) 0 512)
     (thenI (device_write (drop 512 bootloader_img) stage2_loc (of_nat (length bootloader_img - 512)))
     (thenI (device_write (le_bytes 8 stage2_loc) 0x1a4 8)
     (thenI (device_write timestamp 218 6)
     (thenI (device_write orig_mbr 440 70)
            (checkI device_flush_cache)))))))"

record options =
  force :: bool
  gpt2mbr_allowed :: bool
  uninstall_mode :: bool
  quiet :: bool
  uninstall_file :: "string option"
  device_name :: "string option"
  part_ndx :: "string option"

definition options0 :: options where
  "options0 = \<lparr>force = False, gpt2mbr_allowed = True, uninstall_mode = False, quiet = False, uninstall_file = None,
     device_name = None, part_ndx = None\<rparr>"

text \<open>The body of \<open>bios_install\<close> between \<open>device_init\<close> and the label \<open>cleanup\<close>.\<close>

definition install :: "options \<Rightarrow> u8 list \<Rightarrow> (nat \<Rightarrow> u8) \<Rightarrow> unit io" where
  "install opts bootloader_img rnd =
     bindI (probe_gpt [512, 4096]) (\<lambda>g.
     bindI (case g of
              None \<Rightarrow> retI None
            | Some (h, lb_size) \<Rightarrow>
                thenI (check_secondary h lb_size)
                  (bindI (convert_iso rnd (gpt2mbr_allowed opts) h lb_size) (\<lambda>gpt. retI (if gpt then g else None)))) (\<lambda>g.
     bindI (case g of
              None \<Rightarrow> bindI (check_mbr (force opts)) (\<lambda>mbr. if mbr then retI 512 else failI)
            | Some (h, lb_size) \<Rightarrow> gpt_stage2 h lb_size (force opts) (part_ndx opts)) (\<lambda>stage2_loc.
       write_stages bootloader_img stage2_loc)))"

subsection \<open>The file of undo data\<close>

text \<open>
  \<open>fwrite\<close> of one element to the file, and \<open>fread\<close> of one element from it: an element of
  size zero is never transferred, so the call reports a failure.
\<close>

definition put_elem :: "u8 list \<Rightarrow> u8 list \<Rightarrow> u8 list io" where
  "put_elem file bs s = (case lib_call s of (ok, s) \<Rightarrow> if ok \<and> bs \<noteq> [] then (Some (file @ bs), s) else (None, s))"

definition get_elem :: "nat \<Rightarrow> u8 list \<Rightarrow> (u8 list \<times> u8 list) io" where
  "get_elem n file s =
     (case lib_call s of (ok, s) \<Rightarrow> if ok \<and> 0 < n \<and> n \<le> length file then (Some (take n file, drop n file), s) else (None, s))"

fun store_entries :: "uninstall_data list \<Rightarrow> u8 list \<Rightarrow> u8 list io" where
  "store_entries [] file = retI file"
| "store_entries (u # us) file =
     bindI (put_elem file (le_bytes 8 (ud_loc u))) (\<lambda>file.
     bindI (put_elem file (le_bytes 8 (ud_count u))) (\<lambda>file.
     bindI (put_elem file (take (unat (ud_count u)) (ud_data u))) (store_entries us)))"

text \<open>\<open>store_uninstall_data\<close>: the contents of the file, or \<open>None\<close> for the result \<open>false\<close>.\<close>

definition store_uninstall_data :: "u8 list io" where
  "store_uninstall_data s =
     thenI (checkI lib_call)
       (bindI (put_elem [] (le_bytes 8 (of_nat (length (udata s)) :: u64))) (store_entries (udata s))) s"

fun load_entries :: "nat \<Rightarrow> u8 list \<Rightarrow> uninstall_data list \<Rightarrow> uninstall_data list io" where
  "load_entries 0 file us = retI us"
| "load_entries (Suc n) file us =
     bindI (get_elem 8 file) (\<lambda>(loc, file).
     bindI (get_elem 8 file) (\<lambda>(count, file).
     thenI (checkI lib_call)
       (bindI (get_elem (unat (le_at 8 0 count :: u64)) file) (\<lambda>(data, file).
          load_entries n file (us @ [\<lparr>ud_data = data, ud_loc = le_at 8 0 loc, ud_count = le_at 8 0 count\<rparr>])))))"

definition load_uninstall_data :: "u8 list \<Rightarrow> unit io" where
  "load_uninstall_data file =
     thenI (checkI lib_call)
       (bindI (get_elem 8 file) (\<lambda>(n, file).
          let i = (le_at 8 0 n :: u64)
          in if of_nat UNINSTALL_DATA_MAX < i then failI
             else bindI (load_entries (unat i) file []) (\<lambda>us s. (Some (), s\<lparr>udata := us\<rparr>))))"

subsection \<open>The command\<close>

text \<open>The exit status and the file of undo data that was written.\<close>

definition run_install :: "options \<Rightarrow> u8 list \<Rightarrow> (nat \<Rightarrow> u8) \<Rightarrow> dev \<Rightarrow> bool \<times> u8 list option \<times> dev" where
  "run_install opts bootloader_img rnd s =
     (case device_init s of
        (False, s) \<Rightarrow> (False, None, s)
      | (True, s) \<Rightarrow>
          (case install opts bootloader_img rnd s of
             (None, s) \<Rightarrow> (False, None, snd (uninstall (reverse_uninstall_data s)))
           | (Some _, s) \<Rightarrow>
               (case (if uninstall_file opts = None then retI [] else store_uninstall_data) (reverse_uninstall_data s) of
                  (file, s) \<Rightarrow> (True, if uninstall_file opts = None then None else file, s))))"

definition run_uninstall :: "u8 list option \<Rightarrow> dev \<Rightarrow> bool \<times> dev" where
  "run_uninstall file s =
     (case device_init s of
        (False, s) \<Rightarrow> (False, s)
      | (True, s) \<Rightarrow>
          (case file of
             None \<Rightarrow> (False, s)
           | Some bs \<Rightarrow>
               (case load_uninstall_data bs s of
                  (None, s) \<Rightarrow> (False, s)
                | (Some _, s) \<Rightarrow> uninstall s)))"

datatype parsed = Help | Wrong | Parsed options

text \<open>The command line; \<open>can_open\<close> tells which files can be opened as the device.\<close>

fun parse_args :: "(string \<Rightarrow> bool) \<Rightarrow> string list \<Rightarrow> options \<Rightarrow> parsed" where
  "parse_args can_open [] opts = Parsed opts"
| "parse_args can_open (a # as) opts =
     (if a = ''--help'' \<or> a = ''-h'' then Help
      else if a = ''--quiet'' then parse_args can_open as (opts\<lparr>quiet := True\<rparr>)
      else if a = ''--force'' then parse_args can_open as (opts\<lparr>force := True\<rparr>)
      else if a = ''--no-gpt-to-mbr-isohybrid-conversion'' then parse_args can_open as (opts\<lparr>gpt2mbr_allowed := False\<rparr>)
      else if a = ''--uninstall'' then parse_args can_open as (opts\<lparr>uninstall_mode := True\<rparr>)
      else if take 22 a = ''--uninstall-data-file=''
           then if drop 22 a = [] then Wrong else parse_args can_open as (opts\<lparr>uninstall_file := Some (drop 22 a)\<rparr>)
      else if device_name opts \<noteq> None then parse_args can_open as (opts\<lparr>part_ndx := Some a\<rparr>)
      else if can_open a then parse_args can_open as (opts\<lparr>device_name := Some a\<rparr>)
      else Wrong)"

text \<open>
  The files that the tool opens are parameters: the contents of the device and of the file
  of undo data. \<open>Inl\<close> is an exit before the device is touched.
\<close>

definition bios_install ::
  "(string \<Rightarrow> u8 list option) \<Rightarrow> (nat \<Rightarrow> bool) \<Rightarrow> u8 list \<Rightarrow> (nat \<Rightarrow> u8) \<Rightarrow> string list \<Rightarrow> bool + (bool \<times> u8 list option \<times> dev)"
where
  "bios_install files ok bootloader_img rnd args =
     (if args = [] then Inl False
      else case parse_args (\<lambda>f. files f \<noteq> None) args options0 of
        Help \<Rightarrow> Inl True
      | Wrong \<Rightarrow> Inl False
      | Parsed opts \<Rightarrow>
          (case Option.bind (device_name opts) files of
             None \<Rightarrow> Inl False
           | Some d \<Rightarrow>
               Inr (if uninstall_mode opts
                    then (case run_uninstall (Option.bind (uninstall_file opts) files) (dev_start d ok) of (r, s) \<Rightarrow> (r, None, s))
                    else run_install opts bootloader_img rnd (dev_start d ok))))"

end
