(* ===== verification/Lim_Cache.thy ===== *)
theory Lim_Cache
  imports Lim_Device
begin

section \<open>The block cache is a flat device\<close>

text \<open>
  What the operations on the cached device mean: \<open>byte_at\<close> is the byte that the tool sees at
  an address, in the cache or on the device. On a device whose calls do not fail, loading
  and flushing blocks leave every such byte as it is, a read returns the bytes of its range,
  and a write changes exactly them. A range is readable when every block that it meets lies
  completely on the device.
\<close>

subsection \<open>The bytes of the device\<close>

definition bsize :: "dev \<Rightarrow> nat" where
  "bsize s = unat (block_size s)"

definition block_start :: "dev \<Rightarrow> nat" where
  "block_start s = unat (cached_block s) * bsize s"

definition byte_at :: "dev \<Rightarrow> nat \<Rightarrow> u8" where
  "byte_at s x = (if block_start s \<le> x \<and> x < block_start s + bsize s then dcache s ! (x - block_start s) else disk s ! x)"

definition whole :: "dev \<Rightarrow> nat \<Rightarrow> bool" where
  "whole s b \<longleftrightarrow> b * bsize s + bsize s \<le> length (disk s)"

definition readable :: "dev \<Rightarrow> nat \<Rightarrow> nat \<Rightarrow> bool" where
  "readable s a n \<longleftrightarrow> (\<forall>x. a \<le> x \<and> x < a + n \<longrightarrow> whole s (x div bsize s))"

definition reliable :: "dev \<Rightarrow> bool" where
  "reliable s \<longleftrightarrow> (\<forall>n. lib_ok s n)"

text \<open>
  The invariant of the cache: it holds a block of the device, or none, which the block
  number \<open>-1\<close> stands for; a clean cache agrees with the device.
\<close>

definition dev_wf :: "dev \<Rightarrow> bool" where
  "dev_wf s \<longleftrightarrow>
     512 \<le> bsize s \<and> bsize s \<le> 4096 \<and> length (dcache s) = bsize s \<and> length (disk s) < 2 ^ 63 \<and>
     (cached_block s = - 1 \<and> dcache_state s = CACHE_CLEAN \<or> whole s (unat (cached_block s))) \<and>
     (dcache_state s = CACHE_CLEAN \<and> whole s (unat (cached_block s)) \<longrightarrow>
        dcache s = take (bsize s) (drop (block_start s) (disk s)))"

definition frame :: "dev \<Rightarrow> dev \<Rightarrow> bool" where
  "frame s t \<longleftrightarrow> udata t = udata s \<and> uninstalling t = uninstalling s \<and> block_size t = block_size s \<and>
     lib_ok t = lib_ok s \<and> killed t = killed s \<and> length (disk t) = length (disk s) \<and> length (dcache t) = length (dcache s)"

text \<open>A step that may only bring the device closer to what the tool sees.\<close>

definition settles :: "dev \<Rightarrow> dev \<Rightarrow> bool" where
  "settles s t \<longleftrightarrow> frame s t \<and> (\<forall>x<length (disk s). disk t ! x = disk s ! x \<or> disk t ! x = byte_at s x)"

definition same_view :: "dev \<Rightarrow> dev \<Rightarrow> bool" where
  "same_view s t \<longleftrightarrow> settles s t \<and> dev_wf t \<and> (\<forall>x<length (disk s). byte_at t x = byte_at s x)"

lemma frame_trans: "frame s t \<Longrightarrow> frame t u \<Longrightarrow> frame s u"
  by (simp add: frame_def)

lemma frameD:
  assumes "frame s t"
  shows "bsize t = bsize s" "length (disk t) = length (disk s)" "whole t = whole s" "readable t = readable s" "reliable t = reliable s"
proof -
  show b: "bsize t = bsize s" "length (disk t) = length (disk s)" using assms by (simp_all add: frame_def bsize_def)
  then show w: "whole t = whole s" by (simp add: whole_def fun_eq_iff)
  then show "readable t = readable s" using b by (simp add: readable_def fun_eq_iff)
  show "reliable t = reliable s" using assms by (simp add: frame_def reliable_def)
qed

lemma settles_trans: "same_view s t \<Longrightarrow> settles t u \<Longrightarrow> settles s u"
proof -
  assume a: "same_view s t" "settles t u"
  have f: "frame s t" "frame t u" using a by (simp_all add: same_view_def settles_def)
  have "disk u ! x = disk s ! x \<or> disk u ! x = byte_at s x" if "x < length (disk s)" for x
    using a that frameD(2)[OF f(1)] unfolding same_view_def settles_def by metis
  then show ?thesis using frame_trans[OF f] by (simp add: settles_def)
qed

lemma same_view_trans: "same_view s t \<Longrightarrow> same_view t u \<Longrightarrow> same_view s u"
proof -
  assume a: "same_view s t" "same_view t u"
  then have "settles s u" using settles_trans by (simp add: same_view_def)
  moreover have "length (disk t) = length (disk s)" using a(1) by (simp add: same_view_def settles_def frame_def)
  ultimately show ?thesis using a by (simp add: same_view_def)
qed

lemma same_view_refl: "dev_wf s \<Longrightarrow> same_view s s"
  by (simp add: same_view_def settles_def frame_def)

lemma same_viewD: "same_view s t \<Longrightarrow> frame s t" "same_view s t \<Longrightarrow> dev_wf t" "same_view s t \<Longrightarrow> settles s t"
  by (simp_all add: same_view_def settles_def)

lemma dev_wfD: "dev_wf s \<Longrightarrow> 512 \<le> bsize s" "dev_wf s \<Longrightarrow> bsize s \<le> 4096" "dev_wf s \<Longrightarrow> length (dcache s) = bsize s"
  "dev_wf s \<Longrightarrow> length (disk s) < 2 ^ 63"
  by (simp_all add: dev_wf_def)

subsection \<open>Lists and words\<close>

lemma splice_at_length: "p + length bs \<le> length xs \<Longrightarrow> length (splice_at p bs xs) = length xs"
  by (simp add: splice_at_def)

lemma splice_at_nth:
  assumes "p + length bs \<le> length xs" "x < length xs"
  shows "splice_at p bs xs ! x = (if p \<le> x \<and> x < p + length bs then bs ! (x - p) else xs ! x)"
  using assms by (auto simp: splice_at_def nth_append min_def)

lemma sint_nonneg: "unat (w :: u64) < 2 ^ 63 \<Longrightarrow> 0 \<le> sint w"
proof -
  assume "unat w < 2 ^ 63"
  then have "int (unat w) < int (2 ^ 63)" by (simp only: of_nat_less_iff)
  then have "uint w < 2 ^ 63" by simp
  moreover have "- (2 ^ 63) \<le> uint w" by (rule order_trans[of _ 0]) simp_all
  ultimately have "sint w = uint w" using signed_take_bit_int_eq_self[of 63 "uint w"] by (simp add: sint_uint)
  then show ?thesis by simp
qed

lemma unat_minus_1: "unat (- 1 :: u64) = 2 ^ 64 - 1"
  by (simp add: unsigned_minus_1_eq_mask mask_eq_exp_minus_1)

lemma slice_eq_map: "p + n \<le> length xs \<Longrightarrow> take n (drop p xs) = map ((!) xs) [p..<p + n]"
  by (rule nth_equalityI) simp_all

subsection \<open>Flushing and loading\<close>

lemma set_pos_ok:
  "reliable s \<Longrightarrow> unat pos < 2 ^ 63 \<Longrightarrow> set_pos pos s = (True, s\<lparr>lib_calls := Suc (lib_calls s), fpos := unat pos\<rparr>)"
  using sint_nonneg[of pos] by (simp add: set_pos_def lib_call_def reliable_def)

text \<open>The two ways to seek agree where both work.\<close>

lemma jump_loop_ok: "reliable s \<Longrightarrow> jump_loop n s = (True, s\<lparr>fpos := fpos s + n * 0x40000000, lib_calls := lib_calls s + n\<rparr>)"
proof (induction n arbitrary: s)
  case (Suc n)
  let ?s = "s\<lparr>lib_calls := Suc (lib_calls s), fpos := fpos s + 0x40000000\<rparr>"
  have "reliable ?s" using Suc.prems by (simp add: reliable_def)
  then show ?case using Suc.IH[of ?s] Suc.prems by (simp add: lib_call_def reliable_def)
qed simp

lemma set_pos_jumps_eq:
  assumes "reliable s" "unat pos < 2 ^ 63"
  shows "fst (set_pos_jumps pos s) = fst (set_pos pos s) \<and> fpos (snd (set_pos_jumps pos s)) = fpos (snd (set_pos pos s)) \<and>
    disk (snd (set_pos_jumps pos s)) = disk (snd (set_pos pos s))"
proof -
  have r: "reliable (s\<lparr>fpos := 0\<rparr>)" using assms(1) by (simp add: reliable_def)
  have "unat (pos div 0x40000000) * 0x40000000 + unat (pos mod 0x40000000) = unat pos" by (simp add: unat_div unat_mod)
  then show ?thesis using assms set_pos_ok[OF assms] jump_loop_ok[OF r, of "unat (pos div 0x40000000)"]
    by (simp add: set_pos_jumps_def Let_def lib_call_def reliable_def)
qed

lemma fread_cache_ok:
  fixes n :: nat and s :: dev
  assumes "reliable s"
  defines "got \<equiv> take n (drop (fpos s) (disk s))"
  shows "fread_cache n s = (0 < n \<and> fpos s + n \<le> length (disk s),
    s\<lparr>lib_calls := Suc (lib_calls s), dcache := got @ drop (length got) (dcache s), fpos := fpos s + length got\<rparr>)"
proof -
  have "0 < n \<and> length got = n \<longleftrightarrow> 0 < n \<and> fpos s + n \<le> length (disk s)" by (auto simp: got_def)
  then show ?thesis using assms(1) by (simp add: fread_cache_def lib_call_def reliable_def got_def)
qed

lemma clean_byte_at:
  assumes "dev_wf s" "dcache_state s = CACHE_CLEAN" "x < length (disk s)"
  shows "byte_at s x = disk s ! x"
proof (cases "whole s (unat (cached_block s))")
  case True
  then have "dcache s = take (bsize s) (drop (block_start s) (disk s))" using assms(1,2) by (simp add: dev_wf_def)
  then show ?thesis using assms(3) by (auto simp: byte_at_def)
next
  case False
  then have "unat (cached_block s) = 2 ^ 64 - 1" using assms(1) by (auto simp: dev_wf_def unat_minus_1)
  then have "length (disk s) \<le> block_start s" using dev_wfD[OF assms(1)] by (simp add: block_start_def)
  then show ?thesis using assms(3) by (simp add: byte_at_def)
qed

lemma flush_view:
  assumes "dev_wf s" "reliable s"
  shows "\<exists>t. device_flush_cache s = (True, t) \<and> same_view s t \<and> dcache_state t = CACHE_CLEAN \<and>
    cached_block t = cached_block s \<and> dcache t = dcache s \<and> (\<forall>x<length (disk s). disk t ! x = byte_at s x)"
proof (cases "dcache_state s")
  case CACHE_CLEAN
  then show ?thesis using same_view_refl[OF assms(1)] clean_byte_at[OF assms(1)] by (simp add: device_flush_cache_def)
next
  case CACHE_DIRTY
  let ?p = "block_start s"
  have w: "whole s (unat (cached_block s))" using assms(1) CACHE_DIRTY by (simp add: dev_wf_def)
  then have p: "?p + bsize s \<le> length (disk s)" by (simp add: whole_def block_start_def)
  have u: "unat (cached_block s * block_size s) = ?p"
    using p dev_wfD(4)[OF assms(1)] by (simp add: unat_word_ariths block_start_def bsize_def)
  let ?t = "s\<lparr>lib_calls := Suc (Suc (lib_calls s)), fpos := ?p + bsize s, disk := splice_at ?p (dcache s) (disk s), dcache_state := CACHE_CLEAN\<rparr>"
  have l: "length (dcache s) = bsize s" using dev_wfD(3)[OF assms(1)] .
  have "device_flush_cache s = (True, ?t)"
    using CACHE_DIRTY set_pos_ok[OF assms(2), of "cached_block s * block_size s"] u p dev_wfD[OF assms(1)] assms(2)
    by (simp add: device_flush_cache_def fwrite_cache_def lib_call_def reliable_def bsize_def)
  moreover have d: "\<forall>x<length (disk s). disk ?t ! x = byte_at s x"
    using p l by (auto simp: splice_at_nth byte_at_def)
  moreover have len: "length (disk ?t) = length (disk s)" using p l by (simp add: splice_at_length)
  moreover have "dcache s = take (bsize s) (drop ?p (splice_at ?p (dcache s) (disk s)))"
    using p l by (intro nth_equalityI) (simp_all add: splice_at_length splice_at_nth)
  moreover have "block_start ?t = ?p" "bsize ?t = bsize s" by (simp_all add: block_start_def bsize_def)
  moreover have v: "byte_at ?t x = byte_at s x" if "x < length (disk s)" for x
    using d that by (auto simp: byte_at_def block_start_def bsize_def)
  ultimately have "dev_wf ?t" using assms(1) w by (auto simp: dev_wf_def whole_def)
  then have "same_view s ?t" using d v len by (simp add: same_view_def settles_def frame_def)
  then show ?thesis using \<open>device_flush_cache s = (True, ?t)\<close> d by (intro exI[of _ ?t]) simp
qed

lemma load_block:
  assumes "dev_wf s" "reliable s" "unat b * bsize s < 2 ^ 64" "dcache_state s = CACHE_CLEAN" "cached_block s \<noteq> b"
  defines "pos \<equiv> unat b * bsize s"
  shows "whole s (unat b) \<Longrightarrow> \<exists>t. device_cache_block b s = (True, t) \<and> same_view s t \<and> cached_block t = b"
    "\<not> whole s (unat b) \<Longrightarrow> \<exists>t. device_cache_block b s = (False, t) \<and> settles s t"
proof -
  note wf = dev_wfD[OF assms(1)]
  have u: "unat (b * block_size s) = pos" using assms(3) by (simp add: unat_word_ariths pos_def bsize_def)
  let ?got = "take (bsize s) (drop pos (disk s))"
  let ?p = "s\<lparr>lib_calls := Suc (lib_calls s), fpos := pos\<rparr>"
  let ?r = "s\<lparr>lib_calls := Suc (Suc (lib_calls s)), fpos := pos + length ?got, dcache := ?got @ drop (length ?got) (dcache s)\<rparr>"
  have fread: "fread_cache (unat (block_size ?p)) ?p = (pos + bsize s \<le> length (disk s), ?r)"
    using fread_cache_ok[of ?p "bsize s"] assms(2) wf(1) by (simp add: reliable_def bsize_def)
  have pos: "set_pos (b * block_size s) s = (True, ?p)" if "0 \<le> sint (b * block_size s)"
    using that u assms(2) by (simp add: set_pos_def lib_call_def reliable_def)
  show "\<exists>t. device_cache_block b s = (True, t) \<and> same_view s t \<and> cached_block t = b" if w: "whole s (unat b)"
  proof -
    have p: "pos + bsize s \<le> length (disk s)" using w by (simp add: whole_def pos_def)
    let ?t = "?r\<lparr>cached_block := b\<rparr>"
    have c: "dcache ?t = ?got" using p wf(3) by simp
    have "0 \<le> sint (b * block_size s)" using u p wf(4) by (intro sint_nonneg) linarith
    then have run: "device_cache_block b s = (True, ?t)"
      using assms(4,5) fread pos p by (simp add: device_cache_block_def)
    have b: "bsize ?t = bsize s" "block_start ?t = pos" "whole ?t = whole s"
      by (simp_all add: bsize_def block_start_def pos_def whole_def fun_eq_iff)
    have "dev_wf ?t" unfolding dev_wf_def b using w wf p assms(4) c by (simp del: dev.simps)
    moreover have "byte_at ?t x = byte_at s x" if "x < length (disk s)" for x
    proof -
      have "byte_at ?t x = disk s ! x" unfolding byte_at_def b using that p wf(3) by (auto simp: nth_append)
      then show ?thesis using clean_byte_at[OF assms(1,4) that] by simp
    qed
    ultimately have "same_view s ?t" using wf p by (simp add: same_view_def settles_def frame_def)
    then show ?thesis using run by (intro exI[of _ ?t]) simp
  qed
  show "\<exists>t. device_cache_block b s = (False, t) \<and> settles s t" if w: "\<not> whole s (unat b)"
  proof (cases "0 \<le> sint (b * block_size s)")
    case True
    have "\<not> pos + bsize s \<le> length (disk s)" using w by (simp add: whole_def pos_def)
    then have run: "device_cache_block b s = (False, ?r)"
      using assms(4,5) fread pos[OF True] by (simp add: device_cache_block_def)
    have "settles s ?r" using wf by (simp add: settles_def frame_def)
    then show ?thesis using run by (intro exI[of _ ?r]) simp
  next
    case False
    then have "device_cache_block b s = (False, s\<lparr>lib_calls := Suc (lib_calls s)\<rparr>)"
      using assms(4,5) by (simp add: device_cache_block_def set_pos_def lib_call_def)
    then show ?thesis by (simp add: settles_def frame_def)
  qed
qed

lemma cache_block_view:
  assumes "dev_wf s" "reliable s" "unat b * bsize s < 2 ^ 64"
  shows "whole s (unat b) \<Longrightarrow> \<exists>t. device_cache_block b s = (True, t) \<and> same_view s t \<and> cached_block t = b"
    "\<not> whole s (unat b) \<Longrightarrow> \<exists>t. device_cache_block b s = (False, t) \<and> settles s t"
proof -
  have "b \<noteq> - 1"
  proof
    assume "b = - 1"
    then have "unat b * bsize s = (2 ^ 64 - 1) * bsize s" by (simp only: unat_minus_1)
    then show False using assms(3) dev_wfD(1)[OF assms(1)] by simp
  qed
  then have ne: "cached_block s \<noteq> b" if "\<not> whole s (unat b)" using assms(1) that by (auto simp: dev_wf_def)
  obtain t where t: "device_flush_cache s = (True, t)" "same_view s t" "dcache_state t = CACHE_CLEAN" "cached_block t = cached_block s"
    using flush_view[OF assms(1,2)] by blast
  have f: "reliable t" "whole t = whole s" "bsize t = bsize s" using assms(2) frameD[OF same_viewD(1)[OF t(2)]] by simp_all
  have run: "device_cache_block b s = device_cache_block b t" if "cached_block s \<noteq> b"
    using t that by (cases "dcache_state s") (simp_all add: device_cache_block_def device_flush_cache_def)
  note load = load_block[OF same_viewD(2)[OF t(2)] f(1), of b, unfolded f(2,3), OF assms(3) t(3)]
  show "\<exists>t. device_cache_block b s = (True, t) \<and> same_view s t \<and> cached_block t = b" if w: "whole s (unat b)"
  proof (cases "cached_block s = b")
    case True
    then show ?thesis using same_view_refl[OF assms(1)] by (simp add: device_cache_block_def)
  next
    case False
    then show ?thesis using load(1)[OF _ w] run same_view_trans[OF t(2)] t(4) by fastforce
  qed
  show "\<exists>t. device_cache_block b s = (False, t) \<and> settles s t" if w: "\<not> whole s (unat b)"
    using load(2)[OF _ w] run ne[OF w] settles_trans[OF t(2)] t(4) by fastforce
qed

subsection \<open>Ranges\<close>

text \<open>The arithmetic of one turn of the loops.\<close>

lemma chunk_facts:
  assumes "dev_wf s" "progress < count" "unat loc + unat progress < 2 ^ 64"
  defines "a \<equiv> unat loc + unat progress" and "n \<equiv> unat count - unat progress"
    and "c \<equiv> unat (chunk_size (block_size s) (loc + progress) (count - progress))"
  shows "unat (loc + progress) = a" "unat ((loc + progress) div block_size s) = a div bsize s"
    "unat ((loc + progress) mod block_size s) = a mod bsize s" "block_size s \<noteq> 0" "0 < c" "c \<le> n"
    "a mod bsize s + c \<le> bsize s" "a div bsize s * bsize s < 2 ^ 64"
    "unat (progress + chunk_size (block_size s) (loc + progress) (count - progress)) = unat progress + c"
    "a mod bsize s + c = bsize s \<or> c = n"
proof -
  let ?c = "chunk_size (block_size s) (loc + progress) (count - progress)"
  show a: "unat (loc + progress) = a" using assms(3) by (simp add: a_def unat_word_ariths)
  show "unat ((loc + progress) div block_size s) = a div bsize s" by (simp add: unat_div a bsize_def)
  show m: "unat ((loc + progress) mod block_size s) = a mod bsize s" by (simp add: unat_mod a bsize_def)
  show nz: "block_size s \<noteq> 0" using dev_wfD(1)[OF assms(1)] by (auto simp: bsize_def)
  note cs = chunk_size_progress[OF assms(2) nz, of "loc + progress"]
  show "0 < c" "c \<le> n" "unat (progress + ?c) = unat progress + c"
    using cs by (simp_all add: c_def n_def word_less_nat_alt)
  have lt: "a mod bsize s < bsize s" using dev_wfD(1)[OF assms(1)] by simp
  then have "(loc + progress) mod block_size s \<le> block_size s" using m by (simp add: word_le_nat_alt bsize_def)
  then have d: "unat (block_size s - (loc + progress) mod block_size s) = bsize s - a mod bsize s"
    using m by (simp add: unat_sub bsize_def)
  have l: "unat (count - progress) = n" using assms(2) by (simp add: n_def unat_sub[OF order_less_imp_le])
  show "a mod bsize s + c \<le> bsize s" "a mod bsize s + c = bsize s \<or> c = n"
    using d l lt by (auto simp: c_def chunk_size_def Let_def word_less_nat_alt)
  have "a div bsize s * bsize s \<le> a" by simp
  then show "a div bsize s * bsize s < 2 ^ 64" using assms(3) a_def by linarith
qed

lemma same_block:
  assumes "a mod b + c \<le> b" "a \<le> x" "x < a + c"
  shows "x div b = (a :: nat) div b" "x - a div b * b = a mod b + (x - a)"
proof -
  have e: "a div b * b + a mod b = a" by simp
  have "a div b * b \<le> x" "x < a div b * b + b" using assms e by linarith+
  then show "x div b = a div b" by (intro div_nat_eqI) (simp_all add: mult.commute)
  show "x - a div b * b = a mod b + (x - a)" using assms(2) e by linarith
qed

lemma readable_split:
  assumes "a mod bsize s + c \<le> bsize s" "0 < c" "c \<le> n"
  shows "readable s a n \<longleftrightarrow> whole s (a div bsize s) \<and> readable s (a + c) (n - c)"
proof -
  have "whole s (x div bsize s)" if "readable s (a + c) (n - c)" "whole s (a div bsize s)" "a \<le> x" "x < a + n" for x
  proof (cases "x < a + c")
    case True
    show ?thesis unfolding same_block(1)[OF assms(1) that(3) True] by (rule that(2))
  next
    case False
    then have "a + c \<le> x" "x < a + c + (n - c)" using that(4) assms(3) by linarith+
    then show ?thesis using that(1) unfolding readable_def by blast
  qed
  moreover have "whole s (a div bsize s)" if "readable s a n"
  proof -
    have "a \<le> a" "a < a + n" using assms(2,3) by linarith+
    then show ?thesis using that unfolding readable_def by blast
  qed
  moreover have "readable s (a + c) (n - c)" if "readable s a n"
    unfolding readable_def
  proof (intro allI impI)
    fix x
    assume "a + c \<le> x \<and> x < a + c + (n - c)"
    then have "a \<le> x" "x < a + n" using assms(3) by linarith+
    then show "whole s (x div bsize s)" using that unfolding readable_def by blast
  qed
  ultimately show ?thesis unfolding readable_def by blast
qed

lemma readable_0 [simp]: "readable s a 0"
  unfolding readable_def by (metis add_0_right leD)

lemma block_byte:
  assumes "dev_wf t" "unat (cached_block t) = a div bsize t" "a mod bsize t + c \<le> bsize t" "a \<le> x" "x < a + c"
  shows "byte_at t x = dcache t ! (a mod bsize t + (x - a))"
proof -
  have e: "a div bsize t * bsize t + a mod bsize t = a" by simp
  have "block_start t = a div bsize t * bsize t" using assms(2) by (simp add: block_start_def)
  moreover have "a div bsize t * bsize t \<le> x" "x < a div bsize t * bsize t + bsize t" using assms(3-5) e by linarith+
  ultimately show ?thesis using same_block(2)[OF assms(3-5)] by (simp only: byte_at_def) simp
qed

text \<open>A block that is loaded for a turn of the loop, and where the next turn starts.\<close>

lemma load_chunk:
  fixes loc progress count :: u64 and s :: dev
  assumes "dev_wf s" "reliable s" "progress < count" "unat loc + unat progress < 2 ^ 64"
  defines "a \<equiv> unat loc + unat progress" and "w \<equiv> chunk_size (block_size s) (loc + progress) (count - progress)"
  assumes "whole s (a div bsize s)"
  shows "\<exists>t. device_cache_block ((loc + progress) div block_size s) s = (True, t) \<and> same_view s t \<and>
    unat (cached_block t) = a div bsize s \<and>
    take (unat w) (drop (unat ((loc + progress) mod block_size s)) (dcache t)) = map (byte_at s) [a..<a + unat w]"
proof -
  note f = chunk_facts[OF assms(1,3,4), folded a_def w_def]
  note cb = cache_block_view[OF assms(1,2), of "(loc + progress) div block_size s", unfolded f(2), OF f(8)]
  obtain t where t: "device_cache_block ((loc + progress) div block_size s) s = (True, t)" "same_view s t"
    "cached_block t = (loc + progress) div block_size s" using cb(1) assms(7) by blast
  note fr = frameD[OF same_viewD(1)[OF t(2)]]
  have c: "unat (cached_block t) = a div bsize s" using t(3) f(2) by simp
  let ?part = "take (unat w) (drop (unat ((loc + progress) mod block_size s)) (dcache t))"
  have "?part = map (byte_at s) [a..<a + unat w]"
  proof (rule nth_equalityI)
    have l: "length (dcache t) = bsize s" using dev_wfD(3)[OF same_viewD(2)[OF t(2)]] fr by simp
    then show len: "length ?part = length (map (byte_at s) [a..<a + unat w])" using f(3,7) by simp
    fix i
    assume "i < length ?part"
    then have i: "i < unat w" using len by simp
    have "a + i < a div bsize s * bsize s + bsize s" using i f(7) div_mult_mod_eq[of a "bsize s"] by linarith
    then have "a + i < length (disk s)" using assms(7) unfolding whole_def by linarith
    then have "byte_at s (a + i) = byte_at t (a + i)" using t(2) by (simp add: same_view_def)
    also have "\<dots> = dcache t ! (a mod bsize s + i)"
      using block_byte[OF same_viewD(2)[OF t(2)], of a "unat w" "a + i"] c f(7) fr(1) i by simp
    finally show "?part ! i = map (byte_at s) [a..<a + unat w] ! i" using i f(3,7) l by simp
  qed
  then show ?thesis using t(1,2) c by blast
qed

lemma next_chunk:
  fixes loc progress count :: u64 and s :: dev
  assumes "dev_wf s" "progress < count" "unat loc + unat progress < 2 ^ 64"
  defines "a \<equiv> unat loc + unat progress" and "w \<equiv> chunk_size (block_size s) (loc + progress) (count - progress)"
  assumes "whole s (a div bsize s)"
  shows "a + unat w \<le> length (disk s)" "unat loc + unat (progress + w) = a + unat w" "unat loc + unat (progress + w) < 2 ^ 64"
    "progress + w \<le> count" "unat count - unat (progress + w) = unat count - unat progress - unat w"
    "a + unat w \<le> unat loc + unat count"
proof -
  note f = chunk_facts[OF assms(1-3), folded a_def w_def]
  show n: "unat loc + unat (progress + w) = a + unat w" "unat count - unat (progress + w) = unat count - unat progress - unat w"
    using f(9) by (simp_all add: a_def)
  have "a + unat w \<le> a div bsize s * bsize s + bsize s" using f(7) div_mult_mod_eq[of a "bsize s"] by linarith
  also have "\<dots> \<le> length (disk s)" using assms(6) by (simp add: whole_def)
  finally show d: "a + unat w \<le> length (disk s)" .
  then show "unat loc + unat (progress + w) < 2 ^ 64" using n dev_wfD(4)[OF assms(1)] by simp
  show "progress + w \<le> count" "a + unat w \<le> unat loc + unat count"
    using f(6,9) assms(2) by (simp_all add: word_le_nat_alt word_less_nat_alt a_def)
qed

lemma readable_in_disk: "dev_wf s \<Longrightarrow> readable s a n \<Longrightarrow> a \<le> x \<Longrightarrow> x < a + n \<Longrightarrow> x < length (disk s)"
proof -
  assume a: "dev_wf s" "readable s a n" "a \<le> x" "x < a + n"
  then have "whole s (x div bsize s)" unfolding readable_def by blast
  moreover have "x mod bsize s < bsize s" using dev_wfD(1)[OF a(1)] by simp
  ultimately show ?thesis using div_mult_mod_eq[of x "bsize s"] unfolding whole_def by linarith
qed

lemma read_loop_view:
  assumes "dev_wf s" "reliable s" "unat loc + unat progress < 2 ^ 64" "progress \<le> count"
  shows "if readable s (unat loc + unat progress) (unat count - unat progress)
    then \<exists>t. read_loop loc count progress s =
        (Some (map (byte_at s) [unat loc + unat progress..<unat loc + unat count]), t) \<and> same_view s t
    else \<exists>t. read_loop loc count progress s = (None, t) \<and> settles s t"
  using assms
proof (induction loc count progress s rule: read_loop.induct)
  case (1 loc count progress s)
  let ?a = "unat loc + unat progress" and ?n = "unat count - unat progress"
  let ?w = "chunk_size (block_size s) (loc + progress) (count - progress)"
  let ?c = "unat ?w" and ?b = "(loc + progress) div block_size s" and ?e = "unat loc + unat count"
  show ?case
  proof (cases "progress < count")
    case False
    then have "progress = count" using "1.prems"(4) by simp
    then show ?thesis using same_view_refl[OF "1.prems"(1)] by (simp add: read_loop.simps)
  next
    case True
    note f = chunk_facts[OF "1.prems"(1) True "1.prems"(3)]
    note split = readable_split[OF f(7,5,6)]
    show ?thesis
    proof (cases "whole s (?a div bsize s)")
      case False
      then have "\<not> readable s ?a ?n" using split by simp
      then show ?thesis using cache_block_view(2)[OF "1.prems"(1,2), of ?b, unfolded f(2), OF f(8) False] True f(4)
        by (auto simp: read_loop.simps[of loc count progress s])
    next
      case w: True
      obtain t where t: "device_cache_block ?b s = (True, t)" "same_view s t"
        "take ?c (drop (unat ((loc + progress) mod block_size s)) (dcache t)) = map (byte_at s) [?a..<?a + ?c]"
        using load_chunk[OF "1.prems"(1,2) True "1.prems"(3) w] by blast
      note n = next_chunk[OF "1.prems"(1) True "1.prems"(3) w]
      note fr = frameD[OF same_viewD(1)[OF t(2)]]
      have "reliable t" using fr "1.prems"(2) by simp
      note ih = "1.IH"[OF True f(4) t(1)[symmetric] refl refl refl refl same_viewD(2)[OF t(2)] this n(3,4), unfolded n(2,5) fr(4)]
      have run: "read_loop loc count progress s =
          (case read_loop loc count (progress + ?w) t of (r, u) \<Rightarrow> (map_option ((@) (map (byte_at s) [?a..<?a + ?c])) r, u))"
        using True f(4) t(1,3) by (subst read_loop.simps) (simp add: Let_def)
      show ?thesis
      proof (cases "readable s (?a + ?c) (?n - ?c)")
        case r: True
        then obtain u where u: "read_loop loc count (progress + ?w) t = (Some (map (byte_at t) [?a + ?c..<?e]), u)" "same_view t u"
          using ih by auto
        have "x < length (disk s)" if "?a + ?c \<le> x" "x < ?e" for x
          using readable_in_disk[OF "1.prems"(1) r that(1)] that(2) f(6) by simp
        then have "map (byte_at t) [?a + ?c..<?e] = map (byte_at s) [?a + ?c..<?e]" using t(2) by (simp add: same_view_def)
        moreover have "[?a..<?e] = [?a..<?a + ?c] @ [?a + ?c..<?e]"
          using n(6) upt_add_eq_append[of ?a "?a + ?c" "?e - (?a + ?c)"] by simp
        ultimately have "read_loop loc count progress s = (Some (map (byte_at s) [?a..<?e]), u)" using run u(1) by simp
        then show ?thesis using split r w same_view_trans[OF t(2) u(2)] by auto
      next
        case False
        then obtain u where "read_loop loc count (progress + ?w) t = (None, u)" "settles t u" using ih by auto
        then show ?thesis using split False run settles_trans[OF t(2)] by auto
      qed
    qed
  qed
qed

text \<open>
  A step that stores bytes: the bytes of the range are those of the buffer, all others are
  seen as before, and outside the range the device only settles.
\<close>

definition stores_range :: "nat \<Rightarrow> nat \<Rightarrow> (nat \<Rightarrow> u8) \<Rightarrow> dev \<Rightarrow> dev \<Rightarrow> bool" where
  "stores_range a n f s t \<longleftrightarrow> frame s t \<and> dev_wf t \<and>
     (\<forall>x<length (disk s). byte_at t x = (if a \<le> x \<and> x < a + n then f x else byte_at s x)) \<and>
     (\<forall>x<length (disk s). \<not> (a \<le> x \<and> x < a + n) \<longrightarrow> disk t ! x = disk s ! x \<or> disk t ! x = byte_at s x)"

lemma stores_range_cong:
  "stores_range a n f s t \<Longrightarrow> (\<And>x. a \<le> x \<Longrightarrow> x < a + n \<Longrightarrow> f x = g x) \<Longrightarrow> stores_range a n g s t"
  unfolding stores_range_def by (metis (no_types, lifting))

lemma stores_range_trans:
  assumes "stores_range a c f s t" "stores_range (a + c) (n - c) f t u" "c \<le> n"
  shows "stores_range a n f s u"
proof -
  have l: "length (disk t) = length (disk s)" using assms(1) by (simp add: stores_range_def frame_def)
  have "byte_at u x = (if a \<le> x \<and> x < a + n then f x else byte_at s x)" if "x < length (disk s)" for x
    using assms l that unfolding stores_range_def by auto
  moreover have "disk u ! x = disk s ! x \<or> disk u ! x = byte_at s x" if "x < length (disk s)" "\<not> (a \<le> x \<and> x < a + n)" for x
  proof -
    have o: "\<not> (a \<le> x \<and> x < a + c)" "\<not> (a + c \<le> x \<and> x < a + c + (n - c))" using that(2) assms(3) by auto
    have 1: "disk t ! x = disk s ! x \<or> disk t ! x = byte_at s x" "byte_at t x = byte_at s x"
      using assms(1) that(1) o(1) unfolding stores_range_def by auto
    have "disk u ! x = disk t ! x \<or> disk u ! x = byte_at t x" using assms(2) that(1) o(2) l unfolding stores_range_def by metis
    then show ?thesis using 1 by auto
  qed
  ultimately show ?thesis using assms(1,2) frame_trans unfolding stores_range_def by blast
qed

lemma store_chunk:
  assumes "same_view s t" "unat (cached_block t) = a div bsize s" "a mod bsize s + length part \<le> bsize s" "whole s (a div bsize s)"
  shows "stores_range a (length part) (\<lambda>x. part ! (x - a)) s
    (t\<lparr>dcache := splice_at (a mod bsize s) part (dcache t), dcache_state := CACHE_DIRTY\<rparr>)"
proof -
  let ?u = "t\<lparr>dcache := splice_at (a mod bsize s) part (dcache t), dcache_state := CACHE_DIRTY\<rparr>" and ?k = "a div bsize s * bsize s"
  note fr = frameD[OF same_viewD(1)[OF assms(1)]] and wf = dev_wfD[OF same_viewD(2)[OF assms(1)]]
  have b: "bsize ?u = bsize s" "block_start ?u = ?k" "block_start t = ?k" "length (disk ?u) = length (disk s)" "whole ?u = whole s"
    using fr assms(2) by (simp_all add: bsize_def block_start_def whole_def fun_eq_iff)
  have l: "length (dcache t) = bsize s" using wf(3) fr(1) by simp
  then have lu: "length (dcache ?u) = bsize s" using assms(3) by (simp add: splice_at_length)
  have wfu: "dev_wf ?u" unfolding dev_wf_def b lu using assms(2,4) wf fr by simp
  have e: "?k + a mod bsize s = a" by simp
  have byte: "byte_at ?u x = (if a \<le> x \<and> x < a + length part then part ! (x - a) else byte_at t x)" for x
  proof (cases "?k \<le> x \<and> x < ?k + bsize s")
    case True
    then have i: "x - ?k < length (dcache t)" using l by linarith
    have "(a mod bsize s \<le> x - ?k \<and> x - ?k < a mod bsize s + length part) = (a \<le> x \<and> x < a + length part)"
      "x - ?k - a mod bsize s = x - a" using True e by linarith+
    then show ?thesis using True splice_at_nth[of "a mod bsize s" part "dcache t" "x - ?k"] i l assms(3) fr(1)
      unfolding byte_at_def b by simp
  next
    case False
    then have "\<not> (a \<le> x \<and> x < a + length part)" using e assms(3) by linarith
    moreover have "byte_at ?u x = disk t ! x" "byte_at t x = disk t ! x" using False fr(1) unfolding byte_at_def b by auto
    ultimately show ?thesis by (simp only: if_False)
  qed
  have d: "disk ?u = disk t" by simp
  have "frame s ?u" using same_viewD(1)[OF assms(1)] l lu fr by (simp add: frame_def)
  then show ?thesis using byte wfu assms(1) unfolding stores_range_def same_view_def settles_def d by simp
qed

lemma write_loop_view:
  assumes "dev_wf s" "reliable s" "unat loc + unat progress < 2 ^ 64" "progress \<le> count" "unat count \<le> length buffer"
    "readable s (unat loc + unat progress) (unat count - unat progress)"
  shows "\<exists>t. write_loop buffer loc count progress s = (True, t) \<and>
    stores_range (unat loc + unat progress) (unat count - unat progress) (\<lambda>x. buffer ! (x - unat loc)) s t"
  using assms
proof (induction buffer loc count progress s rule: write_loop.induct)
  case (1 buffer loc count progress s)
  let ?a = "unat loc + unat progress" and ?n = "unat count - unat progress" and ?f = "\<lambda>x. buffer ! (x - unat loc)"
  let ?w = "chunk_size (block_size s) (loc + progress) (count - progress)"
  let ?c = "unat ?w" and ?b = "(loc + progress) div block_size s" and ?part = "take (unat ?w) (drop (unat progress) buffer)"
  show ?case
  proof (cases "progress < count")
    case False
    then have "progress = count" using "1.prems"(4) by simp
    then show ?thesis using "1.prems"(1) by (auto simp: write_loop.simps stores_range_def frame_def)
  next
    case True
    note f = chunk_facts[OF "1.prems"(1) True "1.prems"(3)]
    have w: "whole s (?a div bsize s)" and rest: "readable s (?a + ?c) (?n - ?c)"
      using "1.prems"(6) readable_split[OF f(7,5,6)] by simp_all
    obtain t where t: "device_cache_block ?b s = (True, t)" "same_view s t" "unat (cached_block t) = ?a div bsize s"
      using load_chunk[OF "1.prems"(1,2) True "1.prems"(3) w] by blast
    note n = next_chunk[OF "1.prems"(1) True "1.prems"(3) w]
    have lp: "length ?part = ?c" using "1.prems"(5) f(6) by simp
    let ?u = "t\<lparr>dcache := splice_at (unat ((loc + progress) mod block_size s)) ?part (dcache t), dcache_state := CACHE_DIRTY\<rparr>"
    have "stores_range ?a ?c (\<lambda>x. ?part ! (x - ?a)) s ?u"
      using store_chunk[OF t(2,3), of ?part] f(3,7) lp w by simp
    then have u: "stores_range ?a ?c ?f s ?u"
      by (rule stores_range_cong) (use "1.prems"(5) f(6) in simp)
    then have fr: "frame s ?u" "dev_wf ?u" by (simp_all add: stores_range_def)
    have "reliable ?u" "readable ?u (?a + ?c) (?n - ?c)" using frameD[OF fr(1)] "1.prems"(2) rest by simp_all
    note ih = "1.IH"[OF True f(4) t(1)[symmetric] refl refl refl refl fr(2) this(1) n(3,4) "1.prems"(5), unfolded n(2,5), OF this(2)]
    have "write_loop buffer loc count progress s = write_loop buffer loc count (progress + ?w) ?u"
      using True f(4) t(1) by (subst write_loop.simps) (simp add: Let_def)
    then show ?thesis using ih stores_range_trans[OF u _ f(6)] by auto
  qed
qed

end
