(* ===== verification/Lim_Undo.thy ===== *)
theory Lim_Undo
  imports Lim_Cache
begin

section \<open>The undo log restores the device\<close>

text \<open>
  The log of \<open>_device_write\<close> as a specification: at every address the first entry of the log
  that covers it holds the original byte, and an address that no entry covers still has it,
  on the device as well as in the cache. Writing back the entries from the last to the first
  therefore restores the device, whatever part of the cache had been flushed before.
\<close>

subsection \<open>Reads and writes\<close>

lemma device_read_view:
  assumes "dev_wf s" "reliable s"
  shows "if readable s (unat loc) (unat count)
    then \<exists>t. device_read loc count s = (Some (map (byte_at s) [unat loc..<unat loc + unat count]), t) \<and> same_view s t
    else \<exists>t. device_read loc count s = (None, t) \<and> settles s t"
proof -
  have "unat loc + unat (0 :: u64) < 2 ^ 64" using unat64[of loc] by simp
  from read_loop_view[OF assms this, of count] show ?thesis by (simp add: device_read_def cong: if_cong)
qed

lemma write_loop_stores:
  assumes "dev_wf s" "reliable s" "unat count \<le> length buffer" "readable s (unat loc) (unat count)"
  shows "\<exists>t. write_loop buffer loc count 0 s = (True, t) \<and> stores_range (unat loc) (unat count) (\<lambda>x. buffer ! (x - unat loc)) s t"
proof -
  have "unat loc + unat (0 :: u64) < 2 ^ 64" using unat64[of loc] by simp
  from write_loop_view[OF assms(1,2) this _ assms(3)] show ?thesis using assms(4) by simp
qed

lemma lib_call_view:
  assumes "dev_wf s" "reliable s"
  shows "lib_call s = (True, s\<lparr>lib_calls := Suc (lib_calls s)\<rparr>)" "same_view s (s\<lparr>lib_calls := Suc (lib_calls s)\<rparr>)"
    "byte_at (s\<lparr>lib_calls := Suc (lib_calls s)\<rparr>) = byte_at s"
proof -
  let ?t = "s\<lparr>lib_calls := Suc (lib_calls s)\<rparr>"
  show "lib_call s = (True, ?t)" using assms(2) by (simp add: lib_call_def reliable_def)
  have b: "bsize ?t = bsize s" "block_start ?t = block_start s" "whole ?t = whole s"
    by (simp_all add: bsize_def block_start_def whole_def fun_eq_iff)
  show "byte_at ?t = byte_at s" by (simp add: byte_at_def fun_eq_iff bsize_def block_start_def)
  then show "same_view s ?t" using assms(1) b by (simp add: same_view_def settles_def frame_def dev_wf_def)
qed

text \<open>A write that is logged, on every outcome: a full log, an unreadable range, success.\<close>

lemma device_write_view:
  assumes "dev_wf s" "reliable s" "\<not> uninstalling s" "unat count \<le> length buffer" "length (udata s) < 256"
  shows "if readable s (unat loc) (unat count)
    then \<exists>t. device_write buffer loc count s = (Some (), t\<lparr>udata := udata s @
          [\<lparr>ud_data = map (byte_at s) [unat loc..<unat loc + unat count], ud_loc = loc, ud_count = count\<rparr>]\<rparr>) \<and>
        stores_range (unat loc) (unat count) (\<lambda>x. buffer ! (x - unat loc)) s t
    else \<exists>t. device_write buffer loc count s = (None, t) \<and> settles s t"
proof -
  let ?s = "s\<lparr>lib_calls := Suc (lib_calls s)\<rparr>"
  note l = lib_call_view[OF assms(1,2)]
  note fs = frameD[OF same_viewD(1)[OF l(2)]]
  have rel: "reliable ?s" using fs(5) assms(2) by simp
  note rd = device_read_view[OF same_viewD(2)[OF l(2)] rel, of loc count]
  have run: "device_write buffer loc count s = (case device_read loc count ?s of (None, t) \<Rightarrow> (None, t)
      | (Some old, t) \<Rightarrow> (case write_loop buffer loc count 0 t of (ok, t) \<Rightarrow>
           if ok then (Some (), t\<lparr>udata := udata t @ [\<lparr>ud_data = old, ud_loc = loc, ud_count = count\<rparr>]\<rparr>) else (None, t)))"
    using assms(3,5) l(1) by (simp add: device_write_def)
  show ?thesis
  proof (cases "readable s (unat loc) (unat count)")
    case True
    obtain t where t: "device_read loc count ?s = (Some (map (byte_at ?s) [unat loc..<unat loc + unat count]), t)" "same_view ?s t"
      using rd True fs(4) by auto
    have st: "same_view s t" using same_view_trans[OF l(2) t(2)] .
    note ft = frameD[OF same_viewD(1)[OF st]]
    obtain u where u: "write_loop buffer loc count 0 t = (True, u)" "stores_range (unat loc) (unat count) (\<lambda>x. buffer ! (x - unat loc)) t u"
      using write_loop_stores[OF same_viewD(2)[OF st] _ assms(4), of loc] ft assms(2) True by auto
    have su: "stores_range (unat loc) (unat count) (\<lambda>x. buffer ! (x - unat loc)) s u"
      using u(2) st frame_trans[OF same_viewD(1)[OF st]] ft unfolding stores_range_def same_view_def settles_def by metis
    have ud: "udata u = udata s" using su by (simp add: stores_range_def frame_def)
    have "device_write buffer loc count s = (Some (), u\<lparr>udata := udata s @
          [\<lparr>ud_data = map (byte_at s) [unat loc..<unat loc + unat count], ud_loc = loc, ud_count = count\<rparr>]\<rparr>)"
      using run t(1)[unfolded l(3)] u(1) ud by simp
    then show ?thesis using True su by auto
  next
    case False
    then obtain t where "device_read loc count ?s = (None, t)" "settles ?s t" using rd fs(4) by auto
    then show ?thesis using False run settles_trans[OF l(2)] by auto
  qed
qed

subsection \<open>The log\<close>

definition covers :: "nat \<Rightarrow> uninstall_data \<Rightarrow> bool" where
  "covers x e \<longleftrightarrow> unat (ud_loc e) \<le> x \<and> x < unat (ud_loc e) + unat (ud_count e)"

definition saved :: "nat \<Rightarrow> uninstall_data \<Rightarrow> u8" where
  "saved x e = ud_data e ! (x - unat (ud_loc e))"

definition entry_ok :: "dev \<Rightarrow> uninstall_data \<Rightarrow> bool" where
  "entry_ok s e \<longleftrightarrow> readable s (unat (ud_loc e)) (unat (ud_count e)) \<and> length (ud_data e) = unat (ud_count e) \<and> 0 < unat (ud_count e)"

text \<open>What the device holds after the entries have been written back, the last one first.\<close>

definition rolled_back :: "uninstall_data list \<Rightarrow> (nat \<Rightarrow> u8) \<Rightarrow> nat \<Rightarrow> u8" where
  "rolled_back es d x = (case find (covers x) es of Some e \<Rightarrow> saved x e | None \<Rightarrow> d x)"

definition undo_log :: "u8 list \<Rightarrow> dev \<Rightarrow> bool" where
  "undo_log orig s \<longleftrightarrow> length (disk s) = length orig \<and> (\<forall>e\<in>set (udata s). entry_ok s e) \<and> length (udata s) \<le> 256 \<and>
     (\<forall>x<length orig. rolled_back (udata s) ((!) (disk s)) x = orig ! x)"

text \<open>While an installation is under way, and after one of its steps has failed.\<close>

definition installing :: "u8 list \<Rightarrow> dev \<Rightarrow> bool" where
  "installing orig s \<longleftrightarrow> dev_wf s \<and> reliable s \<and> \<not> uninstalling s \<and> undo_log orig s \<and>
     (\<forall>x<length orig. rolled_back (udata s) (byte_at s) x = orig ! x)"

definition sized :: "dev \<Rightarrow> bool" where
  "sized s \<longleftrightarrow> 512 \<le> bsize s \<and> bsize s \<le> 4096 \<and> length (dcache s) = bsize s \<and> length (disk s) < 2 ^ 63"

definition restorable :: "u8 list \<Rightarrow> dev \<Rightarrow> bool" where
  "restorable orig s \<longleftrightarrow> sized s \<and> reliable s \<and> undo_log orig s"

lemma find_append: "find P (xs @ ys) = (case find P xs of None \<Rightarrow> find P ys | Some x \<Rightarrow> Some x)"
  by (induction xs) auto

lemma rolled_back_cases:
  "d x = c \<or> d x = e \<Longrightarrow> rolled_back es (\<lambda>_. c) x = r \<Longrightarrow> rolled_back es (\<lambda>_. e) x = r \<Longrightarrow> rolled_back es d x = r"
  by (auto simp: rolled_back_def split: option.splits)

lemma rolled_back_at: "rolled_back es (\<lambda>_. d x) x = rolled_back es d x"
  by (simp add: rolled_back_def)

lemma entry_ok_frame: "frame s t \<Longrightarrow> entry_ok t = entry_ok s"
  using frameD(4) by (simp add: entry_ok_def fun_eq_iff)

lemma installing_settles:
  assumes "installing orig s" "settles s t"
  shows "restorable orig t"
proof -
  note wf = dev_wfD[of s]
  have f: "frame s t" using assms(2) by (simp add: settles_def)
  have "rolled_back (udata s) ((!) (disk t)) x = orig ! x" if "x < length orig" for x
  proof (rule rolled_back_cases)
    show "disk t ! x = disk s ! x \<or> disk t ! x = byte_at s x"
      using assms that by (simp add: settles_def installing_def undo_log_def)
    show "rolled_back (udata s) (\<lambda>_. disk s ! x) x = orig ! x"
      using assms(1) that rolled_back_at[of "udata s" "(!) (disk s)" x] by (simp add: installing_def undo_log_def)
    show "rolled_back (udata s) (\<lambda>_. byte_at s x) x = orig ! x"
      using assms(1) that rolled_back_at[of "udata s" "byte_at s" x] by (simp add: installing_def)
  qed
  then show ?thesis
    using assms(1) f frameD[OF f] entry_ok_frame[OF f] wf
    by (simp add: restorable_def sized_def installing_def undo_log_def frame_def)
qed

lemma installing_same_view:
  assumes "installing orig s" "same_view s t"
  shows "installing orig t"
proof -
  have f: "frame s t" using same_viewD(1)[OF assms(2)] .
  have "byte_at t x = byte_at s x" if "x < length orig" for x
    using assms that by (simp add: same_view_def installing_def undo_log_def)
  then have "rolled_back (udata t) (byte_at t) x = orig ! x" if "x < length orig" for x
    using assms(1) that f rolled_back_at[of "udata s" "byte_at s" x] rolled_back_at[of "udata s" "byte_at t" x]
    by (simp add: installing_def frame_def)
  then show ?thesis
    using assms(1) f frameD(5)[OF f] same_viewD(2)[OF assms(2)] installing_settles[OF assms(1) same_viewD(3)[OF assms(2)]]
    by (simp add: installing_def restorable_def frame_def)
qed

lemma installing_restorable: "installing orig s \<Longrightarrow> restorable orig s"
  using installing_settles[of orig s s] by (simp add: settles_def frame_def)

lemma read_keeps:
  assumes "installing orig s" "device_read loc count s = (r, t)"
  shows "if r = None then restorable orig t else installing orig t"
proof -
  have "dev_wf s" "reliable s" using assms(1) by (simp_all add: installing_def)
  from device_read_view[OF this, of loc count] show ?thesis
    using assms installing_same_view installing_settles by (auto split: if_splits)
qed

lemma rolled_back_snoc:
  "rolled_back (es @ [e]) d x = (if find (covers x) es = None \<and> covers x e then saved x e else rolled_back es d x)"
  by (auto simp: rolled_back_def find_append split: option.splits)

text \<open>
  A logged write keeps the log sound: an address that is covered for the first time is saved
  with the byte that was seen there, and that is the original one.
\<close>

lemma logged_store:
  assumes "installing orig s" "stores_range (unat loc) (unat count) f s t" "readable s (unat loc) (unat count)" "0 < unat count"
    "length (udata s) < 256"
  defines "e \<equiv> \<lparr>ud_data = map (byte_at s) [unat loc..<unat loc + unat count], ud_loc = loc, ud_count = count\<rparr>"
  shows "installing orig (t\<lparr>udata := udata s @ [e]\<rparr>)"
proof -
  let ?t = "t\<lparr>udata := udata s @ [e]\<rparr>"
  have f: "frame s t" "dev_wf t" using assms(2) by (simp_all add: stores_range_def)
  have b: "bsize ?t = bsize t" "block_start ?t = block_start t" "whole ?t = whole t" "byte_at ?t = byte_at t" "readable ?t = readable t"
    by (simp_all add: bsize_def block_start_def whole_def byte_at_def readable_def fun_eq_iff)
  have len: "length (disk s) = length orig" using assms(1) by (simp add: installing_def undo_log_def)
  have ok: "entry_ok ?t = entry_ok s" using entry_ok_frame[OF f(1)] b(5) by (simp add: entry_ok_def fun_eq_iff)
  have eok: "entry_ok s e" using assms(3,4) by (simp add: entry_ok_def e_def)
  have c: "covers x e \<longleftrightarrow> unat loc \<le> x \<and> x < unat loc + unat count" for x by (simp add: covers_def e_def)
  have sv: "saved x e = byte_at s x" if "covers x e" for x
  proof -
    have "x - unat loc < unat count" "unat loc + (x - unat loc) = x" using that c[of x] by linarith+
    then show ?thesis by (simp add: saved_def e_def)
  qed
  have new: "rolled_back (udata s @ [e]) d x = orig ! x"
    if x: "x < length orig" and d: "\<not> covers x e \<Longrightarrow> d x = disk s ! x \<or> d x = byte_at s x" for d x
  proof -
    have o: "rolled_back (udata s) (byte_at s) x = orig ! x" "rolled_back (udata s) ((!) (disk s)) x = orig ! x"
      using assms(1) x by (simp_all add: installing_def undo_log_def)
    show ?thesis
    proof (cases "covers x e")
      case True
      then show ?thesis using o(1) sv[OF True] by (auto simp: rolled_back_def find_append split: option.splits)
    next
      case False
      then have "rolled_back (udata s @ [e]) d x = rolled_back (udata s) d x" by (simp add: rolled_back_snoc)
      also have "\<dots> = orig ! x"
        using rolled_back_cases[of d x "disk s ! x" "byte_at s x" "udata s" "orig ! x"] d[OF False] o
          rolled_back_at[of "udata s" "(!) (disk s)" x] rolled_back_at[of "udata s" "byte_at s" x] by simp
      finally show ?thesis .
    qed
  qed
  have "disk t ! x = disk s ! x \<or> disk t ! x = byte_at s x" "byte_at t x = disk s ! x \<or> byte_at t x = byte_at s x"
    if "x < length orig" "\<not> covers x e" for x
    using assms(2) that len c unfolding stores_range_def by auto
  then have "rolled_back (udata s @ [e]) ((!) (disk t)) x = orig ! x" "rolled_back (udata s @ [e]) (byte_at t) x = orig ! x"
    if "x < length orig" for x using new[OF that, of "(!) (disk t)"] new[OF that, of "byte_at t"] that by blast+
  moreover have "dev_wf ?t" using f(2) b by (simp add: dev_wf_def)
  ultimately show ?thesis
    using assms(1,5) f(1) frameD[OF f(1)] eok len b(4) unfolding installing_def undo_log_def ok
    by (simp add: reliable_def frame_def)
qed

lemma write_keeps:
  assumes "installing orig s" "device_write buffer loc count s = (r, t)" "unat count \<le> length buffer" "0 < unat count"
  shows "if r = None then restorable orig t else installing orig t"
proof (cases "length (udata s) < 256")
  case False
  then have "r = None" "t = s" using assms(1,2) by (simp_all add: device_write_def installing_def)
  then show ?thesis using installing_restorable[OF assms(1)] by simp
next
  case True
  have "dev_wf s" "reliable s" "\<not> uninstalling s" using assms(1) by (simp_all add: installing_def)
  from device_write_view[OF this assms(3) True, of loc] show ?thesis
    using assms(2) logged_store[OF assms(1) _ _ assms(4) True] installing_settles[OF assms(1)] by (auto split: if_splits)
qed

subsection \<open>Writing back\<close>

lemma reverse_by_index: "fold (\<lambda>i r. r[length u - 1 - i := u ! i]) [0..<length u] u = rev u"
proof -
  let ?r = "\<lambda>k. fold (\<lambda>i r. r[length u - 1 - i := u ! i]) [0..<k] u"
  have "length (?r k) = length u \<and> (\<forall>j<length u. ?r k ! j = (if length u - 1 - j < k then u ! (length u - 1 - j) else u ! j))"
    if "k \<le> length u" for k
    using that
  proof (induction k)
    case (Suc k)
    then have ih: "length (?r k) = length u" "\<And>j. j < length u \<Longrightarrow> ?r k ! j = (if length u - 1 - j < k then u ! (length u - 1 - j) else u ! j)"
      by simp_all
    have "?r (Suc k) = (?r k)[length u - 1 - k := u ! k]" by simp
    then show ?case using ih Suc.prems by (auto simp: nth_list_update simp del: fold_simps upt_Suc)
  qed simp
  from this[of "length u"] have "?r (length u) = rev u" by (intro nth_equalityI) (auto simp: rev_nth)
  then show ?thesis .
qed

lemma reverse_uninstall_data_rev: "reverse_uninstall_data s = s\<lparr>udata := rev (udata s)\<rparr>"
  using reverse_by_index[of "udata s"] by (simp add: reverse_uninstall_data_def Let_def)

lemma uninstall_entry_view:
  assumes "dev_wf s" "reliable s" "uninstalling s" "entry_ok s e"
  shows "\<exists>t. uninstall_entry e s = ((False, False), t) \<and> stores_range (unat (ud_loc e)) (unat (ud_count e)) (\<lambda>x. saved x e) s t"
proof -
  obtain t where t: "write_loop (ud_data e) (ud_loc e) (ud_count e) 0 s = (True, t)"
    "stores_range (unat (ud_loc e)) (unat (ud_count e)) (\<lambda>x. ud_data e ! (x - unat (ud_loc e))) s t"
    using write_loop_stores[OF assms(1,2), of "ud_count e" "ud_data e" "ud_loc e"] assms(4) by (auto simp: entry_ok_def)
  then show ?thesis using assms(3) by (simp add: uninstall_entry_def device_write_def saved_def)
qed

lemma uninstall_entries_view:
  assumes "dev_wf s" "reliable s" "uninstalling s" "\<forall>e\<in>set es. entry_ok s e"
  shows "\<exists>t. uninstall_entries es s = ((False, False), t) \<and> dev_wf t \<and> frame s t \<and>
    (\<forall>x<length (disk s). byte_at t x = rolled_back (rev es) (byte_at s) x)"
  using assms
proof (induction es arbitrary: s)
  case Nil
  then show ?case by (simp add: frame_def rolled_back_def)
next
  case (Cons e es)
  obtain t where t: "uninstall_entry e s = ((False, False), t)" "stores_range (unat (ud_loc e)) (unat (ud_count e)) (\<lambda>x. saved x e) s t"
    using uninstall_entry_view[OF Cons.prems(1-3)] Cons.prems(4) by auto
  then have f: "frame s t" "dev_wf t" by (simp_all add: stores_range_def)
  have "reliable t" "uninstalling t" "\<forall>e\<in>set es. entry_ok t e"
    using Cons.prems(2-4) frameD(5)[OF f(1)] f(1) entry_ok_frame[OF f(1)] by (simp_all add: frame_def)
  then obtain u where u: "uninstall_entries es t = ((False, False), u)" "dev_wf u" "frame t u"
    "\<forall>x<length (disk t). byte_at u x = rolled_back (rev es) (byte_at t) x"
    using Cons.IH[OF f(2)] by blast
  have "byte_at u x = rolled_back (rev es @ [e]) (byte_at s) x" if "x < length (disk s)" for x
  proof -
    have "byte_at u x = rolled_back (rev es) (byte_at t) x" using u(4) that frameD(2)[OF f(1)] by simp
    moreover have "byte_at t x = (if covers x e then saved x e else byte_at s x)" using t(2) that by (simp add: stores_range_def covers_def)
    ultimately show ?thesis by (auto simp: rolled_back_def find_append split: option.splits)
  qed
  then show ?case using t(1) u(1-3) frame_trans[OF f(1)] by auto
qed

lemma uninstall_rolls_back:
  assumes "sized s" "reliable s" "\<forall>e\<in>set (udata s). entry_ok s e"
  shows "\<exists>t. uninstall s = (True, t) \<and> length (disk t) = length (disk s) \<and>
    (\<forall>x<length (disk s). disk t ! x = rolled_back (rev (udata s)) ((!) (disk s)) x)"
proof -
  let ?s = "s\<lparr>uninstalling := True, dcache_state := CACHE_CLEAN, cached_block := - 1\<rparr>"
  have b: "bsize ?s = bsize s" "readable ?s = readable s" "block_start ?s = (2 ^ 64 - 1) * bsize s"
    by (simp_all add: bsize_def readable_def whole_def block_start_def fun_eq_iff unat_minus_1)
  have far: "length (disk s) < block_start ?s" using assms(1) b(3) by (simp add: sized_def)
  have bytes: "byte_at ?s x = disk s ! x" if "x < length (disk s)" for x using that far by (simp add: byte_at_def)
  have "\<not> whole ?s (unat (cached_block ?s))" using far by (simp add: whole_def block_start_def)
  then have wf: "dev_wf ?s" using assms(1) b by (simp add: dev_wf_def sized_def)
  have "reliable ?s" "\<forall>e\<in>set (udata s). entry_ok ?s e" using assms(2,3) b(2) by (simp_all add: reliable_def entry_ok_def)
  then obtain t where t: "uninstall_entries (udata s) ?s = ((False, False), t)" "dev_wf t" "frame ?s t"
    "\<forall>x<length (disk ?s). byte_at t x = rolled_back (rev (udata s)) (byte_at ?s) x"
    using uninstall_entries_view[OF wf, of "udata s"] by auto
  have "reliable t" using frameD(5)[OF t(3)] assms(2) by (simp add: reliable_def)
  then obtain u where u: "device_flush_cache t = (True, u)" "same_view t u" "\<forall>x<length (disk t). disk u ! x = byte_at t x"
    using flush_view[OF t(2)] by blast
  have len: "length (disk t) = length (disk s)" "length (disk u) = length (disk t)"
    using frameD(2)[OF t(3)] frameD(2)[OF same_viewD(1)[OF u(2)]] by simp_all
  have "disk u ! x = rolled_back (rev (udata s)) ((!) (disk s)) x" if "x < length (disk s)" for x
    using u(3) t(4) that len bytes[OF that] by (auto simp: rolled_back_def split: option.splits)
  then show ?thesis using t(1) u(1) len by (auto simp: uninstall_def)
qed

lemma restore:
  assumes "restorable orig s"
  shows "\<exists>t. uninstall (reverse_uninstall_data s) = (True, t) \<and> disk t = orig"
proof -
  let ?s = "reverse_uninstall_data s"
  have e: "entry_ok ?s = entry_ok s" "bsize ?s = bsize s"
    by (simp_all add: reverse_uninstall_data_rev entry_ok_def readable_def whole_def bsize_def fun_eq_iff)
  then have f: "sized ?s" "reliable ?s" "\<forall>e\<in>set (udata ?s). entry_ok ?s e" "disk ?s = disk s" "udata ?s = rev (udata s)"
    using assms by (simp_all add: reverse_uninstall_data_rev restorable_def sized_def reliable_def undo_log_def)
  obtain t where t: "uninstall ?s = (True, t)" "length (disk t) = length (disk s)"
    "\<forall>x<length (disk s). disk t ! x = rolled_back (udata s) ((!) (disk s)) x"
    using uninstall_rolls_back[OF f(1-3)] unfolding f(4,5) by auto
  have "disk t = orig" using t assms by (intro nth_equalityI) (simp_all add: restorable_def undo_log_def)
  then show ?thesis using t(1) by blast
qed

end
