(* ===== verification/Lim_Atomic.thy ===== *)
theory Lim_Atomic
  imports Lim_Install Lim_Undo
begin

section \<open>An installation happens completely or not at all\<close>

text \<open>
  The interface between the installer and the device below it is the locale \<open>transaction\<close>:
  every step leads from a good state to a good state, or fails into one that can still be
  restored. In it the whole of \<open>install\<close> is a transaction, step by step along the code. The
  undo log of \<open>Lim_Undo\<close> is an instance.
\<close>

subsection \<open>Transactions\<close>

definition keeps :: "(dev \<Rightarrow> bool) \<Rightarrow> (dev \<Rightarrow> bool) \<Rightarrow> ('a \<Rightarrow> bool) \<Rightarrow> 'a io \<Rightarrow> bool" where
  "keeps good bad Q m \<longleftrightarrow> (\<forall>s. good s \<longrightarrow> (case m s of (None, t) \<Rightarrow> bad t | (Some a, t) \<Rightarrow> good t \<and> Q a))"

named_theorems keeps_intros \<open>steps of a transaction\<close>

text \<open>Facts about the helpers that the steps below need.\<close>

lemma chs_length [simp]: "length (lba2chs x) = 3"
  by (simp add: lba2chs_def Let_def)

lemma part_of_entry_chs: "part_of_entry e = Some p \<Longrightarrow> length (chs_start p) = 3 \<and> length (chs_end p) = 3"
  by (auto simp: part_of_entry_def split: if_splits)

text \<open>The place of stage 2 is the start of a BIOS boot partition of at least 32 KiB.\<close>

definition boot_partition :: "u64 \<Rightarrow> gpt_entry \<Rightarrow> u64 \<Rightarrow> bool" where
  "boot_partition lb e loc \<longleftrightarrow> partition_type_guid e = bios_boot_guid \<and> starting_lba e \<le> ending_lba e \<and>
     mul_u64_overflow (starting_lba e) lb = (False, loc) \<and>
     (\<exists>size. mul_u64_overflow (ending_lba e - starting_lba e + 1) lb = (False, size) \<and> 32768 \<le> size)"

text \<open>
  A run that only looks at the device: \<open>reads a n bs\<close> is what is known of the \<open>n\<close> bytes that
  were read at \<open>a\<close>.
\<close>

locale looking_on =
  fixes good bad :: "dev \<Rightarrow> bool" and reads :: "nat \<Rightarrow> nat \<Rightarrow> u8 list \<Rightarrow> bool"
  assumes weaken: "good s \<Longrightarrow> bad s"
    and read_law: "good s \<Longrightarrow> device_read loc n s = (r, t) \<Longrightarrow>
      case r of None \<Rightarrow> bad t | Some bs \<Rightarrow> good t \<and> reads (unat loc) (unat n) bs"
    and library_law: "good s \<Longrightarrow> lib_call s = (ok, t) \<Longrightarrow> good t"
    and flush_law: "good s \<Longrightarrow> device_flush_cache s = (ok, t) \<Longrightarrow> if ok then good t else bad t"

text \<open>A run that also writes.\<close>

locale transaction = looking_on +
  assumes write_law: "good s \<Longrightarrow> device_write buf loc n s = (w, t) \<Longrightarrow> unat n \<le> length buf \<Longrightarrow> 0 < unat n \<Longrightarrow>
      (if w = None then bad t else good t)"
    and reads_length: "reads a m bs \<Longrightarrow> length bs = m"

context looking_on
begin

abbreviation tx :: "('a \<Rightarrow> bool) \<Rightarrow> 'a io \<Rightarrow> bool" where
  "tx \<equiv> keeps good bad"

lemma tx_ret [keeps_intros]: "Q a \<Longrightarrow> tx Q (retI a)"
  by (simp add: keeps_def retI_def)

lemma tx_fail [keeps_intros]: "tx Q failI"
  by (simp add: keeps_def failI_def weaken)

lemma tx_bind: "tx Q m \<Longrightarrow> (\<And>a. Q a \<Longrightarrow> tx R (f a)) \<Longrightarrow> tx R (bindI m f)"
proof -
  assume m: "tx Q m" and f: "\<And>a. Q a \<Longrightarrow> tx R (f a)"
  show "tx R (bindI m f)"
    unfolding keeps_def
  proof (intro allI impI)
    fix s
    assume "good s"
    obtain r t where r: "m s = (r, t)" by fastforce
    show "case bindI m f s of (None, t) \<Rightarrow> bad t | (Some a, t) \<Rightarrow> good t \<and> R a"
    proof (cases r)
      case None
      then show ?thesis using m \<open>good s\<close> r by (auto simp: keeps_def bindI_def)
    next
      case (Some a)
      then have "good t" "Q a" using m \<open>good s\<close> r by (auto simp: keeps_def)
      then show ?thesis using f[of a] r Some by (simp add: keeps_def bindI_def)
    qed
  qed
qed

lemma tx_then [keeps_intros]: "tx (\<lambda>_. True) m \<Longrightarrow> tx R k \<Longrightarrow> tx R (thenI m k)"
  unfolding thenI_def by (rule tx_bind)

lemma tx_weaken: "tx Q m \<Longrightarrow> (\<And>a. Q a \<Longrightarrow> R a) \<Longrightarrow> tx R m"
  unfolding keeps_def by (fastforce split: prod.splits option.splits)

lemma tx_read: "tx (reads (unat loc) (unat n)) (device_read loc n)"
  unfolding keeps_def using read_law by (fastforce split: prod.splits option.splits)

lemma tx_library [keeps_intros]: "tx (\<lambda>_. True) (checkI lib_call)"
  unfolding keeps_def checkI_def using library_law weaken by (fastforce split: prod.splits option.splits)

lemma tx_flush [keeps_intros]: "tx (\<lambda>_. True) (checkI device_flush_cache)"
  unfolding keeps_def checkI_def
proof (intro allI impI)
  fix s
  assume g: "good s"
  obtain ok t where "device_flush_cache s = (ok, t)" by fastforce
  then show "case case device_flush_cache s of (ok, s) \<Rightarrow> (if ok then Some () else None, s) of
      (None, t) \<Rightarrow> bad t | (Some a, t) \<Rightarrow> good t \<and> True"
    using flush_law[OF g] by (cases ok) simp_all
qed

lemma tx_if [keeps_intros]: "(b \<Longrightarrow> tx Q m) \<Longrightarrow> (\<not> b \<Longrightarrow> tx Q k) \<Longrightarrow> tx Q (if b then m else k)"
  by simp

lemma tx_prod [keeps_intros]: "(\<And>a b. x = (a, b) \<Longrightarrow> tx Q (f a b)) \<Longrightarrow> tx Q (case x of (a, b) \<Rightarrow> f a b)"
  by (cases x) simp

lemma tx_option [keeps_intros]: "tx Q m \<Longrightarrow> (\<And>a. x = Some a \<Longrightarrow> tx Q (f a)) \<Longrightarrow> tx Q (case x of None \<Rightarrow> m | Some a \<Rightarrow> f a)"
  by (cases x) simp_all

lemma tx_for [keeps_intros]: "(\<And>k. i \<le> k \<Longrightarrow> k < i + n \<Longrightarrow> tx (\<lambda>_. True) (f k)) \<Longrightarrow> tx (\<lambda>_. True) (for_io f i n)"
  by (induction n arbitrary: i) (auto intro!: keeps_intros)

lemmas tx_bind_read [keeps_intros] = tx_bind[OF tx_read]

lemma tx_header: "tx (\<lambda>h. \<exists>bs. reads (unat loc) 96 bs \<and> h = gpt_header_of bs) (read_gpt_header loc)"
  unfolding read_gpt_header_def by (intro keeps_intros) auto

abbreviation entry_read :: "gpt_entry \<Rightarrow> bool" where
  "entry_read e \<equiv> \<exists>a bs. reads a 128 bs \<and> e = gpt_entry_of bs"

lemma tx_entry: "tx entry_read (read_gpt_entry loc)"
  unfolding read_gpt_entry_def by (intro keeps_intros) auto

lemmas tx_bind_header [keeps_intros] = tx_bind[OF tx_header]

lemmas tx_bind_entry [keeps_intros] = tx_bind[OF tx_entry]

lemma tx_probe:
  "tx (\<lambda>r. case r of None \<Rightarrow> \<forall>g\<in>set gs. \<exists>bs. reads (unat g) 96 bs \<and> \<not> is_gpt (gpt_header_of bs) | Some (h, g) \<Rightarrow> g \<in> set gs)
     (probe_gpt gs)"
proof (induction gs)
  case (Cons g gs)
  show ?case unfolding probe_gpt.simps
    by (intro keeps_intros tx_weaken[OF Cons.IH]) (auto split: option.splits)
qed (simp add: tx_ret)

lemma tx_secondary: "tx (\<lambda>_. True) (check_secondary h lb)"
  unfolding check_secondary_def by (intro keeps_intros) simp

lemma tx_gather:
  assumes "\<forall>p\<in>set ps. length (chs_start p) = 3 \<and> length (chs_end p) = 3"
  shows "tx (\<lambda>r. case r of None \<Rightarrow> True | Some ps \<Rightarrow> \<forall>p\<in>set ps. length (chs_start p) = 3 \<and> length (chs_end p) = 3)
    (gather_parts h base i n ps)"
  using assms
proof (induction n arbitrary: i ps)
  case (Suc n)
  show ?case unfolding gather_parts.simps
    by (intro keeps_intros Suc.IH) (use Suc.prems part_of_entry_chs in auto)
qed (simp add: tx_ret)

lemma tx_entry_at: "tx entry_read (gpt_entry_at h base i)"
  unfolding gpt_entry_at_def by (intro keeps_intros tx_entry)

lemma tx_chosen: "tx (\<lambda>e. entry_read e \<and> (\<not> b \<longrightarrow> partition_type_guid e = bios_boot_guid)) (chosen_part h base b n)"
  unfolding chosen_part_def Let_def by (intro keeps_intros tx_bind[OF tx_entry_at]) auto

lemma tx_detect: "tx (\<lambda>e. entry_read e \<and> partition_type_guid e = bios_boot_guid) (detect_part h base i n)"
  by (induction n arbitrary: i) (auto intro!: keeps_intros tx_bind[OF tx_entry_at])

lemma tx_part_entry:
  "tx (\<lambda>e. entry_read e \<and> (\<not> b \<longrightarrow> partition_type_guid e = bios_boot_guid))
     (case ndx of Some n \<Rightarrow> chosen_part h base b n | None \<Rightarrow> detect_part h base i k)"
  by (intro tx_option tx_chosen tx_weaken[OF tx_detect]) simp

text \<open>Without \<open>--force\<close> a place is only looked at.\<close>

lemma tx_hint_look: "tx (\<lambda>_. True) (hint_check loc sig wipe False)"
  unfolding hint_check_def by (intro keeps_intros) simp_all

lemma tx_hints_look: "tx (\<lambda>_. True) (hint_checks cs False)"
proof (induction cs)
  case (Cons c cs)
  then show ?case by (cases c) (auto intro!: keeps_intros tx_bind[OF tx_hint_look])
qed (simp add: tx_ret)

lemma tx_stage2_look: "tx (\<lambda>loc. \<exists>e. entry_read e \<and> boot_partition lb e loc) (gpt_stage2 h lb False ndx)"
  unfolding gpt_stage2_def validate_or_force_def
  by (intro keeps_intros tx_bind[OF tx_part_entry] tx_bind[OF tx_hints_look]) (auto simp: boot_partition_def not_less)

end

context transaction
begin

lemma tx_write [keeps_intros]: "unat n \<le> length buf \<Longrightarrow> 0 < unat n \<Longrightarrow> tx (\<lambda>_. True) (device_write buf loc n)"
  unfolding keeps_def using write_law by (fastforce split: prod.splits option.splits)

lemma tx_hint: "0 < wipe \<Longrightarrow> wipe < 2 ^ 64 \<Longrightarrow> tx (\<lambda>_. True) (hint_check loc sig wipe b)"
  unfolding hint_check_def by (intro keeps_intros) (simp_all add: unat_of_nat)

lemma tx_hints: "\<forall>(loc, sig, wipe)\<in>set cs. 0 < wipe \<and> wipe < 2 ^ 64 \<Longrightarrow> tx (\<lambda>_. True) (hint_checks cs b)"
proof (induction cs)
  case (Cons c cs)
  then show ?case by (cases c) (auto intro!: keeps_intros tx_bind[OF tx_hint])
qed (simp add: tx_ret)

lemma tx_validate: "tx (\<lambda>_. True) (validate_or_force loc b)"
  unfolding validate_or_force_def by (rule tx_hints) simp

lemma tx_nuke: "0 < unat lb \<Longrightarrow> tx (\<lambda>_. True) (nuke_gpt h lb)"
  unfolding nuke_gpt_def Let_def by (intro keeps_intros) simp_all

lemma tx_part: "\<forall>p\<in>set ps. length (chs_start p) = 3 \<and> length (chs_end p) = 3 \<Longrightarrow> i < length ps \<Longrightarrow> tx (\<lambda>_. True) (write_mbr_part ps i)"
  unfolding write_mbr_part_def Let_def by (intro keeps_intros) (simp_all add: le_bytes_def)

lemma tx_convert: "0 < unat lb \<Longrightarrow> tx (\<lambda>_. True) (convert_iso rnd allowed h lb)"
  unfolding convert_iso_def by (intro keeps_intros tx_bind[OF tx_gather] tx_nuke tx_part) simp_all

lemma tx_mbr_entry: "tx (\<lambda>_. True) (mbr_entry b p r)"
  unfolding mbr_entry_def Let_def by (intro keeps_intros tx_bind[where Q = "\<lambda>_. True"]) simp_all

lemma tx_mbr_entries: "tx (\<lambda>_. True) (mbr_entries b ps r)"
  by (induction ps arbitrary: r) (auto intro!: keeps_intros tx_bind[OF tx_mbr_entry])

lemma tx_check_mbr: "tx (\<lambda>_. True) (check_mbr b)"
  unfolding check_mbr_def
  by (intro keeps_intros tx_bind[OF tx_mbr_entries] tx_bind[where Q = "\<lambda>_. True"] tx_validate) simp_all

lemma tx_stage2: "tx (\<lambda>_. True) (gpt_stage2 h lb b n)"
  unfolding gpt_stage2_def
  by (intro keeps_intros tx_bind[OF tx_part_entry] tx_bind[OF tx_validate]) simp_all

lemma tx_stages:
  assumes "512 < length img" "length img < 2 ^ 64"
  shows "tx (\<lambda>_. True) (write_stages img loc)"
proof -
  have "unat (of_nat (length img - 512) :: u64) = length img - 512" using assms by (simp add: unat_of_nat del: of_nat_diff)
  then show ?thesis
    unfolding write_stages_def by (intro keeps_intros) (use assms in \<open>auto simp: le_bytes_def simp del: of_nat_diff dest!: reads_length\<close>)
qed

theorem tx_install:
  assumes "512 < length img" "length img < 2 ^ 64"
  shows "tx (\<lambda>_. True) (install opts img rnd)"
proof -
  have probe: "tx (\<lambda>r. case r of None \<Rightarrow> True | Some (h, g) \<Rightarrow> g \<in> set [512, 4096]) (probe_gpt [512, 4096])"
    by (rule tx_weaken[OF tx_probe]) (auto split: option.splits)
  show ?thesis unfolding install_def
    by (rule tx_bind[OF probe], intro keeps_intros tx_bind[where Q = "\<lambda>_. True"] tx_secondary tx_convert tx_check_mbr tx_stage2 tx_stages[OF assms]) auto
qed

end

subsection \<open>The undo log as a transaction\<close>

text \<open>No operation changes the block size once it is known.\<close>

lemma lib_call_block_size: "lib_call s = (r, t) \<Longrightarrow> block_size t = block_size s"
  by (auto simp: lib_call_def)

lemma set_pos_block_size: "set_pos p s = (r, t) \<Longrightarrow> block_size t = block_size s"
  by (auto simp: set_pos_def lib_call_def split: if_splits)

lemma fread_block_size: "fread_cache n s = (r, t) \<Longrightarrow> block_size t = block_size s"
  by (auto simp: fread_cache_def lib_call_def Let_def)

lemma fwrite_block_size: "fwrite_cache n s = (r, t) \<Longrightarrow> block_size t = block_size s"
  by (auto simp: fwrite_cache_def lib_call_def split: if_splits)

lemma flush_block_size: "device_flush_cache s = (r, t) \<Longrightarrow> block_size t = block_size s"
  by (auto simp: device_flush_cache_def dest!: set_pos_block_size fwrite_block_size split: if_splits prod.splits bool.splits)

lemma cache_block_block_size: "device_cache_block b s = (r, t) \<Longrightarrow> block_size t = block_size s"
  by (auto simp: device_cache_block_def dest!: set_pos_block_size fread_block_size flush_block_size
      split: if_splits prod.splits bool.splits)

lemma read_loop_block_size: "read_loop loc n p s = (r, t) \<Longrightarrow> block_size t = block_size s"
proof (induction loc n p s arbitrary: r t rule: read_loop.induct)
  case (1 loc n p s)
  obtain ok u where c: "device_cache_block ((loc + p) div block_size s) s = (ok, u)" by fastforce
  obtain q v where v: "read_loop loc n (p + chunk_size (block_size s) (loc + p) (n - p)) u = (q, v)" by fastforce
  have "block_size v = block_size s" if "p < n" "block_size s \<noteq> 0" "ok"
    using "1.IH"[OF that(1,2) c[symmetric] _ refl refl refl v] cache_block_block_size[OF c] that(3) by simp
  then show ?case using "1.prems" c v cache_block_block_size[OF c] read_loop.simps[of loc n p s]
    by (auto simp: Let_def split: if_splits bool.splits)
qed

lemma write_loop_block_size: "write_loop buf loc n p s = (r, t) \<Longrightarrow> block_size t = block_size s"
proof (induction buf loc n p s arbitrary: r t rule: write_loop.induct)
  case (1 buf loc n p s)
  obtain ok u where c: "device_cache_block ((loc + p) div block_size s) s = (ok, u)" by fastforce
  let ?w = "chunk_size (block_size s) (loc + p) (n - p)"
  let ?u = "u\<lparr>dcache := splice_at (unat ((loc + p) mod block_size s)) (take (unat ?w) (drop (unat p) buf)) (dcache u), dcache_state := CACHE_DIRTY\<rparr>"
  obtain q v where v: "write_loop buf loc n (p + ?w) ?u = (q, v)" by fastforce
  have "block_size v = block_size s" if "p < n" "block_size s \<noteq> 0" "ok"
    using "1.IH"[OF that(1,2) c[symmetric] _ refl refl refl v] cache_block_block_size[OF c] that(3) by simp
  then show ?case using "1.prems" c v cache_block_block_size[OF c] write_loop.simps[of buf loc n p s]
    by (auto simp: Let_def split: if_splits bool.splits)
qed

lemma device_read_block_size: "device_read loc n s = (r, t) \<Longrightarrow> block_size t = block_size s"
  by (simp add: device_read_def read_loop_block_size)

lemma device_write_block_size: "device_write buf loc n s = (r, t) \<Longrightarrow> block_size t = block_size s"
  by (auto simp: device_write_def dest!: lib_call_block_size device_read_block_size write_loop_block_size
      split: if_splits prod.splits option.splits)

definition underway :: "u8 list \<Rightarrow> u64 \<Rightarrow> dev \<Rightarrow> bool" where
  "underway orig b s \<longleftrightarrow> installing orig s \<and> block_size s = b"

interpretation undo: transaction "underway orig b" "restorable orig" "\<lambda>a n bs. length bs = n" for orig b
proof unfold_locales
  fix s t :: dev and loc n :: u64 and r :: "u8 list option" and buf :: "u8 list" and w :: "unit option" and ok :: bool
  assume u: "underway orig b s"
  then have g: "installing orig s" and b: "block_size s = b" by (simp_all add: underway_def)
  then have wf: "dev_wf s" "reliable s" by (simp_all add: installing_def)
  show "restorable orig s" using g by (rule installing_restorable)
  show "case r of None \<Rightarrow> restorable orig t | Some bs \<Rightarrow> underway orig b t \<and> length bs = unat n" if "device_read loc n s = (r, t)"
    using read_keeps[OF g that] device_read_view[OF wf, of loc n] that b device_read_block_size[OF that]
    by (auto simp: underway_def split: if_splits option.splits)
  show "if w = None then restorable orig t else underway orig b t"
    if "device_write buf loc n s = (w, t)" "unat n \<le> length buf" "0 < unat n"
    using write_keeps[OF g that] b device_write_block_size[OF that(1)] by (simp add: underway_def split: if_splits)
  show "underway orig b t" if "lib_call s = (ok, t)"
    using that lib_call_view[OF wf] installing_same_view[OF g] b by (auto simp: underway_def)
  show "if ok then underway orig b t else restorable orig t" if "device_flush_cache s = (ok, t)"
    using that flush_view[OF wf] installing_same_view[OF g] b flush_block_size[OF that] by (auto simp: underway_def)
qed

subsection \<open>Opening the device\<close>

lemma device_init_start:
  assumes "\<forall>n. ok n" "length d < 2 ^ 63"
  shows "512 \<le> length d \<Longrightarrow> \<exists>t. device_init (dev_start d ok) = (True, t) \<and> underway d 512 t \<and> udata t = [] \<and> disk t = d \<and> dcache_state t = CACHE_CLEAN"
    "length d < 512 \<Longrightarrow> \<exists>t. device_init (dev_start d ok) = (False, t) \<and> disk t = d"
proof -
  let ?p = "\<lambda>g s. s\<lparr>lib_calls := Suc (lib_calls s), dcache := take g (dcache s @ replicate g 0), fpos := 0\<rparr>"
  let ?r = "\<lambda>g s. let t = ?p g s in t\<lparr>lib_calls := Suc (lib_calls t), dcache := take g (disk s) @ drop (length (take g (disk s))) (dcache t),
    fpos := length (take g (disk s))\<rparr>"
  have step: "device_guess (g # gs) s = (if 0 < g \<and> g \<le> length (disk s)
      then (True, (?r g s)\<lparr>block_size := of_nat g, dcache_state := CACHE_CLEAN, cached_block := 0\<rparr>)
      else device_guess gs (?r g s))" if "reliable s" for g gs s
    using that fread_cache_ok[of "?p g s" g] by (simp add: lib_call_def reliable_def Let_def)
  have rel: "reliable (dev_start d ok)" using assms(1) by (simp add: reliable_def dev_start_def)
  have relr: "reliable (?r g s)" "disk (?r g s) = disk s" if "reliable s" for g s using that by (simp_all add: reliable_def Let_def)
  show "\<exists>t. device_init (dev_start d ok) = (True, t) \<and> underway d 512 t \<and> udata t = [] \<and> disk t = d \<and> dcache_state t = CACHE_CLEAN" if l: "512 \<le> length d"
  proof -
    let ?t = "(?r 512 (dev_start d ok))\<lparr>block_size := 512, dcache_state := CACHE_CLEAN, cached_block := 0\<rparr>"
    have f: "udata ?t = []" "disk ?t = d" "bsize ?t = 512" "block_start ?t = 0" "dcache ?t = take 512 d" "cached_block ?t = 0"
      "dcache_state ?t = CACHE_CLEAN" "\<not> uninstalling ?t"
      using l by (simp_all add: Let_def dev_start_def bsize_def block_start_def)
    have r: "reliable ?t" using assms(1) by (simp add: Let_def dev_start_def reliable_def)
    have wf: "dev_wf ?t" unfolding dev_wf_def whole_def f using l assms(2) by simp
    have "byte_at ?t x = d ! x" if "x < length d" for x using clean_byte_at[OF wf f(7)] that f(2) by simp
    then have "installing d ?t"
      using wf r f(8) unfolding installing_def undo_log_def f(1,2) by (simp add: rolled_back_def)
    moreover have "device_init (dev_start d ok) = (True, ?t)"
      unfolding device_init_def step[OF rel] using l by (simp add: dev_start_def)
    ultimately show ?thesis using f by (auto simp: underway_def bsize_def)
  qed
  show "\<exists>t. device_init (dev_start d ok) = (False, t) \<and> disk t = d" if l: "length d < 512"
  proof -
    have "\<exists>t. device_guess gs s = (False, t) \<and> disk t = disk s" if "reliable s" "\<forall>g\<in>set gs. length (disk s) < g" for gs s
      using that
    proof (induction gs arbitrary: s)
      case (Cons g gs)
      then have "device_guess (g # gs) s = device_guess gs (?r g s)" using step[OF Cons.prems(1), of g gs] by simp
      then show ?case using Cons.IH[OF relr(1)[OF Cons.prems(1), of g]] Cons.prems relr(2)[OF Cons.prems(1), of g] by simp
    qed simp
    from this[OF rel, of "[512, 2048, 4096]"] show ?thesis using l by (simp add: device_init_def dev_start_def)
  qed
qed

end
