(* ===== verification/Lim_Uninstall.thy ===== *)
theory Lim_Uninstall
  imports Lim_Atomic
begin

unbundle bit_operations_syntax

section \<open>Uninstalling from the file of undo data\<close>

text \<open>
  A successful installation can be undone later, by another run of the tool, from the file
  that the first run has written: numbers survive their byte representation, the log
  survives the file, and the second run writes the log back to the device.
\<close>

subsection \<open>Numbers as bytes\<close>

lemma bit_le_at: "bit (le_at n i bs :: 'a::len word) k \<longleftrightarrow> k < LENGTH('a) \<and> k < 8 * n \<and> bit (bs ! (i + k div 8)) (k mod 8)"
proof (induction n arbitrary: i k)
  case (Suc n)
  show ?case
  proof (cases "k < 8")
    case True
    then show ?thesis by (auto simp: bit_simps Suc.IH dest: bit_imp_le_length)
  next
    case False
    then have "k div 8 = Suc ((k - 8) div 8)" "k mod 8 = (k - 8) mod 8" by (simp_all add: le_div_geq le_mod_geq)
    moreover have "\<not> bit (bs ! i) k" using False by (auto dest: bit_imp_le_length)
    ultimately show ?thesis using False by (auto simp: bit_simps Suc.IH)
  qed
qed simp

lemma le_at_le_bytes:
  assumes "LENGTH('a) = 8 * n"
  shows "le_at n 0 (le_bytes n w) = (w :: 'a::len word)"
proof (rule bit_word_eqI)
  fix k
  assume k: "k < LENGTH('a)"
  then have "k div 8 < n" using assms by (simp add: less_mult_imp_div_less mult.commute)
  then show "bit (le_at n 0 (le_bytes n w) :: 'a word) k \<longleftrightarrow> bit w k"
    using k assms by (simp add: bit_le_at le_bytes_def bit_simps)
qed

lemma length_le_bytes [simp]: "length (le_bytes n w) = n"
  by (simp add: le_bytes_def)

lemma le_bytes_Nil [simp]: "le_bytes n w = [] \<longleftrightarrow> n = 0"
  by (simp add: le_bytes_def)

subsection \<open>The log as a file\<close>

definition later :: "dev \<Rightarrow> dev \<Rightarrow> bool" where
  "later s t \<longleftrightarrow> (\<exists>k. t = s\<lparr>lib_calls := k\<rparr>)"

lemma later_refl: "later s s"
  unfolding later_def by (rule exI[of _ "lib_calls s"]) simp

lemma later_trans: "later s t \<Longrightarrow> later t u \<Longrightarrow> later s u"
  by (auto simp: later_def)

lemma later_reliable: "later s t \<Longrightarrow> reliable t = reliable s"
  by (auto simp: later_def reliable_def)

lemma put_elem_ok: "reliable s \<Longrightarrow> bs \<noteq> [] \<Longrightarrow> \<exists>t. put_elem file bs s = (Some (file @ bs), t) \<and> later s t"
  by (auto simp: put_elem_def lib_call_def reliable_def later_def)

lemma get_elem_ok: "reliable s \<Longrightarrow> bs \<noteq> [] \<Longrightarrow> \<exists>t. get_elem (length bs) (bs @ file) s = (Some (bs, file), t) \<and> later s t"
  by (auto simp: get_elem_def lib_call_def reliable_def later_def)

lemma check_lib_ok: "reliable s \<Longrightarrow> \<exists>t. checkI lib_call s = (Some (), t) \<and> later s t"
  by (auto simp: checkI_def lib_call_def reliable_def later_def)

definition sound_entry :: "uninstall_data \<Rightarrow> bool" where
  "sound_entry u \<longleftrightarrow> length (ud_data u) = unat (ud_count u) \<and> ud_data u \<noteq> []"

definition entry_bytes :: "uninstall_data \<Rightarrow> u8 list" where
  "entry_bytes u = le_bytes 8 (ud_loc u) @ le_bytes 8 (ud_count u) @ ud_data u"

definition log_bytes :: "uninstall_data list \<Rightarrow> u8 list" where
  "log_bytes us = le_bytes 8 (of_nat (length us) :: u64) @ concat (map entry_bytes us)"

lemma store_entries_ok:
  assumes "reliable s" "\<forall>u\<in>set us. sound_entry u"
  shows "\<exists>t. store_entries us fl s = (Some (fl @ concat (map entry_bytes us)), t) \<and> later s t"
  using assms
proof (induction us arbitrary: fl s)
  case Nil
  then show ?case using later_refl by (simp add: retI_def)
next
  case (Cons u us)
  obtain s1 where 1: "put_elem fl (le_bytes 8 (ud_loc u)) s = (Some (fl @ le_bytes 8 (ud_loc u)), s1)" "later s s1"
    using put_elem_ok[OF Cons.prems(1), of "le_bytes 8 (ud_loc u)" fl] by auto
  obtain s2 where 2: "put_elem (fl @ le_bytes 8 (ud_loc u)) (le_bytes 8 (ud_count u)) s1 =
      (Some ((fl @ le_bytes 8 (ud_loc u)) @ le_bytes 8 (ud_count u)), s2)" "later s1 s2"
    using put_elem_ok[of s1 "le_bytes 8 (ud_count u)" "fl @ le_bytes 8 (ud_loc u)"] later_reliable[OF 1(2)] Cons.prems(1) by auto
  obtain s3 where 3: "put_elem ((fl @ le_bytes 8 (ud_loc u)) @ le_bytes 8 (ud_count u)) (ud_data u) s2 = (Some (fl @ entry_bytes u), s3)" "later s2 s3"
    using put_elem_ok[of s2 "ud_data u" "(fl @ le_bytes 8 (ud_loc u)) @ le_bytes 8 (ud_count u)"] later_reliable[OF 1(2)] later_reliable[OF 2(2)]
      Cons.prems by (auto simp: sound_entry_def entry_bytes_def)
  have "later s s3" using 1(2) 2(2) 3(2) later_trans by blast
  moreover obtain t where "store_entries us (fl @ entry_bytes u) s3 = (Some ((fl @ entry_bytes u) @ concat (map entry_bytes us)), t)" "later s3 t"
    using Cons.IH[of s3 "fl @ entry_bytes u"] later_reliable[OF calculation] Cons.prems by auto
  moreover have "take (unat (ud_count u)) (ud_data u) = ud_data u" using Cons.prems(2) by (simp add: sound_entry_def)
  ultimately show ?case using 1(1) 2(1) 3(1) later_trans by (auto simp: bindI_def)
qed

lemma load_entries_ok:
  assumes "reliable s" "\<forall>u\<in>set us. sound_entry u"
  shows "\<exists>t. load_entries (length us) (concat (map entry_bytes us) @ rest) acc s = (Some (acc @ us), t) \<and> later s t"
  using assms
proof (induction us arbitrary: acc s)
  case Nil
  then show ?case using later_refl by (simp add: retI_def)
next
  case (Cons u us)
  let ?tail = "concat (map entry_bytes us) @ rest"
  have ne: "le_bytes 8 w \<noteq> []" for w :: u64 by simp
  obtain s1 where 1: "get_elem 8 (le_bytes 8 (ud_loc u) @ le_bytes 8 (ud_count u) @ ud_data u @ ?tail) s =
      (Some (le_bytes 8 (ud_loc u), le_bytes 8 (ud_count u) @ ud_data u @ ?tail), s1)" "later s s1"
    using get_elem_ok[OF Cons.prems(1) ne, of "ud_loc u"] by fastforce
  obtain s2 where 2: "get_elem 8 (le_bytes 8 (ud_count u) @ ud_data u @ ?tail) s1 =
      (Some (le_bytes 8 (ud_count u), ud_data u @ ?tail), s2)" "later s1 s2"
    using get_elem_ok[OF _ ne, of s1 "ud_count u"] later_reliable[OF 1(2)] Cons.prems(1) by fastforce
  obtain s3 where 3: "checkI lib_call s2 = (Some (), s3)" "later s2 s3"
    using check_lib_ok[of s2] later_reliable[OF 1(2)] later_reliable[OF 2(2)] Cons.prems(1) by auto
  have l3: "later s s3" using 1(2) 2(2) 3(2) later_trans by blast
  obtain s4 where 4: "get_elem (unat (ud_count u)) (ud_data u @ ?tail) s3 = (Some (ud_data u, ?tail), s4)" "later s3 s4"
    using get_elem_ok[of s3 "ud_data u" ?tail] later_reliable[OF l3] Cons.prems by (auto simp: sound_entry_def)
  have l4: "later s s4" using later_trans[OF l3 4(2)] .
  obtain t where "load_entries (length us) ?tail (acc @ [u]) s4 = (Some ((acc @ [u]) @ us), t)" "later s4 t"
    using Cons.IH[of s4 "acc @ [u]"] later_reliable[OF l4] Cons.prems by auto
  moreover have "le_at 8 0 (le_bytes 8 w) = w" for w :: u64 by (rule le_at_le_bytes) simp
  moreover have rec: "\<lparr>ud_data = ud_data u, ud_loc = ud_loc u, ud_count = ud_count u\<rparr> = u" by simp
  ultimately show ?case using 1(1) 2(1) 3(1) 4(1) later_trans[OF l4] by (auto simp: bindI_def thenI_def entry_bytes_def[of u] rec)
qed

lemma store_ok:
  assumes "reliable s" "\<forall>u\<in>set (udata s). sound_entry u"
  shows "\<exists>t. store_uninstall_data s = (Some (log_bytes (udata s)), t) \<and> later s t"
proof -
  let ?n = "le_bytes 8 (of_nat (length (udata s)) :: u64)"
  obtain s1 where 1: "checkI lib_call s = (Some (), s1)" "later s s1" using check_lib_ok[OF assms(1)] by blast
  obtain s2 where 2: "put_elem [] ?n s1 = (Some ?n, s2)" "later s1 s2"
    using put_elem_ok[of s1 ?n "[]"] later_reliable[OF 1(2)] assms(1) by auto
  have l2: "later s s2" using later_trans[OF 1(2) 2(2)] .
  obtain t where "store_entries (udata s) ?n s2 = (Some (?n @ concat (map entry_bytes (udata s))), t)" "later s2 t"
    using store_entries_ok[of s2] later_reliable[OF l2] assms by blast
  then show ?thesis using 1(1) 2(1) later_trans[OF l2] by (auto simp: store_uninstall_data_def thenI_def bindI_def log_bytes_def)
qed

lemma load_ok:
  assumes "reliable s" "\<forall>u\<in>set us. sound_entry u" "length us \<le> 256"
  shows "\<exists>t. load_uninstall_data (log_bytes us) s = (Some (), t\<lparr>udata := us\<rparr>) \<and> later s t"
proof -
  let ?n = "of_nat (length us) :: u64"
  have n: "unat ?n = length us" using assms(3) by (simp add: unat_of_nat)
  obtain s1 where 1: "checkI lib_call s = (Some (), s1)" "later s s1" using check_lib_ok[OF assms(1)] by blast
  obtain s2 where 2: "get_elem 8 (log_bytes us) s1 = (Some (le_bytes 8 ?n, concat (map entry_bytes us)), s2)" "later s1 s2"
    using get_elem_ok[of s1 "le_bytes 8 ?n" "concat (map entry_bytes us)"] later_reliable[OF 1(2)] assms(1)
    by (auto simp: log_bytes_def)
  have l2: "later s s2" using later_trans[OF 1(2) 2(2)] .
  obtain t where "load_entries (length us) (concat (map entry_bytes us)) [] s2 = (Some us, t)" "later s2 t"
    using load_entries_ok[of s2 us "[]" "[]"] later_reliable[OF l2] assms by auto
  moreover have "le_at 8 0 (le_bytes 8 ?n) = ?n" by (rule le_at_le_bytes) simp
  moreover have "\<not> 256 < ?n" using n assms(3) by (simp add: word_less_nat_alt)
  ultimately show ?thesis using 1(1) 2(1) n later_trans[OF l2]
    by (auto simp: load_uninstall_data_def thenI_def bindI_def Let_def)
qed

subsection \<open>From one run to the next\<close>

lemma entry_ok_sound: "entry_ok s e \<Longrightarrow> sound_entry e"
  by (auto simp: entry_ok_def sound_entry_def)

lemma entry_ok_geometry: "block_size t = block_size s \<Longrightarrow> length (disk t) = length (disk s) \<Longrightarrow> entry_ok t = entry_ok s"
  by (simp add: fun_eq_iff entry_ok_def readable_def whole_def bsize_def)

text \<open>What a successful run leaves: the log on the file is one that leads back to the original device.\<close>

lemma run_install_from:
  assumes "device_init (dev_start d ok) = (True, s)" "underway d 512 s" "512 < length img" "length img < 2 ^ 64"
    and "install opts img rnd s = (Some (), u)"
  shows "underway d 512 u" "\<exists>t. run_install opts img rnd (dev_start d ok) =
    (True, if uninstall_file opts = None then None else Some (log_bytes (rev (udata u))), t) \<and> disk t = disk u"
proof -
  show u: "underway d 512 u" using undo.tx_install[OF assms(3,4), of d 512 opts rnd] assms(2,5) by (auto simp: keeps_def)
  let ?u = "u\<lparr>udata := rev (udata u)\<rparr>"
  have "reliable ?u" "\<forall>e\<in>set (udata ?u). sound_entry e"
    using u entry_ok_sound by (auto simp: underway_def installing_def undo_log_def reliable_def)
  then obtain v where "store_uninstall_data ?u = (Some (log_bytes (udata ?u)), v)" "later ?u v" using store_ok by blast
  then show "\<exists>t. run_install opts img rnd (dev_start d ok) =
      (True, if uninstall_file opts = None then None else Some (log_bytes (rev (udata u))), t) \<and> disk t = disk u"
    using assms(1,5) by (auto simp: run_install_def reverse_uninstall_data_rev retI_def later_def)
qed

lemma run_install_inv:
  assumes "\<forall>n. ok n" "length d < 2 ^ 63" "run_install opts img rnd (dev_start d ok) = (True, f, t)"
  shows "512 \<le> length d" "device_init (dev_start d ok) = (True, s) \<Longrightarrow> \<exists>u. install opts img rnd s = (Some (), u)"
proof -
  show "512 \<le> length d" using assms(3) device_init_start(2)[OF assms(1,2)] by (fastforce simp: run_install_def)
  show "\<exists>u. install opts img rnd s = (Some (), u)" if "device_init (dev_start d ok) = (True, s)"
    using assms(3) that by (auto simp: run_install_def split: prod.splits option.splits)
qed

lemma install_success:
  assumes "\<forall>n. ok n" "length d < 2 ^ 63" "512 < length img" "length img < 2 ^ 64"
    and "run_install opts img rnd (dev_start d ok) = (True, f, t)"
  shows "512 \<le> length d \<and> (\<exists>s. underway d 512 s \<and> disk t = disk s \<and>
    (uninstall_file opts \<noteq> None \<longrightarrow> f = Some (log_bytes (rev (udata s)))))"
proof -
  note l = run_install_inv[OF assms(1,2,5)]
  obtain s where s: "device_init (dev_start d ok) = (True, s)" "underway d 512 s" using device_init_start(1)[OF assms(1,2) l(1)] by blast
  obtain u where u: "install opts img rnd s = (Some (), u)" using l(2)[OF s(1)] by blast
  show ?thesis using run_install_from[OF s assms(3,4) u] assms(5) l(1) by auto
qed

end
