(* ===== verification/Lim_Boot.thy ===== *)
theory Lim_Boot
  imports Lim_Uninstall
begin

unbundle bit_operations_syntax

section \<open>What an installation puts on the device\<close>

text \<open>
  The device behind its cache is one array of bytes, which reads slice and writes splice.
  Over that array the steps of the installer have simple rules for total correctness, and
  they compose to the contents of a device after an installation to an MBR disk.
\<close>

subsection \<open>The device as an array of bytes\<close>

definition view :: "dev \<Rightarrow> u8 list" where
  "view s = map (byte_at s) [0..<length (disk s)]"

lemma length_view [simp]: "length (view s) = length (disk s)"
  by (simp add: view_def)

lemma view_nth: "x < length (disk s) \<Longrightarrow> view s ! x = byte_at s x"
  by (simp add: view_def)

lemma view_slice: "a + n \<le> length (disk s) \<Longrightarrow> map (byte_at s) [a..<a + n] = take n (drop a (view s))"
  by (rule nth_equalityI) (simp_all add: view_nth)

lemma same_view_view: "same_view s t \<Longrightarrow> view t = view s"
proof -
  assume a: "same_view s t"
  then have "length (disk t) = length (disk s)" by (rule frameD(2)[OF same_viewD(1)])
  then show ?thesis using a by (intro nth_equalityI) (simp_all add: view_nth same_view_def)
qed

lemma stores_range_view:
  assumes "stores_range a n (\<lambda>x. buf ! (x - a)) s t" "a + n \<le> length (disk s)" "n \<le> length buf"
  shows "view t = splice_at a (take n buf) (view s)"
proof -
  have l: "length (disk t) = length (disk s)" using assms(1) by (simp add: stores_range_def frame_def)
  then show ?thesis using assms
    by (intro nth_equalityI) (auto simp: stores_range_def view_nth splice_at_length splice_at_nth)
qed

lemma readable_end: "dev_wf s \<Longrightarrow> readable s a n \<Longrightarrow> 0 < n \<Longrightarrow> a + n \<le> length (disk s)"
  using readable_in_disk[of s a n "a + n - 1"] by linarith

lemma readable_take:
  assumes "dev_wf s" "readable s a n"
  shows "map (byte_at s) [a..<a + n] = take n (drop a (view s))"
proof (cases "n = 0")
  case False
  then show ?thesis using view_slice[OF readable_end[OF assms]] by simp
qed simp

text \<open>A logged write, for every block size.\<close>

lemma device_write_bytes:
  assumes "dev_wf s" "reliable s" "\<not> uninstalling s" "length (udata s) < 256"
    and "unat n \<le> length buf" "readable s (unat loc) (unat n)" "0 < unat n"
  shows "\<exists>t. device_write buf loc n s = (Some (), t) \<and> dev_wf t \<and> reliable t \<and> \<not> uninstalling t \<and> block_size t = block_size s \<and>
    view t = splice_at (unat loc) (take (unat n) buf) (view s) \<and>
    udata t = udata s @ [\<lparr>ud_data = take (unat n) (drop (unat loc) (view s)), ud_loc = loc, ud_count = n\<rparr>]"
proof -
  let ?e = "\<lparr>ud_data = take (unat n) (drop (unat loc) (view s)), ud_loc = loc, ud_count = n\<rparr>"
  obtain t where t: "device_write buf loc n s = (Some (), t\<lparr>udata := udata s @ [?e]\<rparr>)"
    "stores_range (unat loc) (unat n) (\<lambda>x. buf ! (x - unat loc)) s t"
    using device_write_view[OF assms(1-3,5,4), of loc] assms(6) readable_take[OF assms(1,6)] by auto
  let ?t = "t\<lparr>udata := udata s @ [?e]\<rparr>"
  have b: "bsize ?t = bsize t" "block_start ?t = block_start t" "whole ?t = whole t" "byte_at ?t = byte_at t"
    by (simp_all add: bsize_def block_start_def whole_def byte_at_def fun_eq_iff)
  have f: "frame s t" "dev_wf t" using t(2) by (simp_all add: stores_range_def)
  have "view ?t = splice_at (unat loc) (take (unat n) buf) (view s)"
    using stores_range_view[OF t(2) readable_end[OF assms(1,6,7)] assms(5)] b(4) by (simp add: view_def)
  moreover have "dev_wf ?t" using f(2) b by (simp add: dev_wf_def)
  ultimately show ?thesis using t(1) f(1) assms(2,3) by (intro exI[of _ ?t]) (simp add: frame_def reliable_def)
qed

lemma device_flush_bytes:
  assumes "dev_wf s" "reliable s"
  shows "\<exists>t. device_flush_cache s = (True, t) \<and> same_view s t \<and> disk t = view s"
proof -
  obtain t where t: "device_flush_cache s = (True, t)" "same_view s t" "\<forall>x<length (disk s). disk t ! x = byte_at s x"
    using flush_view[OF assms] by blast
  have "length (disk t) = length (disk s)" using frameD(2)[OF same_viewD(1)[OF t(2)]] .
  then have "disk t = view s" using t(3) by (intro nth_equalityI) (simp_all add: view_nth)
  then show ?thesis using t(1,2) by blast
qed

subsection \<open>Total correctness of steps\<close>

definition does :: "(dev \<Rightarrow> bool) \<Rightarrow> 'a io \<Rightarrow> 'a \<Rightarrow> (dev \<Rightarrow> bool) \<Rightarrow> bool" where
  "does P m a Q \<longleftrightarrow> (\<forall>s. P s \<longrightarrow> (\<exists>t. m s = (Some a, t) \<and> Q t))"

text \<open>A device with blocks of 512 bytes that shows the bytes \<open>v\<close> and has \<open>k\<close> entries in its log.\<close>

definition opened :: "u8 list \<Rightarrow> nat \<Rightarrow> dev \<Rightarrow> bool" where
  "opened v k s \<longleftrightarrow> dev_wf s \<and> reliable s \<and> \<not> uninstalling s \<and> block_size s = 512 \<and> view s = v \<and> length (udata s) = k"

definition fits :: "u8 list \<Rightarrow> nat \<Rightarrow> nat \<Rightarrow> bool" where
  "fits v a n \<longleftrightarrow> a + n \<le> length v div 512 * 512"

lemma does_ret: "does P (retI a) a P"
  by (simp add: does_def retI_def)

lemma does_bind: "does P m a Q \<Longrightarrow> does Q (f a) b R \<Longrightarrow> does P (bindI m f) b R"
  unfolding does_def bindI_def by fastforce

lemma does_then: "does P m a Q \<Longrightarrow> does Q k b R \<Longrightarrow> does P (thenI m k) b R"
  unfolding thenI_def by (rule does_bind)

lemma fits_readable: "opened v k s \<Longrightarrow> fits v a n \<Longrightarrow> readable s a n"
proof -
  assume a: "opened v k s" "fits v a n"
  then have b: "bsize s = 512" "length (disk s) = length v" by (auto simp: opened_def bsize_def)
  have "x div 512 * 512 + 512 \<le> length v" if "x < a + n" for x
  proof -
    have "x < length v div 512 * 512" using that a(2) by (simp add: fits_def)
    then have "x div 512 < length v div 512" by (rule less_mult_imp_div_less)
    then have "Suc (x div 512) * 512 \<le> length v div 512 * 512" by (intro mult_le_mono1) simp
    also have "\<dots> \<le> length v" by simp
    finally show ?thesis by simp
  qed
  then show ?thesis unfolding readable_def whole_def b by simp
qed

lemma opened_same_view: "opened v k s \<Longrightarrow> same_view s t \<Longrightarrow> opened v k t"
  using same_view_view[of s t] same_viewD[of s t] frameD(5)[of s t] by (auto simp: opened_def frame_def)

lemma does_read:
  assumes "fits v (unat loc) (unat n)"
  shows "does (opened v k) (device_read loc n) (take (unat n) (drop (unat loc) v)) (opened v k)"
  unfolding does_def
proof (intro allI impI)
  fix s
  assume o: "opened v k s"
  then have w: "dev_wf s" "reliable s" by (simp_all add: opened_def)
  have r: "readable s (unat loc) (unat n)" using fits_readable[OF o assms] .
  then have "map (byte_at s) [unat loc..<unat loc + unat n] = take (unat n) (drop (unat loc) v)"
    using readable_take[OF w(1) r] o by (simp add: opened_def)
  then show "\<exists>t. device_read loc n s = (Some (take (unat n) (drop (unat loc) v)), t) \<and> opened v k t"
    using device_read_view[OF w, of loc n] r opened_same_view[OF o] by auto
qed

lemma does_write:
  assumes "fits v (unat loc) (unat n)" "unat n \<le> length buf" "0 < unat n" "k < 256"
  shows "does (opened v k) (device_write buf loc n) () (opened (splice_at (unat loc) (take (unat n) buf) v) (Suc k))"
  unfolding does_def
proof (intro allI impI)
  fix s
  assume o: "opened v k s"
  then have w: "dev_wf s" "reliable s" "\<not> uninstalling s" "length (udata s) < 256" using assms(4) by (auto simp: opened_def)
  show "\<exists>t. device_write buf loc n s = (Some (), t) \<and> opened (splice_at (unat loc) (take (unat n) buf) v) (Suc k) t"
    using device_write_bytes[OF w assms(2) fits_readable[OF o assms(1)] assms(3)] o by (fastforce simp: opened_def)
qed

lemma does_flush: "does (opened v k) (checkI device_flush_cache) () (\<lambda>t. opened v k t \<and> disk t = v)"
  unfolding does_def
proof (intro allI impI)
  fix s
  assume o: "opened v k s"
  then have w: "dev_wf s" "reliable s" "view s = v" by (simp_all add: opened_def)
  from device_flush_bytes[OF w(1,2)] show "\<exists>t. checkI device_flush_cache s = (Some (), t) \<and> opened v k t \<and> disk t = v"
    using opened_same_view[OF o] w(3) by (auto simp: checkI_def)
qed

subsection \<open>The stages of the boot loader\<close>

text \<open>
  The device after the stages have been written: the boot sector with the place of stage 2 in
  it, stage 2 at its place; the time stamp and the partition table are as before.
\<close>

definition boot_image :: "u8 list \<Rightarrow> u64 \<Rightarrow> u8 list \<Rightarrow> u8 list" where
  "boot_image img loc d =
     map (\<lambda>x. if 218 \<le> x \<and> x < 224 \<or> 440 \<le> x \<and> x < 510 then d ! x
              else if 0x1a4 \<le> x \<and> x < 0x1ac then le_bytes 8 loc ! (x - 0x1a4)
              else if unat loc \<le> x \<and> x < unat loc + (length img - 512) then img ! (512 + (x - unat loc))
              else if x < 512 then img ! x
              else d ! x) [0..<length d]"

lemma splices_boot_image:
  assumes "512 \<le> length d" "512 \<le> length img" "unat loc + (length img - 512) \<le> length d"
  shows "splice_at 440 (take 70 (drop 440 d)) (splice_at 218 (take 6 (drop 218 d)) (splice_at 0x1a4 (le_bytes 8 loc)
    (splice_at (unat loc) (drop 512 img) (splice_at 0 (take 512 img) d)))) = boot_image img loc d" (is "?l = ?r")
proof (rule nth_equalityI)
  show "length ?l = length ?r" using assms by (simp add: splice_at_length boot_image_def)
  fix x
  assume "x < length ?l"
  then have "x < length d" using assms by (simp add: splice_at_length)
  then show "?l ! x = ?r ! x" using assms by (auto simp: splice_at_length splice_at_nth boot_image_def)
qed

lemma write_stages_does:
  assumes "512 < length img" "length img < 2 ^ 64" "fits v 0 512" "fits v (unat loc) (length img - 512)" "k \<le> 251"
  shows "does (opened v k) (write_stages img loc) () (\<lambda>t. opened (boot_image img loc v) (k + 5) t \<and> disk t = boot_image img loc v)"
proof -
  have n: "unat (of_nat (length img - 512) :: u64) = length img - 512" using assms by (simp add: unat_of_nat del: of_nat_diff)
  have l: "512 \<le> length v" "unat loc + (length img - 512) \<le> length v" using assms(3,4) by (auto simp: fits_def)
  have len: "fits (splice_at p bs w) a c = fits w a c" if "p + length bs \<le> length w" for p bs w a c
    using that by (simp add: fits_def splice_at_length)
  have low: "fits v a c" if "a + c \<le> 512" for a c using that assms(3) by (simp add: fits_def)
  have five: "k + 5 = Suc (Suc (Suc (Suc (Suc k))))" by simp
  show ?thesis
    unfolding write_stages_def
    apply (rule does_bind[OF does_read], simp add: low)
    apply (rule does_bind[OF does_read], simp add: low)
    apply (rule does_then[OF does_write])
       apply (use assms in \<open>simp_all add: low\<close>)[4]
    apply (rule does_then[OF does_write])
       apply (use assms l in \<open>simp_all add: n len del: of_nat_diff\<close>)[4]
    apply (rule does_then[OF does_write])
       apply (use assms l in \<open>simp_all add: n len low splice_at_length del: of_nat_diff\<close>)[4]
    apply (rule does_then[OF does_write])
       apply (use assms l in \<open>simp_all add: n len low splice_at_length del: of_nat_diff\<close>)[4]
    apply (rule does_then[OF does_write])
       apply (use assms l in \<open>simp_all add: n len low splice_at_length del: of_nat_diff\<close>)[4]
    using splices_boot_image[OF l(1) _ l(2)] does_flush[of "boot_image img loc v" "k + 5"] assms l
    by (simp add: n five del: of_nat_diff)
qed

subsection \<open>A disk with an MBR\<close>

lemma le_at_shift: "i + m \<le> n \<Longrightarrow> p + n \<le> length v \<Longrightarrow> le_at m i (take n (drop p v)) = le_at m (p + i) v"
  by (induction m arbitrary: i) simp_all

lemma le_at_take_drop: "p + n \<le> length v \<Longrightarrow> le_at n 0 (take n (drop p v)) = le_at n p v"
  using le_at_shift[of 0 n n p v] by simp

text \<open>No GUID partition table, a plausible MBR, and no file system that starts at the first byte.\<close>

definition plain_mbr :: "u8 list \<Rightarrow> bool" where
  "plain_mbr d \<longleftrightarrow>
     take 8 (drop 512 d) \<noteq> ascii ''EFI PART'' \<and> take 8 (drop 4096 d) \<noteq> ascii ''EFI PART'' \<and>
     (\<forall>p\<in>{446, 462, 478, 494}. (d ! p = 0 \<or> d ! p = 0x80) \<and> (d ! (p + 4) \<noteq> 0 \<longrightarrow> (63 :: u32) \<le> le_at 4 (p + 8) d)) \<and>
     take 4 (drop 3 d) \<noteq> ascii ''NTFS'' \<and> take 3 (drop 54 d) \<noteq> ascii ''FAT'' \<and> take 3 (drop 82 d) \<noteq> ascii ''FAT'' \<and>
     take 5 (drop 3 d) \<noteq> ascii ''FAT32'' \<and> take 2 (drop 1080 d) \<noteq> le_bytes 2 (0xef53 :: u16)"

definition active :: "u8 list \<Rightarrow> bool" where
  "active d \<longleftrightarrow> (\<exists>p\<in>{446, 462, 478, 494}. d ! p = 0x80)"

lemma fits_low: "4608 \<le> length v \<Longrightarrow> a + n \<le> 4608 \<Longrightarrow> fits v a n"
proof -
  assume a: "4608 \<le> length v" "a + n \<le> 4608"
  have "9 \<le> length v div 512" using div_le_mono[OF a(1), of 512] by simp
  then have "9 * 512 \<le> length v div 512 * 512" by (rule mult_le_mono1)
  then show ?thesis using a(2) by (simp add: fits_def)
qed

lemma slice1: "p < length v \<Longrightarrow> take (Suc 0) (drop p v) ! 0 = v ! p"
  by simp

lemma mbr_entry_does:
  assumes "4608 \<le> length v" "unat p + 12 \<le> 4608" "v ! unat p = 0 \<or> v ! unat p = 0x80"
    and "v ! (unat p + 4) \<noteq> 0 \<longrightarrow> (63 :: u32) \<le> le_at 4 (unat p + 8) v"
  shows "does (opened v k) (mbr_entry frc p (mbr, act)) (mbr, act \<or> v ! unat p = 0x80) (opened v k)"
proof -
  have u: "unat (p + 4) = unat p + 4" "unat (p + 8) = unat p + 8" using assms(2) by (simp_all add: unat_word_ariths)
  have r1: "does (opened v k) (device_read p 1) (take 1 (drop (unat p) v)) (opened v k)"
    using does_read[of v p 1 k] fits_low[OF assms(1), of "unat p" 1] assms(2) by simp
  have r2: "does (opened v k) (device_read (p + 4) 1) (take 1 (drop (unat p + 4) v)) (opened v k)"
    using does_read[of v "p + 4" 1 k] fits_low[OF assms(1), of "unat p + 4" 1] assms(2) u by simp
  have r3: "does (opened v k) (device_read (p + 8) 4) (take 4 (drop (unat p + 8) v)) (opened v k)"
    using does_read[of v "p + 8" 4 k] fits_low[OF assms(1), of "unat p + 8" 4] assms(2) u by simp
  have b: "take 1 (drop (unat p) v) ! 0 = v ! unat p" "take 1 (drop (unat p + 4) v) ! 0 = v ! (unat p + 4)"
    "le_at 4 0 (take 4 (drop (unat p + 8) v)) = (le_at 4 (unat p + 8) v :: u32)"
    using assms(1,2) le_at_take_drop[of "unat p + 8" 4 v] by simp_all
  have a: "v ! unat p AND 0x80 \<noteq> 0 \<longleftrightarrow> v ! unat p = 0x80" using assms(3) by auto
  have tail: "does (opened v k) (bindI (device_read (p + 4) 1) (\<lambda>t. if t ! 0 \<noteq> 0
      then bindI (device_read (p + 8) 4) (\<lambda>d. if (le_at 4 0 d :: u32) < 63 then failI else retI (mbr, x)) else retI (mbr, x)))
      (mbr, x) (opened v k)" for x
  proof (rule does_bind[OF r2], cases "v ! (unat p + 4) = 0")
    case False
    then have "\<not> (le_at 4 (unat p + 8) v :: u32) < 63" using assms(4) by (simp add: not_less)
    then show "does (opened v k) (if take 1 (drop (unat p + 4) v) ! 0 \<noteq> 0
        then bindI (device_read (p + 8) 4) (\<lambda>d. if (le_at 4 0 d :: u32) < 63 then failI else retI (mbr, x)) else retI (mbr, x))
        (mbr, x) (opened v k)"
      using False does_bind[OF r3, of "\<lambda>d. if (le_at 4 0 d :: u32) < 63 then failI else retI (mbr, x)" "(mbr, x)" "opened v k"]
      unfolding b by (simp add: does_ret)
  qed (simp add: b does_ret del: One_nat_def)
  show ?thesis
    unfolding mbr_entry_def prod.case
  proof (rule does_bind[OF r1], unfold b, rule does_bind[where a = "(mbr, v ! unat p)" and Q = "opened v k"])
    show "does (opened v k) (if v ! unat p \<noteq> 0 \<and> v ! unat p \<noteq> 0x80 then if \<not> frc then retI (False, v ! unat p)
        else thenI (device_write [v ! unat p AND 0x80] p 1) (retI (mbr, v ! unat p AND 0x80)) else retI (mbr, v ! unat p))
        (mbr, v ! unat p) (opened v k)"
      using assms(3) does_ret by auto
  qed (unfold prod.case Let_def a, rule tail)
qed

lemma hint_check_does:
  assumes "fits v (unat loc) (length sig)" "take (length sig) (drop (unat loc) v) \<noteq> sig" "length sig < 2 ^ 64"
  shows "does (opened v k) (hint_check loc sig wipe frc) True (opened v k)"
proof -
  have n: "unat (of_nat (length sig) :: u64) = length sig" using assms(3) by (simp add: unat_of_nat)
  then have "does (opened v k) (device_read loc (of_nat (length sig))) (take (length sig) (drop (unat loc) v)) (opened v k)"
    using does_read[of v loc "of_nat (length sig)" k] assms(1) by simp
  from this show ?thesis unfolding hint_check_def by (rule does_bind) (simp add: assms(2) does_ret)
qed

lemma hint_checks_does:
  assumes "\<forall>(loc, sig, wipe)\<in>set cs. fits v (unat loc) (length sig) \<and> take (length sig) (drop (unat loc) v) \<noteq> sig \<and> length sig < 2 ^ 64"
  shows "does (opened v k) (hint_checks cs frc) True (opened v k)"
  using assms
proof (induction cs)
  case (Cons c cs)
  obtain loc sig wipe where c: "c = (loc, sig, wipe)" by (cases c) simp
  have "does (opened v k) (hint_check loc sig wipe frc) True (opened v k)" using Cons.prems c by (intro hint_check_does) auto
  then show ?case unfolding c hint_checks.simps by (rule does_bind) (use Cons in simp)
qed (simp add: does_ret)

lemma check_mbr_does:
  assumes "4608 \<le> length v" "plain_mbr v" "k < 256"
  shows "does (opened v k) (check_mbr frc) True
    (if active v then opened v k else opened (splice_at 446 [0x80] v) (Suc k))"
proof -
  have e: "does (opened v k) (mbr_entry frc p (mbr, act)) (mbr, act \<or> v ! unat p = 0x80) (opened v k)"
    if p: "unat p \<in> {446, 462, 478, 494}" for p mbr act
  proof (rule mbr_entry_does[OF assms(1)])
    show "unat p + 12 \<le> 4608" using p by auto
    have "\<forall>p\<in>{446, 462, 478, 494}. (v ! p = 0 \<or> v ! p = 0x80) \<and> (v ! (p + 4) \<noteq> 0 \<longrightarrow> (63 :: u32) \<le> le_at 4 (p + 8) v)"
      using assms(2) unfolding plain_mbr_def by blast
    from bspec[OF this p] show "v ! unat p = 0 \<or> v ! unat p = 0x80" "v ! (unat p + 4) \<noteq> 0 \<longrightarrow> (63 :: u32) \<le> le_at 4 (unat p + 8) v"
      by blast+
  qed
  have es: "does (opened v k) (mbr_entries frc ps (mbr, act)) (mbr, act \<or> (\<exists>p\<in>set ps. v ! unat p = 0x80)) (opened v k)"
    if "\<forall>p\<in>set ps. unat p \<in> {446, 462, 478, 494}" for ps mbr act
    using that
  proof (induction ps arbitrary: act)
    case (Cons p ps)
    have "does (opened v k) (mbr_entry frc p (mbr, act)) (mbr, act \<or> v ! unat p = 0x80) (opened v k)" using Cons.prems by (intro e) simp
    then show ?case unfolding mbr_entries.simps
      by (rule does_bind) (use Cons.IH[of "act \<or> v ! unat p = 0x80"] Cons.prems in \<open>simp add: disj_assoc\<close>)
  qed (simp add: does_ret)
  have 1: "does (opened v k) (mbr_entries frc [446, 462, 478, 494] (True, False)) (True, active v) (opened v k)"
    using es[of "[446, 462, 478, 494]" True False] by (simp add: active_def)
  have len: "length (ascii ''NTFS'') = 4" "length (ascii ''FAT'') = 3" "length (ascii ''FAT32'') = 5" by (simp_all add: ascii_def)
  have 2: "does (opened v k) (validate_or_force 0 frc) True (opened v k)"
    unfolding validate_or_force_def using assms(2) fits_low[OF assms(1)]
    by (intro hint_checks_does) (simp add: plain_mbr_def len)
  have "does (opened v k) (device_write [0x80] 446 1) () (opened (splice_at 446 [0x80] v) (Suc k))"
    using does_write[of v 446 1 "[0x80]" k] fits_low[OF assms(1), of 446 1] assms(3) by simp
  from does_then[OF this does_ret[of _ True]] have 3: "does (opened v k) (thenI (if \<not> active v then device_write [0x80] 446 1 else retI ()) (retI True)) True
      (if active v then opened v k else opened (splice_at 446 [0x80] v) (Suc k))"
    by (simp add: does_then[OF does_ret does_ret])
  show ?thesis unfolding check_mbr_def
    by (rule does_bind[OF 1], unfold prod.case, rule does_bind[where a = True and Q = "opened v k"]) (use 2 3 in simp_all)
qed

text \<open>The partition that is marked active when none is.\<close>

definition marked :: "u8 list \<Rightarrow> u8 list" where
  "marked d = (if active d then d else splice_at 446 [0x80] d)"

lemma probe_does:
  assumes "4608 \<le> length v" "\<forall>g\<in>set gs. unat g + 96 \<le> 4608 \<and> take 8 (drop (unat g) v) \<noteq> ascii ''EFI PART''"
  shows "does (opened v k) (probe_gpt gs) None (opened v k)"
  using assms(2)
proof (induction gs)
  case (Cons g gs)
  have r: "does (opened v k) (device_read g 96) (take 96 (drop (unat g) v)) (opened v k)"
    using does_read[of v g 96 k] fits_low[OF assms(1), of "unat g" 96] Cons.prems by simp
  have "does (opened v k) (read_gpt_header g) (gpt_header_of (take 96 (drop (unat g) v))) (opened v k)"
    unfolding read_gpt_header_def by (rule does_bind[OF r does_ret])
  then show ?case unfolding probe_gpt.simps by (rule does_bind) (use Cons in \<open>simp add: gpt_header_of_def\<close>)
qed (simp add: does_ret)

lemma marked_fits: "4608 \<le> length d \<Longrightarrow> fits (marked d) a n = fits d a n"
  by (simp add: marked_def fits_def splice_at_length)

lemma mbr_place_does:
  assumes "4608 \<le> length d" "plain_mbr d" "k < 256"
  shows "does (opened d k) (probe_gpt [512, 4096]) None (opened d k)"
    "\<exists>k'\<le>Suc k. does (opened d k) (bindI (check_mbr frc) (\<lambda>mbr. if mbr then retI 512 else failI)) (512 :: u64) (opened (marked d) k')"
proof -
  let ?Q = "if active d then opened d k else opened (splice_at 446 [0x80] d) (Suc k)"
  show "does (opened d k) (probe_gpt [512, 4096]) None (opened d k)"
    using assms(2) by (intro probe_does[OF assms(1)]) (simp add: plain_mbr_def)
  obtain k' where k': "?Q = opened (marked d) k'" "k' \<le> Suc k" by (cases "active d") (auto simp: marked_def)
  have "does (opened d k) (check_mbr frc) True (opened (marked d) k')" using check_mbr_does[OF assms, of frc] k'(1) by simp
  then have "does (opened d k) (bindI (check_mbr frc) (\<lambda>mbr. if mbr then retI 512 else failI)) (512 :: u64) (opened (marked d) k')"
    by (rule does_bind) (simp add: does_ret)
  then show "\<exists>k'\<le>Suc k. does (opened d k) (bindI (check_mbr frc) (\<lambda>mbr. if mbr then retI 512 else failI)) (512 :: u64) (opened (marked d) k')"
    using k'(2) by blast
qed

lemma install_mbr_does:
  assumes "4608 \<le> length d" "plain_mbr d" "512 < length img" "length img < 2 ^ 64" "fits d 0 (length img)"
  shows "\<exists>k. does (opened d 0) (install opts img rnd) () (\<lambda>t. opened (boot_image img 512 (marked d)) k t \<and> disk t = boot_image img 512 (marked d))"
proof -
  have p: "does (opened d 0) (probe_gpt [512, 4096]) None (opened d 0)" by (rule mbr_place_does(1)[OF assms(1,2)]) simp
  obtain k where k: "k \<le> Suc 0" and c: "does (opened d 0) (bindI (check_mbr (force opts)) (\<lambda>mbr. if mbr then retI 512 else failI)) (512 :: u64) (opened (marked d) k)"
    using mbr_place_does(2)[OF assms(1,2), of 0 "force opts"] by auto
  have w: "does (opened (marked d) k) (write_stages img 512) ()
      (\<lambda>t. opened (boot_image img 512 (marked d)) (k + 5) t \<and> disk t = boot_image img 512 (marked d))"
    using assms(3-5) k by (intro write_stages_does) (simp_all add: marked_fits[OF assms(1)], simp_all add: fits_def)
  show ?thesis
    unfolding install_def
    by (rule exI, rule does_bind[OF p], unfold option.case, rule does_bind[OF does_ret], unfold option.case, rule does_bind[OF c], rule w)
qed

text \<open>The device as \<open>device_init\<close> leaves it.\<close>

lemma device_init_opened:
  assumes "\<forall>n. ok n" "length d < 2 ^ 63" "512 \<le> length d"
  shows "\<exists>s. device_init (dev_start d ok) = (True, s) \<and> underway d 512 s \<and> opened d 0 s"
proof -
  obtain s where s: "device_init (dev_start d ok) = (True, s)" "underway d 512 s" "udata s = []" "disk s = d" "dcache_state s = CACHE_CLEAN"
    using device_init_start(1)[OF assms] by auto
  then have w: "dev_wf s" by (simp add: underway_def installing_def)
  have "view s = d" using clean_byte_at[OF w s(5)] s(4) by (intro nth_equalityI) (simp_all add: view_nth)
  then show ?thesis using s by (simp add: opened_def underway_def installing_def)
qed

lemma run_install_mbr:
  assumes "\<forall>n. ok n" "length d < 2 ^ 63" "4608 \<le> length d" "plain_mbr d" "512 < length img" "length img \<le> length d div 512 * 512"
  shows "\<exists>f t. run_install opts img rnd (dev_start d ok) = (True, f, t) \<and> disk t = boot_image img 512 (marked d)"
proof -
  obtain s where s: "device_init (dev_start d ok) = (True, s)" "underway d 512 s" and o: "opened d 0 s"
    using device_init_opened[OF assms(1,2)] assms(3) by auto
  have len: "length img < 2 ^ 64" using assms(2,6) by simp
  obtain k where "does (opened d 0) (install opts img rnd) () (\<lambda>t. opened (boot_image img 512 (marked d)) k t \<and> disk t = boot_image img 512 (marked d))"
    using install_mbr_does[OF assms(3-5) len, of opts rnd] assms(6) by (auto simp: fits_def)
  then obtain t where t: "install opts img rnd s = (Some (), t)" "disk t = boot_image img 512 (marked d)"
    using o unfolding does_def by blast
  then show ?thesis using run_install_from(2)[OF s assms(5) len t(1)] by auto
qed

subsection \<open>A device that is too small\<close>








text \<open>An empty disk, the example of the witnesses below.\<close>

lemma plain_zeros: "plain_mbr (replicate 5120 0)"
proof -
  have z: "replicate n 0 \<noteq> x # xs" if "x \<noteq> (0 :: u8)" for n x xs using that by (cases n) simp_all
  have b: "le_bytes 2 (0xef53 :: u16) = [0x53, 0xef]" by code_simp
  show ?thesis by (simp add: plain_mbr_def ascii_def b z)
qed


subsection \<open>Installations, whole runs\<close>



text \<open>
  C13. The undo file leads back: when an installation that was asked for a file of undo data
  succeeds, a later run with \<open>--uninstall\<close> on the installed device and that file succeeds too
  and gives back the device as it was before the installation, byte for byte.
\<close>

theorem uninstall_after_install:
  assumes "\<forall>n. ok n" "length d < 2 ^ 63" "512 < length img" "length img < 2 ^ 64"
    and "run_install opts img rnd (dev_start d ok) = (True, f, t)" "uninstall_file opts \<noteq> None"
  shows "\<exists>u. run_uninstall f (dev_start (disk t) ok) = (True, u) \<and> disk u = d"
proof -
  obtain s where s: "underway d 512 s" "disk t = disk s" "f = Some (log_bytes (rev (udata s)))"
    using install_success[OF assms(1-5)] assms(6) by blast
  then have lg: "undo_log d s" "512 \<le> length d"
    using install_success[OF assms(1-5)] by (simp_all add: underway_def installing_def)
  let ?us = "rev (udata s)"
  have len: "length (disk t) = length d" "length ?us \<le> 256" using s(2) lg(1) by (simp_all add: undo_log_def)
  obtain i where i: "device_init (dev_start (disk t) ok) = (True, i)" "underway (disk t) 512 i" "disk i = disk t"
    using device_init_start(1)[OF assms(1), of "disk t"] len(1) assms(2) lg(2) by auto
  have e: "\<forall>e\<in>set ?us. entry_ok s e" using lg(1) by (simp add: undo_log_def)
  have ri: "reliable i" "sized i" using i(2) dev_wfD[of i] by (auto simp: underway_def installing_def sized_def)
  obtain v where v: "load_uninstall_data (log_bytes ?us) i = (Some (), v\<lparr>udata := ?us\<rparr>)" "later i v"
    using load_ok[OF ri(1) _ len(2)] e entry_ok_sound by blast
  let ?v = "v\<lparr>udata := ?us\<rparr>"
  have g: "disk ?v = disk s" "block_size ?v = block_size s" "reliable ?v" "sized ?v"
    using v(2) i(2,3) s(1,2) ri by (auto simp: later_def underway_def reliable_def sized_def bsize_def)
  have "\<forall>e\<in>set (udata ?v). entry_ok ?v e" using e entry_ok_geometry[of ?v s] g(1,2) by simp
  then obtain u where u: "uninstall ?v = (True, u)" "length (disk u) = length (disk s)"
    "\<forall>x<length (disk s). disk u ! x = rolled_back (udata s) ((!) (disk s)) x"
    using uninstall_rolls_back[OF g(4,3)] g(1) by auto
  have "disk u = d" using u(2,3) lg(1) by (intro nth_equalityI) (simp_all add: undo_log_def)
  then show ?thesis using i(1) v(1) u(1) s(3) by (simp add: run_uninstall_def)
qed

theorem uninstall_after_install_witness:
  "\<exists>f t u. run_install (options0\<lparr>uninstall_file := Some ''undo''\<rparr>) (replicate 600 1) (\<lambda>_. 0) (dev_start (replicate 5120 0) (\<lambda>_. True)) = (True, f, t) \<and>
     run_uninstall f (dev_start (disk t) (\<lambda>_. True)) = (True, u) \<and> disk u = replicate 5120 0"
proof -
  let ?o = "options0\<lparr>uninstall_file := Some ''undo''\<rparr>"
  obtain f t where t: "run_install ?o (replicate 600 1) (\<lambda>_. 0) (dev_start (replicate 5120 0) (\<lambda>_. True)) = (True, f, t)"
    using run_install_mbr[of "\<lambda>_. True" "replicate 5120 0" "replicate 600 1" ?o "\<lambda>_. 0"] plain_zeros by auto
  then show ?thesis using uninstall_after_install[OF _ _ _ _ t] by auto
qed

text \<open>
  C15. What an installation to an MBR disk does. On a device with a plausible MBR, no GUID
  partition table and no file system at its start, and with room for the image, the tool
  succeeds and the device holds the boot sector and stage 2 behind it; the boot sector tells
  the place of stage 2; the time stamp and the partition table are kept, except that the
  first partition is marked active if none was; and no byte behind the image changes.
\<close>

theorem install_to_mbr:
  assumes "\<forall>n. ok n" "length d < 2 ^ 63" "4608 \<le> length d" "plain_mbr d" "512 < length img" "length img \<le> length d div 512 * 512"
  shows "\<exists>f t. run_install opts img rnd (dev_start d ok) = (True, f, t) \<and> length (disk t) = length d \<and>
    (\<forall>x<length d. disk t ! x =
       (if x = 446 \<and> \<not> active d then 0x80
        else if 218 \<le> x \<and> x < 224 \<or> 440 \<le> x \<and> x < 510 then d ! x
        else if 0x1a4 \<le> x \<and> x < 0x1ac then le_bytes 8 (512 :: u64) ! (x - 0x1a4)
        else if x < length img then img ! x
        else d ! x))"
proof -
  obtain f t where t: "run_install opts img rnd (dev_start d ok) = (True, f, t)" "disk t = boot_image img 512 (marked d)"
    using run_install_mbr[OF assms] by blast
  have m: "length (marked d) = length d" "\<And>x. x < length d \<Longrightarrow> marked d ! x = (if x = 446 \<and> \<not> active d then 0x80 else d ! x)"
    using assms(3) by (auto simp: marked_def splice_at_length splice_at_nth)
  show ?thesis using t m assms(3,5) by (intro exI[of _ f] exI[of _ t]) (auto simp: boot_image_def)
qed

theorem install_to_mbr_witness:
  "\<exists>f t. run_install options0 (replicate 600 1) (\<lambda>_. 0) (dev_start (replicate 5120 0) (\<lambda>_. True)) = (True, f, t) \<and>
     disk t ! 0 = 1 \<and> disk t ! 446 = 0x80 \<and> disk t ! 599 = 1 \<and> disk t ! 600 = 0"
proof -
  obtain f t where "run_install options0 (replicate 600 1) (\<lambda>_. 0) (dev_start (replicate 5120 0) (\<lambda>_. True)) = (True, f, t)"
    "\<forall>x<5120. disk t ! x = (if x = 446 \<and> \<not> active (replicate 5120 0) then 0x80
        else if 218 \<le> x \<and> x < 224 \<or> 440 \<le> x \<and> x < 510 then replicate 5120 0 ! x
        else if 0x1a4 \<le> x \<and> x < 0x1ac then le_bytes 8 (512 :: u64) ! (x - 0x1a4)
        else if x < 600 then replicate 600 1 ! x else replicate 5120 0 ! x)"
    using install_to_mbr[of "\<lambda>_. True" "replicate 5120 0" "replicate 600 1" options0 "\<lambda>_. 0"] plain_zeros by auto
  then show ?thesis by (intro exI[of _ f] exI[of _ t]) (simp add: active_def)
qed

text \<open>
  C17. The cached device refines an array of bytes: on a device in a consistent state, with
  any block size, reading a range that lies in whole blocks gives that slice of the array and
  changes nothing that can be seen; writing it replaces the slice and appends the old
  contents to the undo log; and flushing puts the array on the medium.
\<close>

theorem device_refines_bytes:
  assumes "dev_wf s" "reliable s" "\<not> uninstalling s" "length (udata s) < 256"
    and "unat n \<le> length buf" "readable s (unat loc) (unat n)" "0 < unat n"
  defines "old \<equiv> take (unat n) (drop (unat loc) (view s))"
  shows "(\<exists>t. device_read loc n s = (Some old, t) \<and> dev_wf t \<and> view t = view s \<and> udata t = udata s) \<and>
    (\<exists>t. device_write buf loc n s = (Some (), t) \<and> dev_wf t \<and> view t = splice_at (unat loc) (take (unat n) buf) (view s) \<and>
       udata t = udata s @ [\<lparr>ud_data = old, ud_loc = loc, ud_count = n\<rparr>]) \<and>
    (\<exists>t. device_flush_cache s = (True, t) \<and> dev_wf t \<and> view t = view s \<and> disk t = view s)"
proof (intro conjI)
  show "\<exists>t. device_read loc n s = (Some old, t) \<and> dev_wf t \<and> view t = view s \<and> udata t = udata s"
    using device_read_view[OF assms(1,2), of loc n] assms(6) readable_take[OF assms(1,6)] same_view_view same_viewD
    unfolding old_def by (fastforce simp: frame_def)
  show "\<exists>t. device_write buf loc n s = (Some (), t) \<and> dev_wf t \<and> view t = splice_at (unat loc) (take (unat n) buf) (view s) \<and>
      udata t = udata s @ [\<lparr>ud_data = old, ud_loc = loc, ud_count = n\<rparr>]"
    using device_write_bytes[OF assms(1-7)] unfolding old_def by blast
  show "\<exists>t. device_flush_cache s = (True, t) \<and> dev_wf t \<and> view t = view s \<and> disk t = view s"
    using device_flush_bytes[OF assms(1,2)] same_view_view same_viewD(2) by blast
qed

theorem device_refines_bytes_witness:
  "\<exists>s t. device_init (dev_start (replicate 5120 0) (\<lambda>_. True)) = (True, s) \<and> device_write [1, 2, 3] 510 3 s = (Some (), t) \<and>
     view t = splice_at 510 [1, 2, 3] (replicate 5120 0)"
proof -
  obtain s where s: "device_init (dev_start (replicate 5120 0) (\<lambda>_. True)) = (True, s)" "opened (replicate 5120 0) 0 s"
    using device_init_opened[of "\<lambda>_. True" "replicate 5120 0"] by auto
  have "readable s (unat (510 :: u64)) (unat (3 :: u64))"
    using fits_readable[OF s(2)] fits_low[of "replicate 5120 0" 510 3] by simp
  then show ?thesis using device_refines_bytes[of s 3 "[1, 2, 3]" 510] s by (auto simp: opened_def)
qed

text \<open>
  C27. The state of the tool stays well-formed through a whole installation: after it, the
  cache has the size of a block and agrees with the device if it is clean, and the log has at
  most 256 entries, each with as many bytes as its count says and inside the device.
\<close>

theorem install_keeps_types:
  assumes "\<forall>n. ok n" "length d < 2 ^ 63" "512 < length img" "length img < 2 ^ 64"
    and "device_init (dev_start d ok) = (True, s)" "install opts img rnd s = (Some (), t)"
  shows "dev_wf t \<and> length (udata t) \<le> 256 \<and>
    (\<forall>e\<in>set (udata t). length (ud_data e) = unat (ud_count e) \<and> unat (ud_loc e) + unat (ud_count e) \<le> length d)"
proof -
  have "512 \<le> length d" using assms(5) device_init_start(2)[OF assms(1,2)] by fastforce
  then have "underway d 512 s" using device_init_start(1)[OF assms(1,2)] assms(5) by auto
  then have u: "installing d t" using undo.tx_install[OF assms(3,4), of d 512 opts rnd] assms(6) by (auto simp: keeps_def underway_def)
  then have w: "dev_wf t" "length (udata t) \<le> 256" "length (disk t) = length d" by (simp_all add: installing_def undo_log_def)
  have "length (ud_data e) = unat (ud_count e) \<and> unat (ud_loc e) + unat (ud_count e) \<le> length d" if "e \<in> set (udata t)" for e
  proof -
    have "entry_ok t e" using u that by (simp add: installing_def undo_log_def)
    then show ?thesis using readable_end[OF w(1)] w(3) unfolding entry_ok_def by auto
  qed
  then show ?thesis using w by blast
qed

theorem install_keeps_types_witness:
  "\<exists>s t. device_init (dev_start (replicate 5120 0) (\<lambda>_. True)) = (True, s) \<and>
     install options0 (replicate 600 1) (\<lambda>_. 0) s = (Some (), t) \<and> dev_wf t \<and> length (udata t) \<le> 256"
proof -
  obtain s where s: "device_init (dev_start (replicate 5120 0) (\<lambda>_. True)) = (True, s)" "opened (replicate 5120 0) 0 s"
    using device_init_opened[of "\<lambda>_. True" "replicate 5120 0"] by auto
  obtain t where t: "install options0 (replicate 600 1) (\<lambda>_. 0) s = (Some (), t)"
    using install_mbr_does[of "replicate 5120 0" "replicate 600 1" options0 "\<lambda>_. 0"] plain_zeros s(2)
    by (fastforce simp: does_def fits_def)
  show ?thesis using install_keeps_types[OF _ _ _ _ s(1) t] s(1) t by auto
qed






end
