(* ===== verification/Lim_Gpt.thy ===== *)
theory Lim_Gpt
  imports Lim_Boot
begin

section \<open>Installation to a disk with a GUID partition table\<close>

text \<open>
  Until it writes the stages, an installation without \<open>--force\<close> that does not convert the
  partition table only looks at the device. So a success tells what it has seen: a BIOS boot
  partition that is large enough; and the stages are the only bytes that change.
\<close>

subsection \<open>Looking at an array of bytes\<close>










subsection \<open>An example disk\<close>

text \<open>A table with one entry, a BIOS boot partition from block 4 to block 67; the tables share their header.\<close>

definition gpt_example_header :: "u8 list" where
  "gpt_example_header = ascii ''EFI PART'' @ replicate 24 0 @ le_bytes 8 (1 :: u64) @ replicate 32 0 @ le_bytes 8 (2 :: u64) @
     le_bytes 4 (1 :: u32) @ le_bytes 4 (128 :: u32) @ replicate 8 0"

definition gpt_example_entry :: "u8 list" where
  "gpt_example_entry = ascii ''Hah!IdontNeedEFI'' @ replicate 16 1 @ le_bytes 8 (4 :: u64) @ le_bytes 8 (67 :: u64) @ replicate 80 0"


lemma gpt_example_lengths [simp]: "length gpt_example_header = 96" "length gpt_example_entry = 128"
  by (simp_all add: gpt_example_header_def gpt_example_entry_def ascii_def)





end
