(* ===== verification/Lim_Iso.thy ===== *)
theory Lim_Iso
  imports Lim_Boot
begin

unbundle bit_operations_syntax

section \<open>ISO images with a GUID partition table\<close>

text \<open>
  The tool converts the partition table of a hybrid ISO image before it installs the boot
  loader. The theory gives the contents of the image after the conversion: the entries of
  the MBR describe the partitions of the GUID table, and both copies of that table are
  erased. With the installation to an MBR disk of \<open>Lim_Boot\<close> this determines every byte of
  the image after the run.
\<close>

subsection \<open>Loops of writes\<close>

lemma does_for:
  assumes "\<And>j. j < n \<Longrightarrow> does (Q j) (f (i + j)) () (Q (Suc j))"
  shows "does (Q 0) (for_io f i n) () (Q n)"
  using assms
proof (induction n arbitrary: i Q)
  case (Suc n)
  have "does (Q (Suc 0)) (for_io f (Suc i) n) () (Q (Suc n))"
    using Suc.IH[where Q = "\<lambda>j. Q (Suc j)" and i = "Suc i"] Suc.prems[of "Suc j" for j] by (metis Suc_less_eq add_Suc_shift)
  then show ?case unfolding for_io.simps using does_then[of "Q 0" "f i" "()" "Q (Suc 0)"] Suc.prems[of 0] by simp
qed (simp add: does_ret)

lemma splice_append:
  assumes "a + length bs + length cs \<le> length v"
  shows "splice_at (a + length bs) cs (splice_at a bs v) = splice_at a (bs @ cs) v"
  using assms by (intro nth_equalityI) (auto simp: splice_at_length splice_at_nth nth_append)

lemma fits_splice: "a + length bs \<le> length v \<Longrightarrow> fits (splice_at a bs v) = fits v"
  by (simp add: fun_eq_iff fits_def splice_at_length)

lemma fits_le: "fits v a n \<Longrightarrow> a + n \<le> length v"
  unfolding fits_def using div_times_less_eq_dividend[of "length v" 512] by linarith

lemma fits_part: "fits v a n \<Longrightarrow> a \<le> b \<Longrightarrow> b + m \<le> a + n \<Longrightarrow> fits v b m"
  by (simp add: fits_def)

text \<open>Equal pieces written one behind the other.\<close>

lemma does_row:
  assumes "\<And>j. j < n \<Longrightarrow> f j = device_write (bs j) (loc j) m \<and> unat (loc j) = a + j * unat m \<and> length (bs j) = unat m"
    and "fits v a (n * unat m)" "0 < unat m" "k + n \<le> 256"
  shows "does (opened v k) (for_io f 0 n) () (opened (splice_at a (concat (map bs [0..<n])) v) (k + n))"
proof -
  let ?w = "\<lambda>j. splice_at a (concat (map bs [0..<j])) v"
  have len: "length (concat (map bs [0..<j])) = j * unat m" if "j \<le> n" for j
    using that assms(1) by (induction j) simp_all
  have s: "does (opened (?w j) (k + j)) (f (0 + j)) () (opened (?w (Suc j)) (k + Suc j))" if j: "j < n" for j
  proof -
    have p: "f j = device_write (bs j) (loc j) m" "unat (loc j) = a + j * unat m" "length (bs j) = unat m" using assms(1)[OF j] by simp_all
    have "Suc j * unat m \<le> n * unat m" using j by (intro mult_le_mono1) simp
    then have e: "a + j * unat m + unat m \<le> a + n * unat m" by simp
    then have l: "a + j * unat m + unat m \<le> length v" using fits_le[OF assms(2)] by linarith
    have "fits (?w j) (unat (loc j)) (unat m)"
      using fits_part[OF assms(2), of "a + j * unat m" "unat m"] e l len[of j] j p by (simp add: fits_splice)
    moreover have "splice_at (unat (loc j)) (take (unat m) (bs j)) (?w j) = ?w (Suc j)"
      using splice_append[of a "concat (map bs [0..<j])" "bs j" v] len[of j] j l p by simp
    ultimately show ?thesis using does_write[of "?w j" "loc j" m "bs j" "k + j"] p assms(3,4) j by simp
  qed
  have "splice_at a [] v = v" using fits_le[OF assms(2)] by (simp add: splice_at_def)
  then show ?thesis using does_for[where Q = "\<lambda>j. opened (?w j) (k + j)" and f = f and i = 0 and n = n, OF s] by simp
qed

lemma concat_zeros: "concat (map (\<lambda>j. replicate m (0 :: u8)) [0..<n]) = replicate (n * m) 0"
  by (induction n) (simp_all flip: replicate_add add: add.commute)

subsection \<open>Erasing the tables\<close>

text \<open>The first 34 blocks, and the 33 blocks that end with the secondary header.\<close>

definition erased :: "gpt_table_header \<Rightarrow> nat \<Rightarrow> nat \<Rightarrow> bool" where
  "erased h lb x \<longleftrightarrow> x < 34 * lb \<or>
     32 \<le> unat (alternate_lba h) \<and> (unat (alternate_lba h) - 32) * lb \<le> x \<and> x < (unat (alternate_lba h) + 1) * lb"

definition erase :: "gpt_table_header \<Rightarrow> nat \<Rightarrow> u8 list \<Rightarrow> u8 list" where
  "erase h lb v = map (\<lambda>x. if erased h lb x then 0 else v ! x) [0..<length v]"

lemma unat_times: "unat (a :: u64) * unat b < 2 ^ 64 \<Longrightarrow> unat (a * b) = unat a * unat b"
  by (simp add: unat_word_ariths)

lemma unat_of_nat64: "n < 2 ^ 64 \<Longrightarrow> unat (of_nat n :: u64) = n"
  by (simp add: unat_of_nat)

lemma mul_u64_ok: "unat a * unat b < 2 ^ 64 \<Longrightarrow> mul_u64_overflow a b = (False, a * b)"
  using mul_u64_overflow_iff[of a b] by (cases "mul_u64_overflow a b") (auto simp: mul_u64_overflow_def)

lemma add_u64_ok: "unat a + unat b < 2 ^ 64 \<Longrightarrow> add_u64_overflow a b = (False, a + b)"
  using add_u64_overflow_iff[of a b] by (cases "add_u64_overflow a b") (auto simp: add_u64_overflow_def)

lemma nuke_does:
  assumes "0 < unat lb" "fits v 0 (34 * unat lb)" "fits v 0 ((unat (alternate_lba h) + 1) * unat lb)" "k \<le> 189" "length v < 2 ^ 63"
  shows "\<exists>k'\<le>k + 67. does (opened v k) (nuke_gpt h lb) () (opened (erase h (unat lb) v) k')"
proof -
  let ?z = "replicate (unat lb) (0 :: u8)" and ?alt = "unat (alternate_lba h)"
  let ?v = "splice_at 0 (replicate (34 * unat lb) 0) v"
  have l: "34 * unat lb \<le> length v" "(?alt + 1) * unat lb \<le> length v" using fits_le[OF assms(2)] fits_le[OF assms(3)] by simp_all
  have 1: "does (opened v k) (for_io (\<lambda>i. device_write ?z (of_nat i * lb) lb) 0 34) () (opened ?v (k + 34))"
  proof -
    have "unat (of_nat j * lb) = j * unat lb" if "j < 34" for j
    proof -
      have "j * unat lb \<le> 34 * unat lb" using that by (intro mult_le_mono1) simp
      also have "\<dots> < 2 ^ 64" using l(1) assms(5) by simp
      finally have "unat (of_nat j :: u64) * unat lb < 2 ^ 64" using that by (simp add: unat_of_nat)
      from unat_times[OF this] show ?thesis using that by (simp add: unat_of_nat)
    qed
    then show ?thesis
      using does_row[of 34 "\<lambda>i. device_write ?z (of_nat i * lb) lb" "\<lambda>_. ?z" "\<lambda>i. of_nat i * lb" lb 0 v k] assms(1,2,4)
      by (simp add: concat_zeros)
  qed
  show ?thesis
  proof (cases "32 \<le> ?alt")
    case False
    then have "\<not> 32 \<le> alternate_lba h" by (simp add: word_le_nat_alt)
    then have "does (opened v k) (nuke_gpt h lb) () (opened ?v (k + 34))"
      unfolding nuke_gpt_def Let_def using does_then[OF 1 does_ret] by simp
    moreover have "?v = erase h (unat lb) v"
      using False l(1) by (intro nth_equalityI) (auto simp: splice_at_length splice_at_nth erase_def erased_def)
    ultimately show ?thesis by (intro exI[of _ "k + 34"]) simp
  next
    case True
    then have a: "32 \<le> alternate_lba h" by (simp add: word_le_nat_alt)
    let ?f = "\<lambda>i. case mul_u64_overflow (alternate_lba h - 32 + of_nat i) lb of (ovf, loc) \<Rightarrow> if ovf then failI else device_write ?z loc lb"
    let ?a = "(?alt - 32) * unat lb"
    have n: "?a + 33 * unat lb = (?alt + 1) * unat lb" using True by (simp flip: distrib_right)
    have fv: "fits ?v = fits v" using l(1) by (simp add: fits_splice)
    have loc: "?f j = device_write ?z ((alternate_lba h - 32 + of_nat j) * lb) lb \<and>
        unat ((alternate_lba h - 32 + of_nat j) * lb) = ?a + j * unat lb" if j: "j < 33" for j
    proof -
      have u: "unat (alternate_lba h - 32 + of_nat j) = ?alt - 32 + j"
      proof -
        have "unat (alternate_lba h - 32) = ?alt - 32" using a by (simp add: unat_sub)
        moreover have "?alt - 32 + j < 2 ^ 64" using True j unat64[of "alternate_lba h"] by simp
        ultimately show ?thesis using j by (simp add: unat_word_ariths unat_of_nat)
      qed
      have "(?alt - 32 + j) * unat lb \<le> (?alt + 1) * unat lb" using True j by (intro mult_le_mono1) simp
      then have "unat (alternate_lba h - 32 + of_nat j) * unat lb < 2 ^ 64" using l(2) assms(5) unfolding u by simp
      then show ?thesis using mul_u64_ok[of "alternate_lba h - 32 + of_nat j" lb] unat_times[of "alternate_lba h - 32 + of_nat j" lb] u
        by (simp add: distrib_right)
    qed
    have "does (opened ?v (k + 34)) (for_io ?f 0 33) () (opened (splice_at ?a (concat (map (\<lambda>_. ?z) [0..<33])) ?v) (k + 34 + 33))"
    proof (rule does_row[where loc = "\<lambda>j. (alternate_lba h - 32 + of_nat j) * lb"])
      show "fits ?v ?a (33 * unat lb)" unfolding fv using n by (intro fits_part[OF assms(3)]) simp_all
    qed (use loc assms(1,4) in simp_all)
    from does_then[OF 1 this[unfolded concat_zeros]] have "does (opened v k) (nuke_gpt h lb) () (opened (splice_at ?a (replicate (33 * unat lb) 0) ?v) (k + 34 + 33))"
      unfolding nuke_gpt_def Let_def using a by simp
    moreover have "splice_at ?a (replicate (33 * unat lb) 0) ?v = erase h (unat lb) v"
      using True l n by (intro nth_equalityI) (auto simp: splice_at_length splice_at_nth erase_def erased_def)
    ultimately show ?thesis by (intro exI[of _ "k + 34 + 33"]) simp
  qed
qed

subsection \<open>The entries of the MBR\<close>

text \<open>An entry of the table behind its status byte: addresses, type, first block and number of blocks.\<close>

definition part_bytes :: "mbr_part \<Rightarrow> u8 list" where
  "part_bytes p = chs_start p @ ptype p # chs_end p @ le_bytes 4 (ucast (lba_start p) :: u32) @
     le_bytes 4 (ucast (lba_end p - lba_start p + 1) :: u32)"

definition sound_part :: "mbr_part \<Rightarrow> bool" where
  "sound_part p \<longleftrightarrow> length (chs_start p) = 3 \<and> length (chs_end p) = 3"

lemma length_part_bytes: "sound_part p \<Longrightarrow> length (part_bytes p) = 15"
  by (simp add: part_bytes_def sound_part_def)

lemma splices_part:
  assumes "sound_part p" "e + 16 \<le> length v"
  shows "splice_at (e + 5) (chs_end p) (splice_at (e + 1) (chs_start p)
      (splice_at (e + 12) (le_bytes 4 (ucast (lba_end p - lba_start p + 1) :: u32))
      (splice_at (e + 8) (le_bytes 4 (ucast (lba_start p) :: u32)) (splice_at (e + 4) [ptype p] v)))) =
    splice_at (e + 1) (part_bytes p) v" (is "?l = ?r")
proof (rule nth_equalityI)
  have c: "length (chs_start p) = 3" "length (chs_end p) = 3" using assms(1) by (simp_all add: sound_part_def)
  note len = length_part_bytes[OF assms(1)]
  show "length ?l = length ?r" using assms(2) c len by (simp add: splice_at_length)
  fix x
  assume "x < length ?l"
  then have x: "x < length v" using assms(2) c by (simp add: splice_at_length)
  show "?l ! x = ?r ! x"
  proof (cases "e + 1 \<le> x \<and> x < e + 16")
    case True
    then obtain j where j: "x = e + 1 + j" "j < 15" using le_Suc_ex[of "e + 1" x] by auto
    then show ?thesis using assms(2) c len x
      by (auto simp: splice_at_length splice_at_nth part_bytes_def nth_append nth_Cons')
  qed (use assms(2) c len x in \<open>auto simp: splice_at_length splice_at_nth\<close>)
qed

lemma write_mbr_part_does:
  assumes "i < length ps" "length ps \<le> 4" "sound_part (ps ! i)" "fits v 0 512" "k \<le> 251"
  shows "does (opened v k) (write_mbr_part ps i) () (opened (splice_at (447 + 16 * i) (part_bytes (ps ! i)) v) (k + 5))"
proof -
  let ?p = "ps ! i" and ?e = "0x1be + of_nat i * 16 :: u64" and ?n = "446 + 16 * i"
  have i: "i < 4" using assms(1,2) by simp
  have e: "unat ?e = ?n" using i by (simp add: unat_word_ariths unat_of_nat)
  have c: "length (chs_start ?p) = 3" "length (chs_end ?p) = 3" using assms(3) by (simp_all add: sound_part_def)
  have l: "512 \<le> length v" using fits_le[OF assms(4)] by simp
  have w: "does (opened x m) (device_write buf (?e + off) cnt) () (opened (splice_at (?n + unat off) buf x) (Suc m))"
    if "length x = length v" "unat off + unat cnt \<le> 16" "length buf = unat cnt" "0 < unat cnt" "m < 256" for x m buf off cnt
  proof -
    have "unat (?e + off) = unat ?e + unat off" using e i that(2) by (intro unat_plus_simple[THEN iffD1]) (simp add: word_le_nat_alt unat_word_ariths)
    then have u: "unat (?e + off) = ?n + unat off" using e by simp
    have "fits x (?n + unat off) (unat cnt)" using assms(4) that(1,2) i by (simp add: fits_def)
    then show ?thesis using does_write[of x "?e + off" cnt buf m] that u by simp
  qed
  define v1 where "v1 = splice_at (?n + 4) [ptype ?p] v"
  define v2 where "v2 = splice_at (?n + 8) (le_bytes 4 (ucast (lba_start ?p) :: u32)) v1"
  define v3 where "v3 = splice_at (?n + 12) (le_bytes 4 (ucast (lba_end ?p - lba_start ?p + 1) :: u32)) v2"
  define v4 where "v4 = splice_at (?n + 1) (chs_start ?p) v3"
  note vs = v1_def v2_def v3_def v4_def
  have n: "length v1 = length v" "length v2 = length v" "length v3 = length v" "length v4 = length v"
    using i l c by (simp_all add: vs splice_at_length)
  have "splice_at (?n + 5) (chs_end ?p) v4 = splice_at (?n + 1) (part_bytes ?p) v"
    unfolding vs using i l by (intro splices_part assms(3)) simp
  then have f: "splice_at (?n + unat (5 :: u64)) (chs_end ?p) v4 = splice_at (447 + 16 * i) (part_bytes ?p) v" by simp
  have five: "k + 5 = Suc (Suc (Suc (Suc (Suc k))))" by simp
  have 1: "does (opened v k) (device_write [ptype ?p] (?e + 4) 1) () (opened v1 (Suc k))"
    using w[of v 4 1 "[ptype ?p]" k] assms(5) by (simp add: v1_def)
  have 2: "does (opened v1 (Suc k)) (device_write (le_bytes 4 (ucast (lba_start ?p) :: u32)) (?e + 8) 4) () (opened v2 (Suc (Suc k)))"
    using w[of v1 8 4 "le_bytes 4 (ucast (lba_start ?p) :: u32)" "Suc k"] assms(5) n by (simp add: v2_def)
  have 3: "does (opened v2 (Suc (Suc k))) (device_write (le_bytes 4 (ucast (lba_end ?p - lba_start ?p + 1) :: u32)) (?e + 0xc) 4) ()
      (opened v3 (Suc (Suc (Suc k))))"
    using w[of v2 12 4 "le_bytes 4 (ucast (lba_end ?p - lba_start ?p + 1) :: u32)" "Suc (Suc k)"] assms(5) n by (simp add: v3_def)
  have 4: "does (opened v3 (Suc (Suc (Suc k)))) (device_write (chs_start ?p) (?e + 1) 3) () (opened v4 (Suc (Suc (Suc (Suc k)))))"
    using w[of v3 1 3 "chs_start ?p" "Suc (Suc (Suc k))"] assms(5) n c by (simp add: v4_def)
  have 5: "does (opened v4 (Suc (Suc (Suc (Suc k))))) (device_write (chs_end ?p) (?e + 5) 3) ()
      (opened (splice_at (447 + 16 * i) (part_bytes ?p) v) (k + 5))"
    unfolding five f[symmetric] using w[of v4 5 3 "chs_end ?p" "Suc (Suc (Suc (Suc k)))"] assms(5) n c by simp
  show ?thesis unfolding write_mbr_part_def Let_def
    by (rule does_then[OF 1], rule does_then[OF 2], rule does_then[OF 3], rule does_then[OF 4], rule 5)
qed

text \<open>The table with its first \<open>n\<close> entries written; the status bytes stay as they are.\<close>

definition in_entry :: "nat \<Rightarrow> nat \<Rightarrow> bool" where
  "in_entry n x \<longleftrightarrow> 446 \<le> x \<and> x < 446 + 16 * n \<and> (x - 446) mod 16 \<noteq> 0"

definition entry_byte :: "mbr_part list \<Rightarrow> nat \<Rightarrow> u8" where
  "entry_byte ps x = part_bytes (ps ! ((x - 446) div 16)) ! ((x - 446) mod 16 - 1)"

definition with_parts :: "mbr_part list \<Rightarrow> nat \<Rightarrow> u8 list \<Rightarrow> u8 list" where
  "with_parts ps n v = map (\<lambda>x. if in_entry n x then entry_byte ps x else v ! x) [0..<length v]"

lemma entry_position:
  assumes "446 \<le> (x :: nat)"
  shows "447 + 16 * j \<le> x \<and> x < 447 + 16 * j + 15 \<longleftrightarrow> (x - 446) div 16 = j \<and> (x - 446) mod 16 \<noteq> 0"
proof -
  define y where "y = x - 446"
  have x: "x = 446 + y" using assms by (simp add: y_def)
  have d: "y = y div 16 * 16 + y mod 16" "y mod 16 < 16" by simp_all
  have "y div 16 = j \<and> y mod 16 \<noteq> 0" if a: "16 * j + 1 \<le> y" "y < 16 * j + 16"
  proof
    show "y div 16 = j" using a by (intro div_nat_eqI) simp_all
    then show "y mod 16 \<noteq> 0" using d(1) a(1) by linarith
  qed
  moreover have "16 * j + 1 \<le> y \<and> y < 16 * j + 16" if a: "y div 16 = j" "y mod 16 \<noteq> 0"
    using d unfolding a(1) using a(2) by linarith
  ultimately show ?thesis unfolding y_def[symmetric] unfolding x by auto
qed

lemma in_entry_Suc: "in_entry (Suc j) x \<longleftrightarrow> in_entry j x \<or> 447 + 16 * j \<le> x \<and> x < 447 + 16 * j + 15"
proof (cases "446 \<le> x")
  case True
  have in_div: "in_entry n x \<longleftrightarrow> (x - 446) div 16 < n \<and> (x - 446) mod 16 \<noteq> 0" for n
    using True div_less_iff_less_mult[of 16 "x - 446" n] by (auto simp: in_entry_def)
  show ?thesis unfolding in_div entry_position[OF True] by (auto simp: less_Suc_eq)
qed (auto simp: in_entry_def)

lemma with_parts_Suc:
  assumes "sound_part (ps ! j)" "446 + 16 * Suc j \<le> length v"
  shows "splice_at (447 + 16 * j) (part_bytes (ps ! j)) (with_parts ps j v) = with_parts ps (Suc j) v" (is "?l = ?r")
proof (rule nth_equalityI)
  note len = length_part_bytes[OF assms(1)]
  show "length ?l = length ?r" using assms(2) len by (simp add: splice_at_length with_parts_def)
  fix x
  assume "x < length ?l"
  then have x: "x < length v" using assms(2) len by (simp add: splice_at_length with_parts_def)
  have l: "?l ! x = (if 447 + 16 * j \<le> x \<and> x < 447 + 16 * j + 15 then part_bytes (ps ! j) ! (x - (447 + 16 * j)) else with_parts ps j v ! x)"
    using assms(2) len x splice_at_nth[of "447 + 16 * j" "part_bytes (ps ! j)" "with_parts ps j v" x] by (simp add: with_parts_def)
  have r: "?r ! x = (if in_entry (Suc j) x then entry_byte ps x else v ! x)" using x by (simp add: with_parts_def)
  show "?l ! x = ?r ! x"
  proof (cases "447 + 16 * j \<le> x \<and> x < 447 + 16 * j + 15")
    case True
    then have "(x - 446) div 16 = j" using entry_position[of x j] by simp
    moreover have "(x - 446) mod 16 - 1 = x - (447 + 16 * j)"
      using calculation div_mult_mod_eq[of "x - 446" 16] by linarith
    ultimately show ?thesis using True l r by (simp add: in_entry_Suc entry_byte_def)
  next
    case False
    then have "?l ! x = with_parts ps j v ! x" "in_entry (Suc j) x = in_entry j x" using l in_entry_Suc[of j x] by argo+
    then show ?thesis using r x by (simp add: with_parts_def)
  qed
qed

lemma write_parts_does:
  assumes "length ps \<le> 4" "\<forall>p\<in>set ps. sound_part p" "fits v 0 512" "k \<le> 236"
  shows "does (opened v k) (for_io (write_mbr_part ps) 0 (length ps)) () (opened (with_parts ps (length ps) v) (k + 5 * length ps))"
proof -
  have l: "512 \<le> length v" using fits_le[OF assms(3)] by simp
  have "does (opened (with_parts ps j v) (k + 5 * j)) (write_mbr_part ps (0 + j)) () (opened (with_parts ps (Suc j) v) (k + 5 * Suc j))"
    if j: "j < length ps" for j
  proof -
    have "fits (with_parts ps j v) 0 512" using assms(3) by (simp add: fits_def with_parts_def)
    moreover have "446 + 16 * Suc j \<le> length v" using j assms(1) l by simp
    moreover have "k + 5 * Suc j = k + 5 * j + 5" by simp
    ultimately show ?thesis
      using write_mbr_part_does[OF j assms(1), of "with_parts ps j v" "k + 5 * j"] with_parts_Suc[of ps j v] assms(1,2,4) j by (simp add: add.assoc del: mult_Suc_right)
  qed
  moreover have "with_parts ps 0 v = v" by (intro nth_equalityI) (auto simp: with_parts_def in_entry_def)
  ultimately show ?thesis using does_for[where Q = "\<lambda>j. opened (with_parts ps j v) (k + 5 * j)" and i = 0] by fastforce
qed

lemma write_id_does:
  assumes "fits v 0 512" "k \<le> 252"
  shows "does (opened v k) (for_io (\<lambda>i. device_write [rnd i] (0x1b8 + of_nat i) 1) 0 4) () (opened (splice_at 440 (map rnd [0..<4]) v) (k + 4))"
proof -
  have "does (opened v k) (for_io (\<lambda>i. device_write [rnd i] (0x1b8 + of_nat i) 1) 0 4) ()
      (opened (splice_at 440 (concat (map (\<lambda>i. [rnd i]) [0..<4])) v) (k + 4))"
  proof (rule does_row[where loc = "\<lambda>i. 0x1b8 + of_nat i" and m = 1])
    show "fits v 440 (4 * unat (1 :: u64))" using assms(1) by (simp add: fits_def)
  qed (use assms(2) in \<open>simp_all add: unat_word_ariths unat_of_nat\<close>)
  then show ?thesis by (simp add: concat_map_singleton del: upt_rec_numeral)
qed

subsection \<open>The partitions of the GUID table\<close>

definition gpt_entry_in :: "u8 list \<Rightarrow> gpt_table_header \<Rightarrow> nat \<Rightarrow> nat \<Rightarrow> gpt_entry" where
  "gpt_entry_in v h base i = gpt_entry_of (take 128 (drop (base + i * unat (size_of_partition_entry h)) v))"

definition used_entry :: "gpt_entry \<Rightarrow> bool" where
  "used_entry e \<longleftrightarrow> unique_partition_guid e \<noteq> (0, 0)"

definition used_entries :: "u8 list \<Rightarrow> gpt_table_header \<Rightarrow> nat \<Rightarrow> gpt_entry list" where
  "used_entries v h base = filter used_entry (map (gpt_entry_in v h base) [0..<unat (number_of_partition_entries h)])"

definition entry_part :: "gpt_entry \<Rightarrow> mbr_part" where
  "entry_part e = the (part_of_entry e)"

lemma read_entry_does:
  assumes "fits v (unat loc) 128"
  shows "does (opened v k) (read_gpt_entry loc) (gpt_entry_of (take 128 (drop (unat loc) v))) (opened v k)"
  unfolding read_gpt_entry_def using does_bind[OF does_read[of v loc 128 k] does_ret] assms by simp

lemma gather_does:
  assumes "\<forall>j<i + n. fits v (unat base + j * unat (size_of_partition_entry h)) 128" "length v < 2 ^ 63" "i + n < 2 ^ 32"
    and "es = filter used_entry (map (gpt_entry_in v h (unat base)) [i..<i + n])"
    and "length ps + length es \<le> 4" "\<forall>e\<in>set es. part_of_entry e \<noteq> None"
  shows "does (opened v k) (gather_parts h base i n ps) (Some (ps @ map entry_part es)) (opened v k)"
  using assms(1,3-)
proof (induction n arbitrary: i ps es)
  case (Suc n)
  let ?sz = "unat (size_of_partition_entry h)" and ?e = "gpt_entry_in v h (unat base) i"
  have at: "fits v (unat base + i * ?sz) 128" using Suc.prems(1) by simp
  then have lt: "unat base + i * ?sz < 2 ^ 63" using fits_le[OF at] assms(2) by linarith
  have u: "unat (of_nat i * ucast (size_of_partition_entry h) :: u64) = i * ?sz"
  proof -
    have "unat (of_nat i :: u64) = i" "unat (ucast (size_of_partition_entry h) :: u64) = ?sz"
      using Suc.prems(2) by (simp_all add: unat_of_nat unat_ucast_up)
    then show ?thesis using unat_times[of "of_nat i" "ucast (size_of_partition_entry h)"] lt by simp
  qed
  let ?loc = "base + of_nat i * ucast (size_of_partition_entry h)"
  have loc: "add_u64_overflow base (of_nat i * ucast (size_of_partition_entry h)) = (False, ?loc)" "unat ?loc = unat base + i * ?sz"
    using add_u64_ok[of base "of_nat i * ucast (size_of_partition_entry h)"] u lt by (simp_all add: unat_word_ariths)
  have rd: "does (opened v k) (read_gpt_entry ?loc) ?e (opened v k)"
    using read_entry_does[of v ?loc k] at loc(2) by (simp add: gpt_entry_in_def)
  let ?es = "filter used_entry (map (gpt_entry_in v h (unat base)) [Suc i..<Suc i + n])"
  have es: "es = (if used_entry ?e then ?e # ?es else ?es)"
    unfolding Suc.prems(3) by (simp add: upt_conv_Cons del: upt_Suc)
  have ih: "does (opened v k) (gather_parts h base (Suc i) n qs) (Some (qs @ map entry_part ?es)) (opened v k)"
    if "length qs + length ?es \<le> 4" for qs
    using Suc.IH[of "Suc i" ?es qs] Suc.prems(1,2,5) es that by (auto split: if_splits)
  show ?case
    unfolding gather_parts.simps loc(1) prod.case if_False
  proof (rule does_bind[OF rd], cases "used_entry ?e")
    case False
    then show "does (opened v k) (if unique_partition_guid ?e = (0, 0) then gather_parts h base (Suc i) n ps else if length ps = 4 then retI None
        else case part_of_entry ?e of None \<Rightarrow> retI None | Some p \<Rightarrow> gather_parts h base (Suc i) n (ps @ [p]))
        (Some (ps @ map entry_part es)) (opened v k)"
      using ih[of ps] es Suc.prems(4) by (simp add: used_entry_def)
  next
    case True
    then obtain p where p: "part_of_entry ?e = Some p" using Suc.prems(5) es by fastforce
    then show "does (opened v k) (if unique_partition_guid ?e = (0, 0) then gather_parts h base (Suc i) n ps else if length ps = 4 then retI None
        else case part_of_entry ?e of None \<Rightarrow> retI None | Some p \<Rightarrow> gather_parts h base (Suc i) n (ps @ [p]))
        (Some (ps @ map entry_part es)) (opened v k)"
      using ih[of "ps @ [p]"] es True Suc.prems(4) by (simp add: used_entry_def entry_part_def)
  qed
qed (simp add: does_ret)

subsection \<open>The conversion\<close>

definition iso_image :: "(nat \<Rightarrow> u8) \<Rightarrow> gpt_table_header \<Rightarrow> nat \<Rightarrow> mbr_part list \<Rightarrow> u8 list \<Rightarrow> u8 list" where
  "iso_image rnd h lb ps v =
     map (\<lambda>x. if 440 \<le> x \<and> x < 444 then rnd (x - 440)
              else if in_entry (length ps) x then entry_byte ps x
              else if erased h lb x then 0
              else v ! x) [0..<length v]"

lemma lib_call_does: "does (opened v k) (checkI lib_call) () (opened v k)"
  unfolding does_def
proof (intro allI impI)
  fix s
  assume o: "opened v k s"
  then have "dev_wf s" "reliable s" by (simp_all add: opened_def)
  from lib_call_view[OF this] show "\<exists>t. checkI lib_call s = (Some (), t) \<and> opened v k t"
    using opened_same_view[OF o] by (auto simp: checkI_def)
qed

lemma iso_image_steps:
  assumes "512 \<le> length v"
  shows "with_parts ps (length ps) (splice_at 440 (map rnd [0..<4]) (erase h lb v)) = iso_image rnd h lb ps v" (is "?l = ?r")
proof (rule nth_equalityI)
  let ?w = "splice_at 440 (map rnd [0..<4]) (erase h lb v)"
  have e: "length (erase h lb v) = length v" by (simp add: erase_def)
  then have w: "length ?w = length v" using assms by (simp add: splice_at_length)
  then show "length ?l = length ?r" by (simp add: with_parts_def iso_image_def)
  fix x
  assume "x < length ?l"
  then have x: "x < length v" using w by (simp add: with_parts_def)
  have "?w ! x = (if 440 \<le> x \<and> x < 444 then rnd (x - 440) else erase h lb v ! x)"
    using splice_at_nth[of 440 "map rnd [0..<4]" "erase h lb v" x] e x assms by (auto simp del: upt_rec_numeral)
  then show "?l ! x = ?r ! x" using x w by (auto simp: with_parts_def iso_image_def erase_def in_entry_def)
qed

lemma part_of_entry_sound: "part_of_entry e = Some p \<Longrightarrow> sound_part p"
  using part_of_entry_chs by (auto simp: sound_part_def)

lemma convert_does:
  assumes "0 < unat lb" "fits d 0 (34 * unat lb)" "fits d 0 512" "fits d 0 ((unat (alternate_lba h) + 1) * unat lb)" "length d < 2 ^ 63"
    and "fits d 32769 5" "take 5 (drop 32769 d) = ascii ''CD001''"
    and "unat (partition_entry_lba h) * unat lb < 2 ^ 64"
    and "\<forall>j<unat (number_of_partition_entries h).
      fits d (unat (partition_entry_lba h) * unat lb + j * unat (size_of_partition_entry h)) 128"
    and "es = used_entries d h (unat (partition_entry_lba h) * unat lb)" "length es \<le> 4" "\<forall>e\<in>set es. part_of_entry e \<noteq> None"
  shows "\<exists>k'\<le>91. does (opened d 0) (convert_iso rnd True h lb) False (opened (iso_image rnd h (unat lb) (map entry_part es) d) k')"
proof -
  let ?base = "partition_entry_lba h * lb" and ?n = "unat (number_of_partition_entries h)" and ?ps = "map entry_part es"
  have b: "unat ?base = unat (partition_entry_lba h) * unat lb" using assms(8) by (rule unat_times)
  have n: "?n < 2 ^ 32" using unsigned_less[of "number_of_partition_entries h"] by simp
  have rd: "does (opened d 0) (device_read 32769 5) (ascii ''CD001'') (opened d 0)"
    using does_read[of d 32769 5 0] assms(6,7) by simp
  have g: "does (opened d 0) (gather_parts h ?base 0 ?n []) (Some ?ps) (opened d 0)"
    using gather_does[of 0 ?n d ?base h es "[]" 0] assms(5,9-12) b n by (simp add: used_entries_def)
  obtain k where k: "k \<le> 67" "does (opened d 0) (nuke_gpt h lb) () (opened (erase h (unat lb) d) k)"
    using nuke_does[OF assms(1,2,4) _ assms(5), of 0] by auto
  have f: "fits (erase h (unat lb) d) 0 512" using assms(3) by (simp add: erase_def fits_def)
  have l: "512 \<le> length d" using fits_le[OF assms(3)] by simp
  let ?w = "splice_at 440 (map rnd [0..<4]) (erase h (unat lb) d)"
  have i: "does (opened (erase h (unat lb) d) k) (for_io (\<lambda>i. device_write [rnd i] (0x1b8 + of_nat i) 1) 0 4) () (opened ?w (k + 4))"
    using write_id_does[OF f] k(1) by simp
  have "fits ?w 0 512" using f l by (simp add: fits_splice erase_def del: upt_rec_numeral)
  moreover have "\<forall>p\<in>set ?ps. sound_part p" using assms(12) part_of_entry_sound by (auto simp: entry_part_def)
  ultimately have p: "does (opened ?w (k + 4)) (for_io (write_mbr_part ?ps) 0 (length ?ps)) () (opened (iso_image rnd h (unat lb) ?ps d) (k + 4 + 5 * length ?ps))"
    using write_parts_does[of ?ps ?w "k + 4"] k(1) assms(11) iso_image_steps[OF l, of ?ps rnd h "unat lb"] by (simp del: upt_rec_numeral)
  note nuke = does_then[OF k(2) does_then[OF i does_then[OF p does_ret[of _ False]]]]
  have "does (opened d 0) (convert_iso rnd True h lb) False (opened (iso_image rnd h (unat lb) ?ps d) (k + 4 + 5 * length ?ps))"
    unfolding convert_iso_def mul_u64_ok[OF assms(8)] prod.case if_False not_True_eq_False
    by (rule does_bind[OF rd], simp, rule does_bind[OF g], simp, rule does_then[OF lib_call_does nuke, unfolded length_map])
  then show ?thesis using k(1) assms(11) by (intro exI[of _ "k + 4 + 5 * length ?ps"]) simp
qed

subsection \<open>The converted image\<close>

text \<open>
  A hybrid ISO image that the tool converts: a GUID partition table with blocks of \<open>lb\<close>
  bytes and both headers in place, at most four partitions, all of which can be described
  by an MBR, the first of them behind block 62.
\<close>

definition hybrid_iso :: "u8 list \<Rightarrow> gpt_table_header \<Rightarrow> u64 \<Rightarrow> gpt_entry list \<Rightarrow> bool" where
  "hybrid_iso d h lb es \<longleftrightarrow>
     (lb = 512 \<or> lb = 4096 \<and> take 8 (drop 512 d) \<noteq> ascii ''EFI PART'') \<and>
     h = gpt_header_of (take 96 (drop (unat lb) d)) \<and> is_gpt h \<and> 128 \<le> size_of_partition_entry h \<and>
     fits d 0 ((unat (alternate_lba h) + 1) * unat lb) \<and> take 8 (drop (unat lb * unat (alternate_lba h)) d) = ascii ''EFI PART'' \<and>
     fits d 0 (34 * unat lb) \<and> fits d 32769 5 \<and> take 5 (drop 32769 d) = ascii ''CD001'' \<and>
     unat (partition_entry_lba h) * unat lb < 2 ^ 64 \<and>
     (\<forall>j<unat (number_of_partition_entries h). fits d (unat (partition_entry_lba h) * unat lb + j * unat (size_of_partition_entry h)) 128) \<and>
     es = used_entries d h (unat (partition_entry_lba h) * unat lb) \<and> length es \<le> 4 \<and>
     (\<forall>e\<in>set es. part_of_entry e \<noteq> None \<and> 63 \<le> starting_lba e)"

lemma slice_differs: "a < length v \<Longrightarrow> v ! a \<noteq> b \<Longrightarrow> take n (drop a v) \<noteq> b # bs"
  by (metis Cons_nth_drop_Suc list.inject take_Cons' list.distinct(1))

lemma iso_entry:
  assumes "\<forall>p\<in>set ps. sound_part p" "length ps \<le> 4" "i < length ps" "512 \<le> length v" "512 \<le> 34 * lb"
  shows "take 16 (drop (446 + 16 * i) (iso_image rnd h lb ps v)) = 0 # part_bytes (ps ! i)" (is "?l = ?r")
proof (rule nth_equalityI)
  have i: "i < 4" using assms(2,3) by simp
  have p: "length (part_bytes (ps ! i)) = 15" using assms(1,3) by (intro length_part_bytes) simp
  show "length ?l = length ?r" using p assms(4) i by (simp add: iso_image_def)
  fix j
  assume "j < length ?l"
  then have j: "j < 16" using p by simp
  let ?x = "446 + 16 * i + j"
  have "?x < length v" using assms(4) i j by simp
  moreover have "(?x - 446) div 16 = i" "(?x - 446) mod 16 = j" using j by simp_all
  moreover have "in_entry (length ps) ?x \<longleftrightarrow> j \<noteq> 0" using j assms(3) by (simp add: in_entry_def)
  moreover have "erased h lb ?x" using assms(5) i j by (simp add: erased_def)
  ultimately have "iso_image rnd h lb ps v ! ?x = (if j = 0 then 0 else part_bytes (ps ! i) ! (j - 1))"
    by (cases "j = 0") (simp_all add: iso_image_def entry_byte_def)
  then show "?l ! j = ?r ! j" using j assms(4) i by (simp add: nth_Cons' iso_image_def)
qed

lemma iso_zero:
  assumes "x < length v" "x < 34 * lb" "\<not> (440 \<le> x \<and> x < 444)" "x < 446 \<or> 446 + 16 * length ps \<le> x \<or> (x - 446) mod 16 = 0"
  shows "iso_image rnd h lb ps v ! x = 0"
  using assms by (auto simp: iso_image_def in_entry_def erased_def)

lemma part_fields:
  assumes "part_of_entry e = Some p"
  shows "gpt2mbr_type (fst (partition_type_guid e)) (snd (partition_type_guid e)) = Some (ptype p)"
    "unat (ucast (lba_start p) :: u32) = unat (starting_lba e)"
    "unat (ucast (lba_end p - lba_start p + 1) :: u32) = unat (ending_lba e - starting_lba e + 1)" "lba_start p = starting_lba e"
    "chs_start p = lba2chs (starting_lba e)" "chs_end p = lba2chs (ending_lba e)"
proof -
  have "\<not> 0xffffffff < starting_lba e" "\<not> 0xffffffff < ending_lba e - starting_lba e + 1" using assms by (auto simp: part_of_entry_def split: if_splits)
  then have "unat (starting_lba e) < 2 ^ 32" "unat (ending_lba e - starting_lba e + 1) < 2 ^ 32" by (simp_all add: word_less_nat_alt not_less)
  then show "unat (ucast (lba_start p) :: u32) = unat (starting_lba e)"
      "unat (ucast (lba_end p - lba_start p + 1) :: u32) = unat (ending_lba e - starting_lba e + 1)"
    using assms by (auto simp: part_of_entry_def unat_ucast_down split: if_splits)
qed (use assms in \<open>auto simp: part_of_entry_def split: if_splits\<close>)

text \<open>A number of four bytes in a table entry.\<close>

lemma entry_fields:
  assumes "take 16 (drop a v) = 0 # part_bytes p" "sound_part p"
  shows "v ! a = 0" "v ! (a + 4) = ptype p" "(le_at 4 (a + 8) v :: u32) = ucast (lba_start p)"
    "(le_at 4 (a + 12) v :: u32) = ucast (lba_end p - lba_start p + 1)"
proof -
  have c: "length (chs_start p) = 3" "length (chs_end p) = 3" using assms(2) by (simp_all add: sound_part_def)
  have "length (take 16 (drop a v)) = 16" using assms length_part_bytes by simp
  then have l: "a + 16 \<le> length v" by simp
  have n: "v ! (a + j) = (0 # part_bytes p) ! j" if "j < 16" for j
    using assms(1) that l by (metis add_leD1 nth_drop nth_take)
  show "v ! a = 0" using n[of 0] by simp
  show "v ! (a + 4) = ptype p" using n[of 4] c by (simp add: part_bytes_def nth_append nth_Cons')
  have f: "(le_at 4 (a + j) v :: u32) = le_at 4 0 (take 4 (drop j (0 # part_bytes p)))" if "j + 4 \<le> 16" for j
    using that l le_at_shift[where ?'a = 32, of j 4 16 a v] le_at_take_drop[where ?'a = 32, of j 4 "0 # part_bytes p"] assms length_part_bytes[OF assms(2)] by simp
  have "take 4 (drop 8 (0 # part_bytes p)) = le_bytes 4 (ucast (lba_start p) :: u32)"
    "take 4 (drop 12 (0 # part_bytes p)) = le_bytes 4 (ucast (lba_end p - lba_start p + 1) :: u32)"
    using c by (simp_all add: part_bytes_def drop_Cons' )
  then show "(le_at 4 (a + 8) v :: u32) = ucast (lba_start p)" "(le_at 4 (a + 12) v :: u32) = ucast (lba_end p - lba_start p + 1)"
    using f[of 8] f[of 12] by (simp_all add: le_at_le_bytes)
qed

lemma hybrid_isoD:
  assumes "hybrid_iso d h lb es"
  shows "lb = 512 \<or> lb = 4096 \<and> take 8 (drop 512 d) \<noteq> ascii ''EFI PART''"
    "h = gpt_header_of (take 96 (drop (unat lb) d))" "is_gpt h" "128 \<le> size_of_partition_entry h"
    "fits d 0 ((unat (alternate_lba h) + 1) * unat lb)" "take 8 (drop (unat lb * unat (alternate_lba h)) d) = ascii ''EFI PART''"
    "fits d 0 (34 * unat lb)" "fits d 32769 5" "take 5 (drop 32769 d) = ascii ''CD001''"
    "unat (partition_entry_lba h) * unat lb < 2 ^ 64"
    "\<forall>j<unat (number_of_partition_entries h). fits d (unat (partition_entry_lba h) * unat lb + j * unat (size_of_partition_entry h)) 128"
    "es = used_entries d h (unat (partition_entry_lba h) * unat lb)" "length es \<le> 4"
    "\<forall>e\<in>set es. part_of_entry e \<noteq> None" "\<forall>e\<in>set es. 63 \<le> starting_lba e"
  using assms unfolding hybrid_iso_def by blast+

lemma hybrid_iso_sizes:
  assumes "hybrid_iso d h lb es"
  shows "512 \<le> unat lb" "unat lb \<le> 4096" "17408 \<le> length d" "fits d 0 17408"
proof -
  show b: "512 \<le> unat lb" "unat lb \<le> 4096" using hybrid_isoD(1)[OF assms] by auto
  show "fits d 0 17408" using fits_part[OF hybrid_isoD(7)[OF assms], of 0 17408] b by simp
  then show "17408 \<le> length d" using fits_le by fastforce
qed

lemma iso_plain:
  assumes "hybrid_iso d h lb es"
  shows "plain_mbr (iso_image rnd h (unat lb) (map entry_part es) d)" "\<not> active (iso_image rnd h (unat lb) (map entry_part es) d)"
proof -
  let ?ps = "map entry_part es" and ?v = "iso_image rnd h (unat lb) (map entry_part es) d"
  note lb = hybrid_iso_sizes(1)[OF assms] and len = hybrid_iso_sizes(3)[OF assms]
  have n: "length ?ps \<le> 4" and es: "\<forall>e\<in>set es. part_of_entry e \<noteq> None \<and> 63 \<le> starting_lba e" using hybrid_isoD(13-15)[OF assms] by simp_all
  have lv: "length ?v = length d" by (simp add: iso_image_def)
  have z: "?v ! x = 0" if "x < 440 \<or> 510 \<le> x \<and> x < 17408 \<or> x \<in> {446, 462, 478, 494}" for x
    using that len lb n by (intro iso_zero) auto
  have sig: "take m (drop x ?v) \<noteq> ascii (c # cs)" if "x < 440 \<or> 510 \<le> x \<and> x < 17408" "of_char c \<noteq> (0 :: u8)" for m x c cs
    using slice_differs[of x ?v "of_char c" m "map of_char cs"] z[of x] that len lv by (auto simp: ascii_def)
  have b: "le_bytes 2 (0xef53 :: u16) = [0x53, 0xef]" by code_simp
  have fs: "take 2 (drop 1080 ?v) \<noteq> le_bytes 2 (0xef53 :: u16)"
    using slice_differs[of 1080 ?v "0x53" 2 "[0xef]"] z[of 1080] len lv by (simp add: b)
  have tab: "63 \<le> (le_at 4 (p + 8) ?v :: u32)" if p: "p \<in> {446, 462, 478, 494}" and nz: "?v ! (p + 4) \<noteq> 0" for p
  proof -
    obtain i where i: "p = 446 + 16 * i" "i < 4" using p by (auto intro: that[of 0] that[of 1] that[of 2] that[of 3])
    have "i < length ?ps"
    proof (rule ccontr)
      assume "\<not> i < length ?ps"
      then have "?v ! (p + 4) = 0" using i len lb by (intro iso_zero) auto
      then show False using nz by simp
    qed
    then have "es ! i \<in> set es" by simp
    then obtain q where q: "part_of_entry (es ! i) = Some q" "?ps ! i = q" "63 \<le> starting_lba (es ! i)"
      using es \<open>i < length ?ps\<close> by (fastforce simp: entry_part_def)
    have "\<forall>p\<in>set ?ps. sound_part p" using es part_of_entry_sound by (auto simp: entry_part_def)
    from iso_entry[OF this n \<open>i < length ?ps\<close>, of d "unat lb" rnd h] have "take 16 (drop p ?v) = 0 # part_bytes q" using q len lb i by simp
    then have "(le_at 4 (p + 8) ?v :: u32) = ucast (lba_start q)" using entry_fields(3)[OF _ part_of_entry_sound[OF q(1)]] by simp
    then have "unat (le_at 4 (p + 8) ?v :: u32) = unat (starting_lba (es ! i))" using part_fields(2)[OF q(1)] by simp
    then show ?thesis using q(3) by (simp add: word_le_nat_alt)
  qed
  show "plain_mbr ?v" unfolding plain_mbr_def using z sig fs tab by simp
  show "\<not> active ?v" unfolding active_def using z by auto
qed

subsection \<open>The installation\<close>

lemma header_does:
  assumes "fits v (unat g) 96"
  shows "does (opened v k) (read_gpt_header g) (gpt_header_of (take 96 (drop (unat g) v))) (opened v k)"
  unfolding read_gpt_header_def using does_bind[OF does_read[of v g 96 k] does_ret] assms by simp

lemma iso_probe_does:
  assumes "hybrid_iso d h lb es"
  shows "does (opened d 0) (probe_gpt [512, 4096]) (Some (h, lb)) (opened d 0)"
proof -
  have fit: "fits d (unat g) 96" if "unat g \<le> 4096" for g :: u64
    using that fits_part[OF hybrid_iso_sizes(4)[OF assms], of "unat g" 96] by simp
  have sig: "signature (gpt_header_of (take 96 (drop n d))) = take 8 (drop n d)" for n by (simp add: gpt_header_of_def)
  note h = hybrid_isoD(2,3)[OF assms]
  show ?thesis
  proof (cases "lb = 512")
    case True
    have "does (opened d 0) (read_gpt_header 512) h (opened d 0)" using header_does[OF fit, of 512 0] h(1) True by simp
    then show ?thesis unfolding probe_gpt.simps by (rule does_bind) (use h(2) True in \<open>simp add: does_ret\<close>)
  next
    case False
    then have lb: "lb = 4096" "take 8 (drop 512 d) \<noteq> ascii ''EFI PART''" using hybrid_isoD(1)[OF assms] by simp_all
    have 1: "does (opened d 0) (read_gpt_header 512) (gpt_header_of (take 96 (drop 512 d))) (opened d 0)"
      using header_does[OF fit, of 512 0] by simp
    have 2: "does (opened d 0) (read_gpt_header 4096) h (opened d 0)" using header_does[OF fit, of 4096 0] h(1) lb(1) by simp
    have "does (opened d 0) (bindI (read_gpt_header 4096) (\<lambda>h. if is_gpt h then retI (Some (h, 4096)) else retI None)) (Some (h, lb)) (opened d 0)"
      by (rule does_bind[OF 2]) (use h(2) lb(1) in \<open>simp add: does_ret\<close>)
    then show ?thesis unfolding probe_gpt.simps by (intro does_bind[OF 1]) (use lb(2) sig[of 512] in simp)
  qed
qed

lemma iso_secondary_does:
  assumes "hybrid_iso d h lb es" "length d < 2 ^ 63"
  shows "does (opened d 0) (check_secondary h lb) () (opened d 0)"
proof -
  let ?loc = "lb * alternate_lba h"
  have f: "fits d 0 ((unat (alternate_lba h) + 1) * unat lb)" by (rule hybrid_isoD(5)[OF assms(1)])
  have m: "unat lb * unat (alternate_lba h) + unat lb \<le> (unat (alternate_lba h) + 1) * unat lb" by (simp add: mult.commute)
  have "unat (alternate_lba h) * unat lb < 2 ^ 64" using fits_le[OF f] assms(2) by simp
  then have lt: "unat lb * unat (alternate_lba h) < 2 ^ 64" by (simp only: mult.commute)
  have u: "unat ?loc = unat lb * unat (alternate_lba h)" using lt by (rule unat_times)
  have "fits d (unat ?loc) 96" using fits_part[OF f, of "unat ?loc" 96] m u hybrid_iso_sizes(1)[OF assms(1)] by simp
  from header_does[OF this, of 0] have r: "does (opened d 0) (read_gpt_header ?loc) (gpt_header_of (take 96 (drop (unat ?loc) d))) (opened d 0)" .
  have "signature (gpt_header_of (take 96 (drop (unat ?loc) d))) = ascii ''EFI PART''"
    using hybrid_isoD(6)[OF assms(1)] u by (simp add: gpt_header_of_def)
  then have "does (opened d 0) (bindI (read_gpt_header ?loc) (\<lambda>h2. if is_gpt h2 then retI () else failI)) () (opened d 0)"
    by (intro does_bind[OF r]) (simp add: does_ret)
  moreover have "\<not> size_of_partition_entry h < 128" using hybrid_isoD(4)[OF assms(1)] by (simp add: not_less)
  ultimately show ?thesis by (simp add: check_secondary_def mul_u64_ok[OF lt])
qed

lemma install_iso_does:
  assumes "hybrid_iso d h lb es" "length d < 2 ^ 63" "gpt2mbr_allowed opts" "512 < length img" "fits d 0 (length img)"
    and "v = splice_at 446 [0x80] (iso_image rnd h (unat lb) (map entry_part es) d)"
  shows "\<exists>k. does (opened d 0) (install opts img rnd) () (\<lambda>t. opened (boot_image img 512 v) k t \<and> disk t = boot_image img 512 v)"
proof -
  let ?i = "iso_image rnd h (unat lb) (map entry_part es) d"
  note hyb = hybrid_isoD[OF assms(1)] and sz = hybrid_iso_sizes[OF assms(1)]
  have li: "length ?i = length d" by (simp add: iso_image_def)
  have "fits d 0 512" using sz(4) by (simp add: fits_def)
  then obtain k where k: "k \<le> 91" and c: "does (opened d 0) (convert_iso rnd True h lb) False (opened ?i k)"
    using convert_does[OF _ hyb(7) _ hyb(5) assms(2) hyb(8-14), of rnd] sz(1) by auto
  have big: "4608 \<le> length ?i" using sz(3) li by simp
  have m: "marked ?i = v" using iso_plain(2)[OF assms(1)] assms(6) by (simp add: marked_def)
  obtain k' where k': "k' \<le> Suc k"
    and p: "does (opened ?i k) (bindI (check_mbr (force opts)) (\<lambda>mbr. if mbr then retI 512 else failI)) (512 :: u64) (opened v k')"
    using mbr_place_does(2)[OF big iso_plain(1)[OF assms(1)], of k "force opts"] k m by auto
  have fv: "fits v = fits d" using big li m marked_fits[OF big] by (auto simp: fun_eq_iff fits_def)
  have "length img < 2 ^ 64" using fits_le[OF assms(5)] assms(2) by simp
  then have w: "does (opened v k') (write_stages img 512) () (\<lambda>t. opened (boot_image img 512 v) (k' + 5) t \<and> disk t = boot_image img 512 v)"
    using assms(4,5) k k' fv by (intro write_stages_does) (simp_all add: fits_def)
  have g: "does (opened d 0) (thenI (check_secondary h lb) (bindI (convert_iso rnd (gpt2mbr_allowed opts) h lb)
      (\<lambda>gpt. retI (if gpt then Some (h, lb) else None)))) None (opened ?i k)"
    unfolding eqTrueI[OF assms(3)] by (rule does_then[OF iso_secondary_does[OF assms(1,2)] does_bind[OF c]]) (simp add: does_ret)
  show ?thesis
    unfolding install_def
    by (rule exI, rule does_bind[OF iso_probe_does[OF assms(1)]], unfold option.case prod.case, rule does_bind[OF g], unfold option.case,
        rule does_bind[OF p], rule w)
qed

lemma run_install_iso:
  assumes "\<forall>n. ok n" "length d < 2 ^ 63" "hybrid_iso d h lb es" "gpt2mbr_allowed opts" "512 < length img" "length img \<le> length d div 512 * 512"
  shows "\<exists>f t. run_install opts img rnd (dev_start d ok) = (True, f, t) \<and>
    disk t = boot_image img 512 (splice_at 446 [0x80] (iso_image rnd h (unat lb) (map entry_part es) d))"
proof -
  let ?v = "splice_at 446 [0x80] (iso_image rnd h (unat lb) (map entry_part es) d)"
  obtain s where s: "device_init (dev_start d ok) = (True, s)" "underway d 512 s" and o: "opened d 0 s"
    using device_init_opened[OF assms(1,2)] hybrid_iso_sizes(3)[OF assms(3)] by auto
  have len: "length img < 2 ^ 64" using assms(2,6) by simp
  obtain k where "does (opened d 0) (install opts img rnd) () (\<lambda>t. opened (boot_image img 512 ?v) k t \<and> disk t = boot_image img 512 ?v)"
    using install_iso_does[OF assms(3,2,4,5) _ refl, of rnd] assms(6) by (auto simp: fits_def)
  then obtain t where t: "install opts img rnd s = (Some (), t)" "disk t = boot_image img 512 ?v" using o unfolding does_def by blast
  then show ?thesis using run_install_from(2)[OF s assms(5) len t(1)] by auto
qed



text \<open>A small image: one partition of one block, and blocks of 512 or of 4096 bytes.\<close>

definition header_example :: "u8 list" where
  "header_example = ascii ''EFI PART'' @ replicate 16 0 @ le_bytes 8 (1 :: u64) @ le_bytes 8 (1 :: u64) @ replicate 32 0 @
     le_bytes 8 (2 :: u64) @ le_bytes 4 (1 :: u32) @ le_bytes 4 (128 :: u32) @ replicate 8 0"

definition entry_example :: "u8 list" where
  "entry_example = le_bytes 8 (0x11d2f81fc12a7328 :: u64) @ le_bytes 8 (0x3bc93ec9a0004bba :: u64) @ le_bytes 8 (1 :: u64) @ replicate 8 0 @
     le_bytes 8 (64 :: u64) @ le_bytes 8 (64 :: u64) @ replicate 80 0"

definition iso_example :: "nat \<Rightarrow> u8 list" where
  "iso_example lb = replicate lb 0 @ header_example @ replicate (lb - 96) 0 @ entry_example @ replicate (32641 - 2 * lb) 0 @
     ascii ''CD001'' @ replicate 106490 0"

lemma example_lengths: "length header_example = 96" "length entry_example = 128" "length (ascii ''CD001'') = 5"
  by (simp_all add: header_example_def entry_example_def ascii_def)

lemma example_entry:
  "unique_partition_guid (gpt_entry_of entry_example) = (1, 0)" "starting_lba (gpt_entry_of entry_example) = 64"
  "part_of_entry (gpt_entry_of entry_example) \<noteq> None" "ending_lba (gpt_entry_of entry_example) = 64"
  by code_simp+

lemma example_header:
  "signature (gpt_header_of header_example) = ascii ''EFI PART''" "alternate_lba (gpt_header_of header_example) = 1"
  "partition_entry_lba (gpt_header_of header_example) = 2" "number_of_partition_entries (gpt_header_of header_example) = 1"
  "size_of_partition_entry (gpt_header_of header_example) = 128"
  by code_simp+

lemma slice_middle: "length xs = a \<Longrightarrow> length ys = m \<Longrightarrow> take m (drop a (xs @ ys @ zs)) = ys"
  by simp

lemma example_slices:
  assumes "96 \<le> lb" "lb \<le> 4096"
  shows "take 96 (drop lb (iso_example lb)) = header_example" "take 128 (drop (2 * lb) (iso_example lb)) = entry_example"
    "take 5 (drop 32769 (iso_example lb)) = ascii ''CD001''" "length (iso_example lb) = 139264"
proof -
  show "take 96 (drop lb (iso_example lb)) = header_example"
    unfolding iso_example_def by (rule slice_middle) (simp_all add: example_lengths)
  have 2: "iso_example lb = (replicate lb 0 @ header_example @ replicate (lb - 96) 0) @ entry_example @
      (replicate (32641 - 2 * lb) 0 @ ascii ''CD001'' @ replicate 106490 0)" by (simp add: iso_example_def)
  show "take 128 (drop (2 * lb) (iso_example lb)) = entry_example"
    unfolding 2 using assms by (intro slice_middle) (simp_all add: example_lengths)
  have 5: "iso_example lb = (replicate lb 0 @ header_example @ replicate (lb - 96) 0 @ entry_example @ replicate (32641 - 2 * lb) 0) @
      ascii ''CD001'' @ replicate 106490 0" by (simp add: iso_example_def)
  show "take 5 (drop 32769 (iso_example lb)) = ascii ''CD001''"
    unfolding 5 using assms by (intro slice_middle) (simp_all add: example_lengths)
  show "length (iso_example lb) = 139264" using assms by (simp add: iso_example_def example_lengths)
qed

lemma iso_example_hybrid:
  assumes "lb = 512 \<or> lb = 4096"
  shows "hybrid_iso (iso_example (unat lb)) (gpt_header_of header_example) lb [gpt_entry_of entry_example]"
proof -
  let ?d = "iso_example (unat lb)"
  have b: "96 \<le> unat lb" "unat lb \<le> 4096" using assms by auto
  note s = example_slices[OF b]
  have f: "fits ?d a n" if "a + n \<le> 139264" for a n using that s(4) by (simp add: fits_def)
  have sig: "take 8 (drop (unat lb) ?d) = ascii ''EFI PART''"
  proof -
    have "take 8 (drop (unat lb) ?d) = take 8 (take 96 (drop (unat lb) ?d))" by simp
    also have "\<dots> = ascii ''EFI PART''" unfolding s(1) by (simp add: header_example_def ascii_def)
    finally show ?thesis .
  qed
  have low: "take 8 (drop 512 ?d) \<noteq> ascii ''EFI PART''" if "lb = 4096"
  proof -
    have "?d ! 512 = 0" "512 < length ?d" using that s(4) by (simp_all add: iso_example_def nth_append)
    then show ?thesis using slice_differs[of 512 ?d "of_char (CHR ''E'')" 8 "map of_char ''FI PART''"] by (simp add: ascii_def)
  qed
  have es: "used_entries ?d (gpt_header_of header_example) (2 * unat lb) = [gpt_entry_of entry_example]"
    using s(2) by (simp add: used_entries_def used_entry_def gpt_entry_in_def example_header example_entry)
  show ?thesis
    unfolding hybrid_iso_def using assms low sig s es b f by (auto simp: example_header example_entry)
qed


text \<open>
  C29. With blocks of 4096 bytes the 34 blocks that are erased reach beyond the first 32 KiB of
  the image, where the volume descriptor of its file system lies: the tool recognises the
  ISO image by this descriptor, converts it, reports success, and has erased the descriptor.
\<close>

theorem iso_descriptor_erased:
  assumes "\<forall>n. ok n" "length d < 2 ^ 63" "hybrid_iso d h 4096 es" "gpt2mbr_allowed opts" "512 < length img" "length img \<le> 32769"
  shows "take 5 (drop 32769 d) = ascii ''CD001'' \<and>
    (\<exists>f t. run_install opts img rnd (dev_start d ok) = (True, f, t) \<and> take 5 (drop 32769 (disk t)) = replicate 5 0)"
proof -
  let ?w = "iso_image rnd h 4096 (map entry_part es) d"
  let ?v = "boot_image img 512 (splice_at 446 [0x80] ?w)"
  note hyb = hybrid_isoD[OF assms(3)]
  have fit: "fits d 0 139264" using hyb(7) by simp
  then have len: "139264 \<le> length d" using fits_le by fastforce
  have "length img \<le> length d div 512 * 512" using fit assms(6) by (simp add: fits_def)
  then obtain f t where t: "run_install opts img rnd (dev_start d ok) = (True, f, t)" "disk t = ?v"
    using run_install_iso[OF assms(1-5), of rnd] by auto
  have z: "?v ! x = 0" if "32769 \<le> x" "x < 32774" for x
  proof -
    have "?w ! x = 0" using that len hyb(13) by (intro iso_zero) auto
    moreover have "length ?w = length d" by (simp add: iso_image_def)
    ultimately show ?thesis using that len assms(5,6) by (simp add: boot_image_def splice_at_length splice_at_nth)
  qed
  have "length ?v = length d" using len by (simp add: boot_image_def iso_image_def splice_at_length)
  then have "take 5 (drop 32769 ?v) = replicate 5 0" using z len by (intro nth_equalityI) simp_all
  then show ?thesis using t hyb(9) by auto
qed

theorem iso_descriptor_erased_witness:
  "take 5 (drop 32769 (iso_example 4096)) = ascii ''CD001'' \<and>
   (\<exists>f t. run_install options0 (replicate 1024 0) (\<lambda>_. 0) (dev_start (iso_example 4096) (\<lambda>_. True)) = (True, f, t) \<and>
      take 5 (drop 32769 (disk t)) = replicate 5 0)"
proof -
  have h: "hybrid_iso (iso_example 4096) (gpt_header_of header_example) 4096 [gpt_entry_of entry_example]"
    using iso_example_hybrid[of 4096] by simp
  have l: "length (iso_example 4096) = 139264" by (rule example_slices(4)) simp_all
  show ?thesis using iso_descriptor_erased[OF _ _ h, of "\<lambda>_. True" options0 "replicate 1024 0" "\<lambda>_. 0"] l by (simp add: options0_def)
qed

end
