(* ===== verification/Lim_Memory.thy ===== *)
theory Lim_Memory
  imports Lim_Uninstall
begin

section \<open>The memory of the undo log\<close>

text \<open>
  Every entry of the array \<open>uninstall_data\<close> points to a block from \<open>malloc\<close>. The theory adds
  these pointers to the functions of \<open>limine.c\<close> that allocate and release the blocks, beside
  the state of the device: the logged writes, the reversal of the log, the reading of the
  file of undo data and \<open>free_uninstall_data\<close>. A block is live or freed, and freeing a freed
  block or running past the array is recorded.

  The logged writes keep every entry below \<open>uninstall_data_i\<close> the only owner of a live
  block, so an installation releases each block once. Reading a file that ends too early
  does not: the blocks are released by \<open>load_uninstall_data\<close> and again at the end.
\<close>

subsection \<open>Blocks and pointers\<close>

datatype block = Live | Freed

record undo_mem =
  blocks :: "block list"
  data_ptr :: "nat option list"
  uninstall_data_i :: u64
  double_free :: bool
  past_array :: bool

definition mem_start :: undo_mem where
  "mem_start = \<lparr>blocks = [], data_ptr = replicate UNINSTALL_DATA_MAX None, uninstall_data_i = 0, double_free = False, past_array = False\<rparr>"

text \<open>\<open>free\<close>; the null pointer is \<open>None\<close>.\<close>

definition free_ptr :: "nat option \<Rightarrow> undo_mem \<Rightarrow> undo_mem" where
  "free_ptr p h =
     (case p of
        None \<Rightarrow> h
      | Some b \<Rightarrow> if blocks h ! b = Live then h\<lparr>blocks := (blocks h)[b := Freed]\<rparr> else h\<lparr>double_free := True\<rparr>)"

text \<open>\<open>uninstall_data[i].data = malloc(...)\<close>, with the answer of the C library.\<close>

definition malloc_data :: "nat \<Rightarrow> bool \<Rightarrow> undo_mem \<Rightarrow> undo_mem" where
  "malloc_data i ok h =
     (if ok then h\<lparr>blocks := blocks h @ [Live], data_ptr := (data_ptr h)[i := Some (length (blocks h))]\<rparr>
      else h\<lparr>data_ptr := (data_ptr h)[i := None]\<rparr>)"

text \<open>A loop over \<open>free(uninstall_data[j].data)\<close> for \<open>j\<close> below a bound.\<close>

fun free_below :: "nat \<Rightarrow> undo_mem \<Rightarrow> undo_mem" where
  "free_below 0 h = h"
| "free_below (Suc n) h = (let h = free_below n h in free_ptr (data_ptr h ! n) h)"

definition free_uninstall_data :: "undo_mem \<Rightarrow> undo_mem" where
  "free_uninstall_data h =
     (let n = unat (uninstall_data_i h)
      in if UNINSTALL_DATA_MAX < n then (free_below UNINSTALL_DATA_MAX h)\<lparr>past_array := True\<rparr> else free_below n h)"

subsection \<open>The operations\<close>

definition device_write_mem :: "u8 list \<Rightarrow> u64 \<Rightarrow> u64 \<Rightarrow> dev \<times> undo_mem \<Rightarrow> unit option \<times> dev \<times> undo_mem" where
  "device_write_mem buffer loc count sh =
     (case sh of (s, h) \<Rightarrow>
      if uninstalling s
      then (case write_loop buffer loc count 0 s of (ok, s) \<Rightarrow> (if ok then Some () else None, s, h))
      else if of_nat UNINSTALL_DATA_MAX \<le> uninstall_data_i h then (None, s, h)
      else case lib_call s of (ok, s) \<Rightarrow>
             (let i = unat (uninstall_data_i h); h = malloc_data i ok h
              in if \<not> ok then (None, s, h)
                 else case device_read loc count s of
                        (None, s) \<Rightarrow> (None, s, free_ptr (data_ptr h ! i) h)
                      | (Some old, s) \<Rightarrow>
                          (case write_loop buffer loc count 0 s of (ok, s) \<Rightarrow>
                             if ok then (Some (), s\<lparr>udata := udata s @ [\<lparr>ud_data = old, ud_loc = loc, ud_count = count\<rparr>]\<rparr>,
                                         h\<lparr>uninstall_data_i := uninstall_data_i h + 1\<rparr>)
                             else (None, s, free_ptr (data_ptr h ! i) h))))"

text \<open>\<open>reverse_uninstall_data\<close> moves the pointers with the entries.\<close>

definition reverse_ptrs :: "undo_mem \<Rightarrow> undo_mem" where
  "reverse_ptrs h =
     (let n = unat (uninstall_data_i h); u = take n (data_ptr h)
      in h\<lparr>data_ptr := fold (\<lambda>i r. r[n - 1 - i := u ! i]) [0..<n] u @ drop n (data_ptr h)\<rparr>)"

text \<open>
  The loop of \<open>load_uninstall_data\<close>; the result tells whether it came to its end, together
  with \<open>loaded_count\<close>, which is the index of the entry it is at.
\<close>

fun load_entries_mem :: "nat \<Rightarrow> nat \<Rightarrow> u8 list \<Rightarrow> uninstall_data list \<Rightarrow> dev \<times> undo_mem \<Rightarrow>
    (uninstall_data list option \<times> nat) \<times> dev \<times> undo_mem" where
  "load_entries_mem 0 i file us sh = ((Some us, i), sh)"
| "load_entries_mem (Suc n) i file us (s, h) =
     (case get_elem 8 file s of
        (None, s) \<Rightarrow> ((None, i), s, h)
      | (Some (loc, file), s) \<Rightarrow>
          (case get_elem 8 file s of
             (None, s) \<Rightarrow> ((None, i), s, h)
           | (Some (count, file), s) \<Rightarrow>
               (case lib_call s of (ok, s) \<Rightarrow>
                  (let h = malloc_data i ok h
                   in if \<not> ok then ((None, i), s, h)
                      else case get_elem (unat (le_at 8 0 count :: u64)) file s of
                             (None, s) \<Rightarrow> ((None, i), s, free_ptr (data_ptr h ! i) h)
                           | (Some (data, file), s) \<Rightarrow>
                               load_entries_mem n (Suc i) file
                                 (us @ [\<lparr>ud_data = data, ud_loc = le_at 8 0 loc, ud_count = le_at 8 0 count\<rparr>]) (s, h)))))"

text \<open>
  The bytes that \<open>fread\<close> gets before it fails reach the variable: a file shorter than eight
  bytes still sets the low bytes of \<open>uninstall_data_i\<close>, which is zero before.
\<close>

definition load_uninstall_data_mem :: "u8 list \<Rightarrow> dev \<times> undo_mem \<Rightarrow> unit option \<times> dev \<times> undo_mem" where
  "load_uninstall_data_mem file sh =
     (case sh of (s, h) \<Rightarrow>
      case lib_call s of
        (False, s) \<Rightarrow> (None, s, h)
      | (True, s) \<Rightarrow>
          (case get_elem 8 file s of
             (None, s') \<Rightarrow>
               (None, s', if lib_ok s (lib_calls s) then h\<lparr>uninstall_data_i := le_at 8 0 (file @ replicate (8 - length file) 0)\<rparr> else h)
           | (Some (n, file), s) \<Rightarrow>
               (let i = le_at 8 0 n; h = h\<lparr>uninstall_data_i := i\<rparr>
                in if of_nat UNINSTALL_DATA_MAX < i then (None, s, h)
                   else case load_entries_mem (unat i) 0 file [] (s, h) of
                          ((Some us, _), s, h) \<Rightarrow> (Some (), s\<lparr>udata := us\<rparr>, h)
                        | ((None, loaded_count), s, h) \<Rightarrow> (None, s, free_below loaded_count h))))"

text \<open>\<open>bios_install --uninstall\<close> with its cleanup; the result is the exit status.\<close>

definition run_uninstall_mem :: "u8 list option \<Rightarrow> dev \<times> undo_mem \<Rightarrow> bool \<times> dev \<times> undo_mem" where
  "run_uninstall_mem file sh =
     (case sh of (s, h) \<Rightarrow>
      case device_init s of
        (False, s) \<Rightarrow> (False, s, free_uninstall_data h)
      | (True, s) \<Rightarrow>
          (case file of
             None \<Rightarrow> (False, s, free_uninstall_data h)
           | Some bs \<Rightarrow>
               (case load_uninstall_data_mem bs (s, h) of
                  (None, s, h) \<Rightarrow> (False, s, free_uninstall_data h)
                | (Some _, s, h) \<Rightarrow> (case uninstall s of (r, s) \<Rightarrow> (r, s, free_uninstall_data h)))))"

subsection \<open>Ownership\<close>

definition live :: "undo_mem \<Rightarrow> nat set" where
  "live h = {b. b < length (blocks h) \<and> blocks h ! b = Live}"

text \<open>The first \<open>i\<close> entries of the array own the live blocks, each its own one.\<close>

definition owned :: "nat \<Rightarrow> undo_mem \<Rightarrow> bool" where
  "owned i h \<longleftrightarrow> length (data_ptr h) = 256 \<and> i \<le> 256 \<and> distinct (take i (data_ptr h)) \<and>
     set (take i (data_ptr h)) = Some ` live h \<and> \<not> double_free h \<and> \<not> past_array h"

text \<open>The other entries are null or point to a block that is freed.\<close>

definition rest_dead :: "nat \<Rightarrow> undo_mem \<Rightarrow> bool" where
  "rest_dead i h \<longleftrightarrow> (\<forall>j b. i \<le> j \<and> j < 256 \<and> data_ptr h ! j = Some b \<longrightarrow> b < length (blocks h) \<and> blocks h ! b = Freed)"

definition released :: "undo_mem \<Rightarrow> bool" where
  "released h \<longleftrightarrow> Live \<notin> set (blocks h) \<and> \<not> double_free h \<and> \<not> past_array h"

lemma live_none: "live h = {} \<longleftrightarrow> Live \<notin> set (blocks h)"
  by (auto simp: live_def in_set_conv_nth)

lemma owned_start: "owned 0 mem_start" "rest_dead 0 mem_start"
  by (simp_all add: owned_def mem_start_def live_def rest_dead_def)

lemma take_Suc_update: "i < length xs \<Longrightarrow> take (Suc i) (xs[i := x]) = take i xs @ [x]"
  by (simp add: take_Suc_conv_app_nth)

lemma malloc_owned:
  assumes "owned i h" "i < 256"
  shows "owned (Suc i) (malloc_data i True h)" "owned i (malloc_data i False h)"
proof -
  have "live (malloc_data i True h) = insert (length (blocks h)) (live h)"
    by (auto simp: live_def malloc_data_def nth_append)
  moreover have "length (blocks h) \<notin> live h" by (simp add: live_def)
  moreover have "take (Suc i) (data_ptr (malloc_data i True h)) = take i (data_ptr h) @ [Some (length (blocks h))]"
    using assms by (simp add: malloc_data_def take_Suc_update owned_def)
  ultimately show "owned (Suc i) (malloc_data i True h)" using assms by (auto simp: owned_def malloc_data_def)
  have "take i ((data_ptr h)[i := None]) = take i (data_ptr h)" by simp
  then show "owned i (malloc_data i False h)" using assms by (simp add: owned_def malloc_data_def live_def)
qed

lemma malloc_rest_dead:
  assumes "rest_dead i h" "owned i h"
  shows "rest_dead (Suc i) (malloc_data i True h)" "rest_dead i (malloc_data i False h)"
proof -
  have d: "b < length (blocks h)" "blocks h ! b = Freed" if "i \<le> j" "j < 256" "data_ptr h ! j = Some b" for j b
    using assms(1) that unfolding rest_dead_def by blast+
  show "rest_dead (Suc i) (malloc_data i True h)"
    unfolding rest_dead_def
  proof (intro allI impI)
    fix j b
    assume j: "Suc i \<le> j \<and> j < 256 \<and> data_ptr (malloc_data i True h) ! j = Some b"
    then have "i \<noteq> j" by simp
    then have "data_ptr (malloc_data i True h) ! j = data_ptr h ! j" by (simp add: malloc_data_def)
    then have "data_ptr h ! j = Some b" using j by simp
    then show "b < length (blocks (malloc_data i True h)) \<and> blocks (malloc_data i True h) ! b = Freed"
      using d[of j b] j by (simp add: malloc_data_def nth_append)
  qed
  show "rest_dead i (malloc_data i False h)" using d assms(2) by (auto simp: rest_dead_def malloc_data_def nth_list_update owned_def split: if_splits)
qed

lemma data_ptr_free [simp]: "data_ptr (free_ptr p h) = data_ptr h" "uninstall_data_i (free_ptr p h) = uninstall_data_i h"
    "length (blocks (free_ptr p h)) = length (blocks h)" "past_array (free_ptr p h) = past_array h"
  by (simp_all add: free_ptr_def split: option.splits)

lemma free_live:
  assumes "b \<in> live h"
  shows "live (free_ptr (Some b) h) = live h - {b}" "double_free (free_ptr (Some b) h) = double_free h"
  using assms by (auto simp: live_def free_ptr_def nth_list_update split: if_splits)

lemma free_last_owned:
  assumes "owned (Suc i) h"
  shows "owned i (free_ptr (data_ptr h ! i) h)" "rest_dead (Suc i) h \<Longrightarrow> rest_dead i (free_ptr (data_ptr h ! i) h)"
proof -
  have l: "i < length (data_ptr h)" using assms by (simp add: owned_def)
  have t: "take (Suc i) (data_ptr h) = take i (data_ptr h) @ [data_ptr h ! i]" using l by (simp add: take_Suc_conv_app_nth)
  then have "data_ptr h ! i \<in> Some ` live h" using assms by (auto simp: owned_def)
  then obtain b where b: "data_ptr h ! i = Some b" "b \<in> live h" by blast
  have "set (take i (data_ptr h)) = Some ` (live h - {b})"
    using assms t b by (auto simp: owned_def insert_eq_iff)
  then show "owned i (free_ptr (data_ptr h ! i) h)" using assms t b free_live[OF b(2)] by (simp add: owned_def)
  show "rest_dead i (free_ptr (data_ptr h ! i) h)" if r: "rest_dead (Suc i) h"
    unfolding rest_dead_def
  proof (intro allI impI)
    fix j c
    assume j: "i \<le> j \<and> j < 256 \<and> data_ptr (free_ptr (data_ptr h ! i) h) ! j = Some c"
    show "c < length (blocks (free_ptr (data_ptr h ! i) h)) \<and> blocks (free_ptr (data_ptr h ! i) h) ! c = Freed"
    proof (cases "i = j")
      case True
      then show ?thesis using j b by (simp add: free_ptr_def live_def)
    next
      case False
      then have "Suc i \<le> j" "j < 256" "data_ptr h ! j = Some c" using j by simp_all
      then have "c < length (blocks h) \<and> blocks h ! c = Freed" using r unfolding rest_dead_def by blast
      then show ?thesis using b by (auto simp: free_ptr_def live_def nth_list_update)
    qed
  qed
qed

subsection \<open>The loops that free\<close>

lemma data_ptr_free_below [simp]: "data_ptr (free_below n h) = data_ptr h" "uninstall_data_i (free_below n h) = uninstall_data_i h"
    "length (blocks (free_below n h)) = length (blocks h)" "past_array (free_below n h) = past_array h"
  by (induction n) (simp_all add: Let_def)

text \<open>A loop over owned entries releases every block once.\<close>

lemma free_below_owned:
  assumes "owned i h"
  shows "live (free_below i h) = {}" "\<not> double_free (free_below i h)"
proof -
  let ?p = "data_ptr h"
  have "live (free_below k h) = {b \<in> live h. Some b \<notin> set (take k ?p)} \<and> \<not> double_free (free_below k h)" if "k \<le> i" for k
    using that
  proof (induction k)
    case (Suc k)
    have l: "k < length ?p" using Suc.prems assms by (simp add: owned_def)
    have t: "take (Suc k) ?p = take k ?p @ [?p ! k]" using l by (simp add: take_Suc_conv_app_nth)
    have "set (take (Suc k) ?p) \<subseteq> Some ` live h" "distinct (take (Suc k) ?p)"
      using assms Suc.prems set_take_subset_set_take[of "Suc k" i ?p] distinct_take[of "take i ?p" "Suc k"] by (auto simp: owned_def min_def)
    then obtain b where b: "?p ! k = Some b" "b \<in> live h" "Some b \<notin> set (take k ?p)" using t by auto
    have ih: "live (free_below k h) = {b \<in> live h. Some b \<notin> set (take k ?p)}" "\<not> double_free (free_below k h)" using Suc by simp_all
    then have "b \<in> live (free_below k h)" using b by simp
    then show ?case using free_live[of b "free_below k h"] b ih t by (auto simp: Let_def)
  qed (use assms in \<open>simp add: owned_def\<close>)
  from this[of i] show "live (free_below i h) = {}" "\<not> double_free (free_below i h)" using assms by (auto simp: owned_def)
qed

lemma free_uninstall_data_owned:
  assumes "owned (unat (uninstall_data_i h)) h"
  shows "released (free_uninstall_data h)"
  using free_below_owned[OF assms] assms by (auto simp: free_uninstall_data_def released_def Let_def owned_def live_none)

text \<open>Freeing entries once more: the first one that is not null is freed twice.\<close>

lemma free_below_again:
  assumes "rest_dead 0 h" "n \<le> 256" "\<not> double_free h"
  shows "(double_free (free_below n h) \<longleftrightarrow> (\<exists>j<n. data_ptr h ! j \<noteq> None)) \<and> blocks (free_below n h) = blocks h"
  using assms(2)
proof (induction n)
  case (Suc n)
  have "blocks h ! b = Freed" if "data_ptr h ! n = Some b" for b
    using assms(1) Suc.prems that unfolding rest_dead_def by (metis Suc_le_lessD zero_le)
  then show ?case using Suc by (auto simp: Let_def free_ptr_def less_Suc_eq split: option.splits)
qed (simp add: assms(3))

subsection \<open>Reading the file\<close>

text \<open>The device sees what it sees without the pointers.\<close>

lemma load_entries_mem_device:
  "load_entries_mem n i fl us (s, h) = ((r, k), t, h') \<Longrightarrow> load_entries n fl us s = (r, t)"
proof (induction n arbitrary: i fl us s h)
  case (Suc n)
  then show ?case
    by (auto simp: bindI_def thenI_def checkI_def Let_def split: prod.splits option.splits if_splits)
qed (simp add: retI_def)

lemma load_mem_device:
  "load_uninstall_data_mem bs (s, h) = (r, t, h') \<Longrightarrow> load_uninstall_data bs s = (r, t)"
  by (auto simp: load_uninstall_data_mem_def load_uninstall_data_def bindI_def thenI_def checkI_def failI_def Let_def
      split: prod.splits option.splits if_splits bool.splits dest!: load_entries_mem_device)

lemma load_entries_mem_owned:
  assumes "owned i h" "rest_dead i h" "i + n \<le> 256" "load_entries_mem n i fl us (s, h) = ((r, k), t, h')"
  shows "owned k h' \<and> rest_dead k h' \<and> (r \<noteq> None \<longrightarrow> k = i + n) \<and> uninstall_data_i h' = uninstall_data_i h \<and>
    (\<forall>j<i. data_ptr h' ! j = data_ptr h ! j)"
  using assms
proof (induction n arbitrary: i fl us s h)
  case (Suc n)
  have i: "i < 256" using Suc.prems(3) by simp
  note m = malloc_owned[OF Suc.prems(1) i] malloc_rest_dead[OF Suc.prems(2,1)]
  note fr = free_last_owned[OF m(1)] free_last_owned(2)[OF m(1) m(3)]
  have p: "data_ptr (malloc_data i ok h) ! j = data_ptr h ! j" "uninstall_data_i (malloc_data i ok h) = uninstall_data_i h" if "j < i" for ok j
    using that by (simp_all add: malloc_data_def)
  have u: "uninstall_data_i (malloc_data i ok h) = uninstall_data_i h" for ok by (simp add: malloc_data_def)
  show ?case
    using Suc.prems(4) Suc.IH[OF m(1) m(3)] Suc.prems(1-3) m fr p u
    by (auto simp: Let_def split: prod.splits option.splits if_splits)
qed auto

text \<open>A file that holds as many entries as it says, none of them empty.\<close>

fun whole_entries :: "nat \<Rightarrow> u8 list \<Rightarrow> bool" where
  "whole_entries 0 file \<longleftrightarrow> True"
| "whole_entries (Suc n) file \<longleftrightarrow>
     (let c = unat (le_at 8 0 (take 8 (drop 8 file)) :: u64)
      in 16 \<le> length file \<and> 0 < c \<and> 16 + c \<le> length file \<and> whole_entries n (drop (16 + c) file))"

definition stored_count :: "u8 list \<Rightarrow> nat" where
  "stored_count bs = unat (le_at 8 0 (take 8 bs @ replicate (8 - length bs) 0) :: u64)"

lemma get_elem_reliable:
  assumes "reliable s"
  shows "get_elem n fl s = (if 0 < n \<and> n \<le> length fl then Some (take n fl, drop n fl) else None, s\<lparr>lib_calls := Suc (lib_calls s)\<rparr>)"
  using assms by (simp add: get_elem_def lib_call_def reliable_def)

lemma reliable_calls [simp]: "reliable (s\<lparr>lib_calls := n\<rparr>) = reliable s"
  by (simp add: reliable_def)

lemma lib_call_reliable: "reliable s \<Longrightarrow> lib_call s = (True, s\<lparr>lib_calls := Suc (lib_calls s)\<rparr>)"
  by (simp add: lib_call_def reliable_def)

text \<open>One round of the loop when the C library does what it is asked to.\<close>

lemma load_entries_mem_step:
  assumes "reliable s" "load_entries_mem (Suc n) i fl us (s, h) = ((r, k), t, h')"
  shows "if 16 \<le> length fl
    then let c = unat (le_at 8 0 (take 8 (drop 8 fl)) :: u64); m = malloc_data i True h
         in if 0 < c \<and> 16 + c \<le> length fl
            then \<exists>us s. reliable s \<and> load_entries_mem n (Suc i) (drop (16 + c) fl) us (s, m) = ((r, k), t, h')
            else r = None \<and> h' = free_ptr (data_ptr m ! i) m
    else r = None \<and> h' = h"
proof (cases "16 \<le> length fl")
  case True
  let ?c = "unat (le_at 8 0 (take 8 (drop 8 fl)) :: u64)" and ?m = "malloc_data i True h"
  have l: "8 \<le> length fl" "8 \<le> length fl - 8" using True by linarith+
  let ?s = "s\<lparr>lib_calls := Suc (Suc (Suc (lib_calls s)))\<rparr>"
  have run: "(case get_elem ?c (drop 16 fl) ?s of
      (None, s) \<Rightarrow> ((None, i), s, free_ptr (data_ptr ?m ! i) ?m)
    | (Some (data, file), s) \<Rightarrow> load_entries_mem n (Suc i) file
        (us @ [\<lparr>ud_data = data, ud_loc = le_at 8 0 (take 8 fl), ud_count = le_at 8 0 (take 8 (drop 8 fl))\<rparr>]) (s, ?m)) = ((r, k), t, h')"
    using assms l by (simp add: get_elem_reliable lib_call_reliable Let_def)
  show ?thesis
  proof (cases "0 < ?c \<and> 16 + ?c \<le> length fl")
    case w: True
    then have "?c \<le> length fl - 16" by linarith
    then have "load_entries_mem n (Suc i) (drop (16 + ?c) fl) (us @ [\<lparr>ud_data = take ?c (drop 16 fl), ud_loc = le_at 8 0 (take 8 fl),
        ud_count = le_at 8 0 (take 8 (drop 8 fl))\<rparr>]) (s\<lparr>lib_calls := Suc (Suc (Suc (Suc (lib_calls s))))\<rparr>, ?m) = ((r, k), t, h')"
      using run w assms(1) by (simp add: get_elem_reliable add.commute del: unat_gt_0)
    moreover have "reliable (s\<lparr>lib_calls := Suc (Suc (Suc (Suc (lib_calls s))))\<rparr>)" using assms(1) by simp
    ultimately have "\<exists>us s. reliable s \<and> load_entries_mem n (Suc i) (drop (16 + ?c) fl) us (s, ?m) = ((r, k), t, h')" by blast
    then show ?thesis using w True by (simp add: Let_def)
  next
    case False
    then have "\<not> (0 < ?c \<and> ?c \<le> length (drop 16 fl))" using True by auto
    then have "get_elem ?c (drop 16 fl) ?s = (None, ?s\<lparr>lib_calls := Suc (lib_calls ?s)\<rparr>)" using get_elem_reliable[of ?s] assms(1) by simp
    then have "r = None" "h' = free_ptr (data_ptr ?m ! i) ?m" using run by auto
    then show ?thesis unfolding Let_def using True False by presburger
  qed
qed (use assms in \<open>auto simp: get_elem_reliable split: if_splits\<close>)

lemma load_entries_mem_whole:
  assumes "reliable s" "load_entries_mem n i fl us (s, h) = ((r, k), t, h')"
  shows "r \<noteq> None \<longleftrightarrow> whole_entries n fl"
  using assms
proof (induction n arbitrary: i fl us s h)
  case (Suc n)
  show ?case using load_entries_mem_step[OF Suc.prems] Suc.IH by (auto simp: Let_def split: if_splits)
qed auto

text \<open>Which file makes the tool allocate a block.\<close>

lemma load_entries_mem_first:
  assumes "reliable s" "owned 0 h" "rest_dead 0 h" "0 < n" "n \<le> 256"
    and "load_entries_mem n 0 fl us (s, h) = ((r, k), t, h')"
  shows "if 16 \<le> length fl then data_ptr h' ! 0 \<noteq> None else h' = h"
proof -
  obtain m where n: "n = Suc m" using assms(4) by (cases n) auto
  have g: "data_ptr (malloc_data 0 True h) ! 0 \<noteq> None" using assms(2) by (simp add: malloc_data_def owned_def)
  have o: "owned (Suc 0) (malloc_data 0 True h)" "rest_dead (Suc 0) (malloc_data 0 True h)"
    using malloc_owned(1)[OF assms(2)] malloc_rest_dead(1)[OF assms(3,2)] by simp_all
  have "data_ptr h' ! 0 = data_ptr (malloc_data 0 True h) ! 0"
    if "load_entries_mem m (Suc 0) fl us (s, malloc_data 0 True h) = ((r, k), t, h')" for fl us s
    using load_entries_mem_owned[OF o _ that] assms(5) n by simp
  then show ?thesis using load_entries_mem_step[OF assms(1,6)[unfolded n]] g by (auto simp: Let_def split: if_splits)
qed

text \<open>
  The outcome of reading a file, by what the file holds: the number it stores, its length,
  and whether it holds that many entries.
\<close>

definition load_outcome :: "u8 list \<Rightarrow> unit option \<Rightarrow> undo_mem \<Rightarrow> bool" where
  "load_outcome bs r h \<longleftrightarrow> unat (uninstall_data_i h) = stored_count bs \<and>
     (r \<noteq> None \<longleftrightarrow> 8 \<le> length bs \<and> stored_count bs \<le> 256 \<and> whole_entries (stored_count bs) (drop 8 bs)) \<and>
     (if r \<noteq> None then owned (stored_count bs) h
      else rest_dead 0 h \<and> Live \<notin> set (blocks h) \<and> \<not> double_free h \<and> \<not> past_array h \<and>
        (256 < stored_count bs \<longrightarrow> (\<forall>j<256. data_ptr h ! j = None)) \<and>
        (stored_count bs \<le> 256 \<longrightarrow> (\<exists>j < stored_count bs. data_ptr h ! j \<noteq> None) = (0 < stored_count bs \<and> 24 \<le> length bs)))"

lemma load_outcome_no_entries:
  "unat i = stored_count bs \<Longrightarrow> \<not> (8 \<le> length bs \<and> stored_count bs \<le> 256) \<Longrightarrow> load_outcome bs None (mem_start\<lparr>uninstall_data_i := i\<rparr>)"
  by (auto simp: load_outcome_def rest_dead_def mem_start_def)

lemma load_outcome_entries:
  assumes "reliable s" "8 \<le> length bs" "n = stored_count bs" "n \<le> 256"
    and "load_entries_mem n 0 (drop 8 bs) [] (s, mem_start\<lparr>uninstall_data_i := of_nat n\<rparr>) = ((r, k), t, h)"
  shows "load_outcome bs (map_option (\<lambda>_. ()) r) (if r = None then free_below k h else h)"
proof -
  let ?h = "mem_start\<lparr>uninstall_data_i := of_nat n :: u64\<rparr>"
  have o: "owned 0 ?h" "rest_dead 0 ?h" by (simp_all add: owned_def mem_start_def live_def rest_dead_def)
  note e = load_entries_mem_owned[OF o _ assms(5)] load_entries_mem_whole[OF assms(1,5)]
  have k: "owned k h" "rest_dead k h" "uninstall_data_i h = of_nat n" using e(1) assms(4) by simp_all
  have n: "unat (uninstall_data_i h) = n" using k(3) assms(4) by (simp add: unat_of_nat)
  show ?thesis
  proof (cases r)
    case (Some us)
    then show ?thesis using e assms(2-4) n by (auto simp: load_outcome_def)
  next
    case None
    have n0: "n \<noteq> 0" using None assms(5) by (cases n) auto
    then have f: "if 16 \<le> length (drop 8 bs) then data_ptr h ! 0 \<noteq> None else h = ?h"
      using load_entries_mem_first[OF assms(1) o _ assms(4,5)] by simp
    note fb = free_below_owned[OF k(1)]
    have at: "b < length (blocks h)" if "data_ptr h ! j = Some b" "j < 256" for j b
    proof (cases "j < k")
      case True
      then have "take k (data_ptr h) ! j = Some b" "j < length (take k (data_ptr h))" using that k(1) by (simp_all add: owned_def)
      then have "Some b \<in> set (take k (data_ptr h))" by (metis nth_mem)
      then show ?thesis using k(1) by (auto simp: owned_def live_def)
    next
      case False
      then show ?thesis using that k(2) unfolding rest_dead_def by (meson not_less)
    qed
    have "blocks (free_below k h) ! b = Freed" if "b < length (blocks h)" for b
      using fb(1) that by (cases "blocks (free_below k h) ! b") (auto simp: live_def)
    then have dead: "rest_dead 0 (free_below k h)" using at unfolding rest_dead_def data_ptr_free_below by blast
    have "(\<exists>j<n. data_ptr h ! j \<noteq> None) = (24 \<le> length bs)"
      using f assms(4) n0 by (auto simp: mem_start_def split: if_splits)
    then show ?thesis using dead fb k n e(2) None assms(2-4) n0 by (auto simp: load_outcome_def live_none owned_def)
  qed
qed

lemma load_mem_outcome:
  assumes "reliable s" "load_uninstall_data_mem bs (s, mem_start) = (r, t, h)"
  shows "load_outcome bs r h"
proof -
  let ?s = "s\<lparr>lib_calls := Suc (lib_calls s)\<rparr>" and ?n = "le_at 8 0 (take 8 bs @ replicate (8 - length bs) 0) :: u64"
  have c: "unat ?n = stored_count bs" by (simp add: stored_count_def)
  have rel: "reliable ?s" using assms(1) by simp
  show ?thesis
  proof (cases "8 \<le> length bs")
    case False
    then have "r = None" "h = mem_start\<lparr>uninstall_data_i := ?n\<rparr>"
      using assms by (simp_all add: load_uninstall_data_mem_def lib_call_reliable get_elem_reliable reliable_def)
    then show ?thesis using load_outcome_no_entries[OF c] False by simp
  next
    case True
    note run = assms(2)[unfolded load_uninstall_data_mem_def prod.case lib_call_reliable[OF assms(1)], simplified]
    show ?thesis
    proof (cases "stored_count bs \<le> 256")
      case False
      then have "256 < ?n" using c by (simp add: word_less_nat_alt)
      then have "r = None" "h = mem_start\<lparr>uninstall_data_i := ?n\<rparr>"
        using run True rel by (simp_all add: get_elem_reliable)
      then show ?thesis using load_outcome_no_entries[OF c] False by simp
    next
      case le: True
      then have "\<not> 256 < ?n" using c by (simp add: word_less_nat_alt)
      moreover have "?n = of_nat (stored_count bs)" using c by (simp flip: c)
      moreover obtain q k u g where e: "load_entries_mem (stored_count bs) 0 (drop 8 bs) [] (s\<lparr>lib_calls := Suc (Suc (lib_calls s))\<rparr>,
          mem_start\<lparr>uninstall_data_i := of_nat (stored_count bs)\<rparr>) = ((q, k), u, g)" by (metis surj_pair)
      ultimately have "r = map_option (\<lambda>_. ()) q" "h = (if q = None then free_below k g else g)"
        using run True rel c by (auto simp: get_elem_reliable Let_def split: option.splits)
      then show ?thesis using load_outcome_entries[OF _ True refl le e] assms(1) by simp
    qed
  qed
qed

text \<open>
  C19. What \<open>--uninstall\<close> does with the memory, for every file. With a proper file every block is
  released once. A file that breaks off after the head of its first entry has blocks freed
  twice, and one that stores a number above 256 makes the cleanup run past the array.
\<close>

theorem uninstall_memory:
  assumes "\<forall>n. ok n" "512 \<le> length d" "length d < 2 ^ 63"
    and "run_uninstall_mem (Some bs) (dev_start d ok, mem_start) = (r, t, h)"
  shows "run_uninstall (Some bs) (dev_start d ok) = (r, t) \<and> Live \<notin> set (blocks h) \<and>
    (past_array h \<longleftrightarrow> 256 < stored_count bs) \<and>
    (double_free h \<longleftrightarrow> 24 \<le> length bs \<and> 0 < stored_count bs \<and> stored_count bs \<le> 256 \<and> \<not> whole_entries (stored_count bs) (drop 8 bs))"
proof -
  obtain s where s: "device_init (dev_start d ok) = (True, s)" "underway d 512 s" using device_init_start(1)[OF assms(1,3,2)] by blast
  then have rel: "reliable s" by (simp add: underway_def installing_def)
  obtain q u g where l: "load_uninstall_data_mem bs (s, mem_start) = (q, u, g)" by (metis surj_pair)
  have o: "load_outcome bs q g" by (rule load_mem_outcome[OF rel l])
  have h: "h = free_uninstall_data g" using assms(4) s(1) l by (auto simp: run_uninstall_mem_def split: option.splits prod.splits)
  have dev: "run_uninstall (Some bs) (dev_start d ok) = (r, t)"
    using assms(4) s(1) l load_mem_device[OF l] by (auto simp: run_uninstall_mem_def run_uninstall_def split: option.splits prod.splits)
  have n: "unat (uninstall_data_i g) = stored_count bs" using o by (simp add: load_outcome_def)
  show ?thesis
  proof (cases q)
    case (Some a)
    then have "owned (unat (uninstall_data_i g)) g" "\<not> 256 < stored_count bs" "whole_entries (stored_count bs) (drop 8 bs)"
      using o n by (simp_all add: load_outcome_def)
    then show ?thesis using free_uninstall_data_owned[of g] dev h by (simp add: released_def)
  next
    case None
    then have g: "rest_dead 0 g" "Live \<notin> set (blocks g)" "\<not> double_free g" "\<not> past_array g"
      "256 < stored_count bs \<longrightarrow> (\<forall>j<256. data_ptr g ! j = None)"
      "stored_count bs \<le> 256 \<longrightarrow> (\<exists>j < stored_count bs. data_ptr g ! j \<noteq> None) = (0 < stored_count bs \<and> 24 \<le> length bs)"
      "24 \<le> length bs \<longrightarrow> stored_count bs \<le> 256 \<longrightarrow> \<not> whole_entries (stored_count bs) (drop 8 bs)"
      using o by (auto simp: load_outcome_def)
    show ?thesis using free_below_again[OF g(1) _ g(3)] g(2-) dev h n by (auto simp: free_uninstall_data_def Let_def not_less)
  qed
qed

text \<open>A file that ends behind the head of its only entry.\<close>

theorem uninstall_memory_witness:
  "double_free (snd (snd (run_uninstall_mem (Some (le_bytes 8 (1 :: u64) @ le_bytes 8 (0 :: u64) @ le_bytes 8 (512 :: u64)))
     (dev_start (replicate 512 0) (\<lambda>_. True), mem_start))))"
proof -
  let ?bs = "le_bytes 8 (1 :: u64) @ le_bytes 8 (0 :: u64) @ le_bytes 8 (512 :: u64)"
  obtain r t h where run: "run_uninstall_mem (Some ?bs) (dev_start (replicate 512 0) (\<lambda>_. True), mem_start) = (r, t, h)" by (metis surj_pair)
  have "stored_count ?bs = 1" "\<not> whole_entries 1 (drop 8 ?bs)" by code_simp+
  then show ?thesis using uninstall_memory[OF _ _ _ run] run by simp
qed

subsection \<open>Installing\<close>

text \<open>
  What no operation on the device changes, whatever the C library answers: the log, the
  mode and the sizes.
\<close>

definition sound_cache :: "dev \<Rightarrow> bool" where
  "sound_cache s \<longleftrightarrow> length (dcache s) = unat (block_size s)"

definition same_log :: "dev \<Rightarrow> dev \<Rightarrow> bool" where
  "same_log s t \<longleftrightarrow> udata t = udata s \<and> uninstalling t = uninstalling s \<and> block_size t = block_size s \<and> sound_cache t"

lemma same_log_trans: "same_log s t \<Longrightarrow> same_log t u \<Longrightarrow> same_log s u"
  by (simp add: same_log_def)

lemma same_log_sound: "same_log s t \<Longrightarrow> sound_cache t"
  by (simp add: same_log_def)

lemma lib_call_log: "sound_cache s \<Longrightarrow> lib_call s = (r, t) \<Longrightarrow> same_log s t"
  by (auto simp: lib_call_def same_log_def sound_cache_def)

lemma set_pos_log: "sound_cache s \<Longrightarrow> set_pos p s = (r, t) \<Longrightarrow> same_log s t"
  by (auto simp: set_pos_def lib_call_def same_log_def sound_cache_def split: if_splits)

lemma fread_cache_frame:
  assumes "fread_cache n s = (r, t)" "n \<le> length (dcache s)"
  shows "length (dcache t) = length (dcache s)" "udata t = udata s" "uninstalling t = uninstalling s" "block_size t = block_size s"
proof -
  define got where "got = (if lib_ok s (lib_calls s) then take n (drop (fpos s) (disk s)) else [])"
  have "t = s\<lparr>lib_calls := Suc (lib_calls s), dcache := got @ drop (length got) (dcache s), fpos := fpos s + length got\<rparr>"
    using assms(1) by (auto simp: fread_cache_def lib_call_def Let_def got_def)
  moreover have "length got \<le> length (dcache s)" using assms(2) by (auto simp: got_def)
  ultimately show "length (dcache t) = length (dcache s)" "udata t = udata s" "uninstalling t = uninstalling s" "block_size t = block_size s"
    by simp_all
qed

lemma fread_log: "sound_cache s \<Longrightarrow> fread_cache (unat (block_size s)) s = (r, t) \<Longrightarrow> same_log s t"
  using fread_cache_frame[of "unat (block_size s)" s r t] by (simp add: same_log_def sound_cache_def)

lemma fwrite_log: "sound_cache s \<Longrightarrow> fwrite_cache n s = (r, t) \<Longrightarrow> same_log s t"
  by (auto simp: fwrite_cache_def lib_call_def same_log_def sound_cache_def split: if_splits)

lemma flush_log:
  assumes "sound_cache s" "device_flush_cache s = (r, t)"
  shows "same_log s t"
proof (cases "dcache_state s = CACHE_CLEAN")
  case False
  obtain p u where u: "set_pos (cached_block s * block_size s) s = (p, u)" by fastforce
  note su = set_pos_log[OF assms(1) u]
  obtain q v where v: "fwrite_cache (unat (block_size u)) u = (q, v)" by fastforce
  show ?thesis using False assms(2) u v su same_log_trans[OF su fwrite_log[OF same_log_sound[OF su] v]]
    by (auto simp: device_flush_cache_def same_log_def sound_cache_def split: bool.splits)
qed (use assms in \<open>auto simp: device_flush_cache_def same_log_def\<close>)

lemma cache_block_log:
  assumes "sound_cache s" "device_cache_block b s = (r, t)"
  shows "same_log s t"
proof (cases "cached_block s = b")
  case False
  obtain f u where u: "(if dcache_state s = CACHE_DIRTY then device_flush_cache s else (True, s)) = (f, u)" by fastforce
  have su: "same_log s u" using u assms(1) flush_log[OF assms(1)] by (auto simp: same_log_def split: if_splits)
  obtain p v where v: "set_pos (b * block_size u) u = (p, v)" by fastforce
  have sv: "same_log s v" using same_log_trans[OF su set_pos_log[OF same_log_sound[OF su] v]] .
  obtain q w where w: "fread_cache (unat (block_size v)) v = (q, w)" by fastforce
  have sw: "same_log s w" using same_log_trans[OF sv fread_log[OF same_log_sound[OF sv] w]] .
  show ?thesis using False assms(2) u v w su sv sw
    by (auto simp: device_cache_block_def same_log_def sound_cache_def split: bool.splits)
qed (use assms in \<open>auto simp: device_cache_block_def same_log_def\<close>)

lemma chunk_in_block:
  assumes "bs \<noteq> 0"
  shows "unat (a mod bs) + unat (chunk_size bs a left) \<le> unat bs"
proof -
  have "unat (a mod bs) < unat bs" using assms by (simp add: unat_mod unat_gt_0)
  then have "a mod bs \<le> bs" by (simp add: word_le_nat_alt)
  then have "unat (bs - a mod bs) = unat bs - unat (a mod bs)" by (rule unat_sub)
  then show ?thesis using \<open>unat (a mod bs) < unat bs\<close> by (auto simp: chunk_size_def Let_def word_less_nat_alt)
qed

lemma read_loop_log:
  "sound_cache s \<Longrightarrow> read_loop loc n p s = (r, t) \<Longrightarrow>
    same_log s t \<and> (\<forall>bs. r = Some bs \<longrightarrow> length bs = unat n - unat p)"
proof (induction loc n p s arbitrary: r t rule: read_loop.induct)
  case (1 loc n p s)
  show ?case
  proof (cases "p < n \<and> block_size s \<noteq> 0")
    case True
    let ?c = "chunk_size (block_size s) (loc + p) (n - p)"
    obtain ok u where c: "device_cache_block ((loc + p) div block_size s) s = (ok, u)" by fastforce
    note su = cache_block_log[OF "1.prems"(1) c]
    obtain q v where v: "read_loop loc n (p + ?c) u = (q, v)" by fastforce
    have ih: "same_log u v \<and> (\<forall>bs. q = Some bs \<longrightarrow> length bs = unat n - unat (p + ?c))" if "ok"
      using "1.IH"[OF _ _ c[symmetric] _ refl refl refl same_log_sound[OF su] v] True that by simp
    have "length (dcache u) = unat (block_size s)" using su by (simp add: same_log_def sound_cache_def)
    then have part: "length (take (unat ?c) (drop (unat ((loc + p) mod block_size s)) (dcache u))) = unat ?c"
      using chunk_in_block[of "block_size s" "loc + p" "n - p"] True by simp
    show ?thesis
    proof (cases ok)
      case ok: True
      have "r = map_option ((@) (take (unat ?c) (drop (unat ((loc + p) mod block_size s)) (dcache u)))) q" "t = v"
        using "1.prems"(2) True c v ok read_loop.simps[of loc n p s] by (simp_all add: Let_def)
      then show ?thesis using ih ok same_log_trans[OF su] part chunk_size_progress[of p n "block_size s" "loc + p"] True by auto
    qed (use "1.prems"(2) True c su read_loop.simps[of loc n p s] in auto)
  next
    case False
    then show ?thesis using "1.prems" read_loop.simps[of loc n p s]
      by (auto simp: same_log_def sound_cache_def word_less_nat_alt split: if_splits)
  qed
qed

lemma write_loop_log: "sound_cache s \<Longrightarrow> write_loop buf loc n p s = (r, t) \<Longrightarrow> same_log s t"
proof (induction buf loc n p s arbitrary: r t rule: write_loop.induct)
  case (1 buf loc n p s)
  show ?case
  proof (cases "p < n \<and> block_size s \<noteq> 0")
    case True
    let ?c = "chunk_size (block_size s) (loc + p) (n - p)"
    obtain ok u where c: "device_cache_block ((loc + p) div block_size s) s = (ok, u)" by fastforce
    note su = cache_block_log[OF "1.prems"(1) c]
    let ?u = "u\<lparr>dcache := splice_at (unat ((loc + p) mod block_size s)) (take (unat ?c) (drop (unat p) buf)) (dcache u), dcache_state := CACHE_DIRTY\<rparr>"
    obtain q v where v: "write_loop buf loc n (p + ?c) ?u = (q, v)" by fastforce
    have l: "length (dcache u) = unat (block_size s)" using su by (simp add: same_log_def sound_cache_def)
    have "length (take (unat ?c) (drop (unat p) buf)) \<le> unat ?c" by simp
    then have "unat ((loc + p) mod block_size s) + length (take (unat ?c) (drop (unat p) buf)) \<le> length (dcache u)"
      using chunk_in_block[of "block_size s" "loc + p" "n - p"] True l by linarith
    from splice_at_length[OF this] have "length (dcache ?u) = unat (block_size s)" unfolding l by simp
    then have su': "same_log s ?u" using su by (simp add: same_log_def sound_cache_def)
    have ih: "same_log ?u v" if "ok"
      using "1.IH"[OF _ _ c[symmetric] _ refl refl refl same_log_sound[OF su'] v] True that by simp
    have "write_loop buf loc n p s = (if ok then (q, v) else (False, u))"
      by (subst write_loop.simps) (use True c v in \<open>cases ok; simp add: Let_def\<close>)
    then show ?thesis using "1.prems"(2) su same_log_trans[OF su' ih] by (auto split: if_splits)
  next
    case False
    then show ?thesis using "1.prems" write_loop.simps[of buf loc n p s]
      by (auto simp: same_log_def sound_cache_def split: if_splits)
  qed
qed

lemma device_read_log:
  "sound_cache s \<Longrightarrow> device_read loc n s = (r, t) \<Longrightarrow> same_log s t \<and> (\<forall>bs. r = Some bs \<longrightarrow> length bs = unat n)"
  using read_loop_log[of s loc n 0 r t] by (simp add: device_read_def)

text \<open>
  A run of the tool up to its label \<open>cleanup\<close>, seen from the log: logged writes, and between
  them anything that leaves the log alone.
\<close>

inductive mem_run :: "dev \<times> undo_mem \<Rightarrow> dev \<times> undo_mem \<Rightarrow> bool" for x where
  run_start: "mem_run x x"
| run_other: "mem_run x (s, h) \<Longrightarrow> udata t = udata s \<Longrightarrow> uninstalling t = uninstalling s \<Longrightarrow> sound_cache t \<Longrightarrow> mem_run x (t, h)"
| run_write: "mem_run x (s, h) \<Longrightarrow> device_write_mem buf loc n (s, h) = (r, t, h') \<Longrightarrow> mem_run x (t, h')"

definition logs :: "dev \<Rightarrow> undo_mem \<Rightarrow> bool" where
  "logs s h \<longleftrightarrow> sound_cache s \<and> \<not> uninstalling s \<and> unat (uninstall_data_i h) = length (udata s) \<and> owned (length (udata s)) h"

text \<open>The device sees what it sees without the pointers, and the log owns its blocks after every write.\<close>

lemma device_write_mem_device:
  assumes "unat (uninstall_data_i h) = length (udata s)" "device_write_mem buf loc n (s, h) = (r, t, h')"
  shows "device_write buf loc n s = (r, t)"
proof -
  have "(256 \<le> uninstall_data_i h) = (256 \<le> length (udata s))" using assms(1) by (simp add: word_le_nat_alt)
  then show ?thesis using assms(2) unfolding device_write_mem_def device_write_def
    by (auto simp: Let_def split: if_splits prod.splits option.splits)
qed

lemma device_write_mem_logs:
  assumes "logs s h" "device_write_mem buf loc n (s, h) = (r, t, h')"
  shows "logs t h'"
proof -
  note l = assms(1)[unfolded logs_def]
  let ?i = "length (udata s)" and ?m = "\<lambda>ok. malloc_data (length (udata s)) ok h"
  show ?thesis
  proof (cases "?i < 256")
    case False
    then have "256 \<le> uninstall_data_i h" using l by (simp add: word_le_nat_alt)
    then show ?thesis using assms l by (simp add: device_write_mem_def)
  next
    case True
    then have g: "\<not> 256 \<le> uninstall_data_i h" using l by (simp add: word_le_nat_alt)
    have o: "owned ?i h" "unat (uninstall_data_i h) = ?i" "\<not> uninstalling s" "sound_cache s" using l by simp_all
    note m = malloc_owned[OF o(1) True]
    note fr = free_last_owned(1)[OF m(1)]
    have i: "uninstall_data_i (?m ok) = uninstall_data_i h" for ok by (simp add: malloc_data_def)
    have up: "unat (uninstall_data_i h + 1) = Suc ?i" using o(2) True by (simp add: unat_word_ariths)
    obtain ok u where u: "lib_call s = (ok, u)" by fastforce
    note su = lib_call_log[OF o(4) u]
    obtain q v where v: "device_read loc n u = (q, v)" by fastforce
    note rd = device_read_log[OF same_log_sound[OF su] v]
    have sv: "same_log s v" using same_log_trans[OF su] rd by blast
    obtain p w where w: "write_loop buf loc n 0 v = (p, w)" by fastforce
    have sw: "same_log s w" using same_log_trans[OF sv write_loop_log[OF same_log_sound[OF sv] w]] .
    have own: "owned (Suc ?i) (?m True\<lparr>uninstall_data_i := uninstall_data_i h + 1\<rparr>)"
      using m(1) by (simp add: owned_def live_def)
    show ?thesis
      using assms(2) o g u v w su sv sw m(2) fr i up own
      by (auto simp: device_write_mem_def logs_def same_log_def sound_cache_def Let_def split: if_splits option.splits)
  qed
qed

lemma mem_run_logs: "mem_run (s, h) (t, h') \<Longrightarrow> logs s h \<Longrightarrow> logs t h'"
proof (induction "(t, h')" arbitrary: t h' rule: mem_run.induct)
  case (run_write s' h' buf loc n r t h'')
  then show ?case using device_write_mem_logs by blast
qed (auto simp: logs_def)

lemma reverse_ptrs_owned:
  assumes "owned (unat (uninstall_data_i h)) h"
  shows "owned (unat (uninstall_data_i (reverse_ptrs h))) (reverse_ptrs h)"
proof -
  let ?n = "unat (uninstall_data_i h)"
  have n: "length (take ?n (data_ptr h)) = ?n" using assms by (simp add: owned_def)
  have "reverse_ptrs h = h\<lparr>data_ptr := rev (take ?n (data_ptr h)) @ drop ?n (data_ptr h)\<rparr>"
    using reverse_by_index[of "take ?n (data_ptr h)"] n by (simp add: reverse_ptrs_def Let_def)
  then show ?thesis using assms by (simp add: owned_def live_def)
qed

text \<open>The whole of \<open>install\<close> is such a run, whatever the device and the C library answer.\<close>

definition holding :: "dev \<times> undo_mem \<Rightarrow> dev \<Rightarrow> bool" where
  "holding x t \<longleftrightarrow> (\<exists>h. mem_run x (t, h) \<and> logs t h)"

lemma holding_same_log: "holding x s \<Longrightarrow> same_log s t \<Longrightarrow> holding x t"
  unfolding holding_def same_log_def using run_other by (fastforce simp: logs_def)

lemma holding_sound: "holding x s \<Longrightarrow> sound_cache s"
  by (auto simp: holding_def logs_def)

lemma holding_write:
  assumes "holding x s" "device_write buf loc n s = (w, t)"
  shows "holding x t"
proof -
  obtain h where h: "mem_run x (s, h)" "logs s h" using assms(1) by (auto simp: holding_def)
  obtain w' t' h' where w: "device_write_mem buf loc n (s, h) = (w', t', h')" by (metis surj_pair)
  have "t' = t" using device_write_mem_device[OF _ w] h(2) assms(2) by (simp add: logs_def)
  then show ?thesis using run_write[OF h(1) w] device_write_mem_logs[OF h(2) w] by (auto simp: holding_def)
qed

interpretation memory: transaction "holding x" "holding x" "\<lambda>a n bs. length bs = n" for x
proof unfold_locales
  fix s t :: dev and loc n :: u64 and r :: "u8 list option" and buf :: "u8 list" and w :: "unit option" and ok :: bool
  assume g: "holding x s"
  note c = holding_sound[OF g]
  show "holding x s" by (rule g)
  show "case r of None \<Rightarrow> holding x t | Some bs \<Rightarrow> holding x t \<and> length bs = unat n" if "device_read loc n s = (r, t)"
    using device_read_log[OF c that] holding_same_log[OF g] by (auto split: option.splits)
  show "if w = None then holding x t else holding x t" if "device_write buf loc n s = (w, t)"
    using holding_write[OF g that] by simp
  show "holding x t" if "lib_call s = (ok, t)" using holding_same_log[OF g lib_call_log[OF c that]] .
  show "if ok then holding x t else holding x t" if "device_flush_cache s = (ok, t)"
    using holding_same_log[OF g flush_log[OF c that]] by simp
qed

lemma device_guess_log:
  "device_guess gs s = (True, t) \<Longrightarrow> \<forall>g\<in>set gs. g < 2 ^ 64 \<Longrightarrow>
    sound_cache t \<and> udata t = udata s \<and> uninstalling t = uninstalling s"
proof (induction gs arbitrary: s)
  case (Cons g gs)
  obtain ok u where u: "lib_call s = (ok, u)" by fastforce
  then have l: "udata u = udata s" "uninstalling u = uninstalling s" by (auto simp: lib_call_def)
  let ?u = "u\<lparr>dcache := take g (dcache u @ replicate g 0), fpos := 0\<rparr>"
  obtain r v where v: "fread_cache g ?u = (r, v)" by (metis surj_pair)
  have "g \<le> length (dcache ?u)" "length (dcache ?u) = g" by simp_all
  then have f: "length (dcache v) = g" "udata v = udata u" "uninstalling v = uninstalling u"
    using fread_cache_frame[OF v] by (simp_all del: length_take)
  show ?case
  proof (cases r)
    case True
    have "ok" using Cons.prems(1) u by (cases ok) simp_all
    then have "t = v\<lparr>block_size := of_nat g, dcache_state := CACHE_CLEAN, cached_block := 0\<rparr>" using Cons.prems(1) u v True by simp
    then show ?thesis using f l Cons.prems(2) by (simp add: sound_cache_def unat_of_nat)
  next
    case False
    have "ok" using Cons.prems(1) u by (cases ok) simp_all
    then have "device_guess gs v = (True, t)" using Cons.prems(1) u v False by simp
    then show ?thesis using Cons.IH Cons.prems(2) f l by simp
  qed
qed simp

lemma device_init_logs:
  assumes "device_init (dev_start d ok) = (True, s)"
  shows "logs s mem_start"
proof -
  have "sound_cache s \<and> udata s = udata (dev_start d ok) \<and> uninstalling s = uninstalling (dev_start d ok)"
    using assms unfolding device_init_def by (rule device_guess_log) simp
  moreover have "uninstall_data_i mem_start = 0" by (simp add: mem_start_def)
  ultimately show ?thesis using owned_start(1) by (simp add: logs_def dev_start_def)
qed

text \<open>
  C18. An installation releases the blocks of its log: every run of the tool on any device, with
  any answers of the C library, ends with each block freed once, after the cleanup has
  reversed the log.
\<close>

theorem install_memory:
  assumes "512 < length img" "length img < 2 ^ 64"
    and "device_init (dev_start d ok) = (True, s)" "install opts img rnd s = (r, t)"
  shows "(\<exists>h. mem_run (s, mem_start) (t, h)) \<and>
    (\<forall>h. mem_run (s, mem_start) (t, h) \<longrightarrow> released (free_uninstall_data (reverse_ptrs h)))"
proof -
  have l: "logs s mem_start" using device_init_logs[OF assms(3)] .
  then have "holding (s, mem_start) s" using run_start by (auto simp: holding_def)
  then have "holding (s, mem_start) t" using memory.tx_install[OF assms(1,2), of "(s, mem_start)" opts rnd] assms(4)
    by (auto simp: keeps_def split: prod.splits option.splits)
  moreover have "released (free_uninstall_data (reverse_ptrs h))" if "mem_run (s, mem_start) (t, h)" for h
    using mem_run_logs[OF that l] by (intro free_uninstall_data_owned reverse_ptrs_owned) (simp add: logs_def)
  ultimately show ?thesis by (auto simp: holding_def)
qed

text \<open>An empty device of one block.\<close>

theorem install_memory_witness:
  "\<exists>s t h. device_init (dev_start (replicate 512 0) (\<lambda>_. True)) = (True, s) \<and>
     install options0 (replicate 1024 0) (\<lambda>_. 0) s = (fst (install options0 (replicate 1024 0) (\<lambda>_. 0) s), t) \<and>
     mem_run (s, mem_start) (t, h) \<and> released (free_uninstall_data (reverse_ptrs h))"
proof -
  obtain s where s: "device_init (dev_start (replicate 512 0) (\<lambda>_. True)) = (True, s)"
    using device_init_start(1)[of "\<lambda>_. True" "replicate 512 0"] by auto
  obtain r t where t: "install options0 (replicate 1024 0) (\<lambda>_. 0) s = (r, t)" by fastforce
  show ?thesis using install_memory[OF _ _ s t] s t by auto
qed

end
