(* ===== verification/Lim_Tool.thy ===== *)
theory Lim_Tool
  imports Lim_Install
begin

section \<open>The boot loader tool: enrolling a configuration, and the command line\<close>

text \<open>
  The rest of \<open>limine-binary/limine.c\<close>: \<open>enroll_config\<close>, which writes the checksum of a
  configuration file behind a signature in the boot loader, \<open>version\<close> and \<open>main\<close>. Files are a
  parameter of the model, and \<open>lib\<close> gives the outcomes of the calls that can fail; a call of
  \<open>fwrite\<close> that fails has written nothing. Texts on how to use a command are one constructor
  each.
\<close>

subsection \<open>Arguments\<close>

text \<open>\<open>argv\<close> is a list; \<open>argc\<close> is its length.\<close>

definition remove_arg :: "nat \<Rightarrow> string list \<Rightarrow> string list" where
  "remove_arg index argv =
     take (length argv - 1) (fold (\<lambda>i av. av[i := av ! Suc i]) [index..<length argv - 1] argv)"

lemma length_fold_update: "length (fold (\<lambda>i av. av[i := f i av]) is xs) = length xs"
  by (induction "is" arbitrary: xs) simp_all

lemma length_remove_arg [simp]: "length (remove_arg i argv) = length argv - 1"
  by (simp add: remove_arg_def length_fold_update[of "\<lambda>i av. av ! Suc i"])

text \<open>The flags of \<open>enroll-config\<close>; \<open>None\<close> when help is asked for. An argument that is removed leaves the index where it is.\<close>

function enroll_args :: "nat \<Rightarrow> string list \<Rightarrow> bool \<Rightarrow> bool \<Rightarrow> (string list \<times> bool \<times> bool) option" where
  "enroll_args i argv q reset =
     (if i < length argv
      then if argv ! i = ''--help'' \<or> argv ! i = ''-h'' then None
           else if argv ! i = ''--quiet'' then enroll_args i (remove_arg i argv) True reset
           else if argv ! i = ''--reset'' then enroll_args i (remove_arg i argv) q True
           else enroll_args (Suc i) argv q reset
      else Some (argv, q, reset))"
  by auto

termination
  by (relation "measure (\<lambda>(i, argv, q, reset). length argv - i)") auto

declare enroll_args.simps [simp del]

subsection \<open>The signature\<close>

definition config_b2sum_sign :: "u8 list" where
  "config_b2sum_sign = ascii ''++CONFIG_B2SUM_SIGNATURE++''"

text \<open>
  The search loop: \<open>i\<close> is the next byte, \<open>checked_count\<close> the number of bytes that match so far;
  a mismatch resumes behind the first byte of the failed match.
\<close>

function search_loop :: "u8 list \<Rightarrow> nat \<Rightarrow> nat \<Rightarrow> nat \<Rightarrow> nat option" where
  "search_loop bootloader bound i checked_count =
     (if i < bound
      then if bootloader ! i \<noteq> config_b2sum_sign ! checked_count
           then if 0 < checked_count then search_loop bootloader bound (Suc (i - checked_count)) 0
                else search_loop bootloader bound (Suc i) 0
           else if Suc checked_count = 26 then Some (i + 1)
           else search_loop bootloader bound (Suc i) (Suc checked_count)
      else None)"
  by auto

termination
  by (relation "measures [\<lambda>(bl, bound, i, c). bound - (i - c), \<lambda>(bl, bound, i, c). bound - i]") auto

declare search_loop.simps [simp del]

definition find_checksum :: "u8 list \<Rightarrow> nat option" where
  "find_checksum bootloader = search_loop bootloader (length bootloader - (26 + 128) + 1) 0 0"

definition is_hex :: "char \<Rightarrow> bool" where
  "is_hex c \<longleftrightarrow> c \<in> set ''0123456789abcdefABCDEF''"

subsection \<open>Enrolling\<close>

text \<open>The exit status, and the file that was written with its new contents.\<close>

definition enroll_config :: "(string \<Rightarrow> u8 list option) \<Rightarrow> (nat \<Rightarrow> bool) \<Rightarrow> string list \<Rightarrow> bool \<times> (string \<times> u8 list) option" where
  "enroll_config files lib argv =
     (case enroll_args 1 argv False False of
        None \<Rightarrow> (True, None)
      | Some (argv, q, reset) \<Rightarrow>
          if length argv \<le> (if reset then 1 else 2) then (False, None)
          else if \<not> reset \<and> (length (argv ! 2) \<noteq> 128 \<or> \<not> list_all is_hex (argv ! 2)) then (False, None)
          else case files (argv ! 1) of
            None \<Rightarrow> (False, None)
          | Some bootloader \<Rightarrow>
              if \<not> lib 0 \<or> \<not> lib 1 \<or> length bootloader < 26 + 128 \<or> \<not> lib 2 \<or> \<not> lib 3 then (False, None)
              else case find_checksum bootloader of
                None \<Rightarrow> (False, None)
              | Some checksum_loc \<Rightarrow>
                  if \<not> lib 4 \<or> \<not> lib 5 then (False, None)
                  else (True, Some (argv ! 1,
                    splice_at checksum_loc (if reset then replicate 128 (of_char (CHR ''0'')) else ascii (argv ! 2)) bootloader)))"

subsection \<open>The command line\<close>

datatype tool_result =
    General_usage bool
  | Version_usage
  | Printed "string list"
  | No_datadir
  | Installed "bool + (bool \<times> u8 list option \<times> dev)"
  | Enrolled "bool \<times> (string \<times> u8 list) option"

definition version :: "string list \<Rightarrow> tool_result" where
  "version argv =
     (if 2 \<le> length argv \<and> argv ! 1 = ''--help'' then Version_usage
      else if 2 \<le> length argv \<and> argv ! 1 = ''--version-only'' then Printed [''12.3.3'']
      else Printed [''Limine 12.3.3'', ''Copyright (C) 2019-2026 Mintsuki and contributors.'',
             ''Limine is distributed under the terms of the BSD-2-Clause license.'',
             ''There is ABSOLUTELY NO WARRANTY, to the extent permitted by law.''])"

text \<open>The build of this repository has BIOS support and no \<open>LIMINE_DATADIR\<close>.\<close>

definition tool_main ::
  "(string \<Rightarrow> u8 list option) \<Rightarrow> (nat \<Rightarrow> bool) \<Rightarrow> u8 list \<Rightarrow> (nat \<Rightarrow> u8) \<Rightarrow> string list \<Rightarrow> tool_result" where
  "tool_main files ok bootloader_img rnd argv =
     (if length argv \<le> 1 then General_usage False
      else if argv ! 1 = ''help'' \<or> argv ! 1 = ''--help'' \<or> argv ! 1 = ''-h'' then General_usage True
      else if argv ! 1 = ''bios-install'' then Installed (bios_install files ok bootloader_img rnd (drop 2 argv))
      else if argv ! 1 = ''enroll-config'' then Enrolled (enroll_config files ok (drop 1 argv))
      else if argv ! 1 = ''--print-datadir'' then No_datadir
      else if argv ! 1 = ''version'' \<or> argv ! 1 = ''--version'' then version (drop 1 argv)
      else General_usage False)"

subsection \<open>Arguments, as a specification\<close>

lemma remove_arg_eq:
  assumes "i < length argv"
  shows "remove_arg i argv = take i argv @ drop (Suc i) argv"
proof -
  let ?f = "\<lambda>k. fold (\<lambda>i av. av[i := av ! Suc i]) [i..<k] argv"
  have "?f k ! j = (if i \<le> j \<and> j < k then argv ! Suc j else argv ! j)" if "k < length argv" "j < length argv" for j k
    using that
  proof (induction k arbitrary: j)
    case (Suc k)
    have l: "length (?f k) = length argv" by (rule length_fold_update)
    show ?case
    proof (cases "i \<le> k")
      case True
      then have "?f (Suc k) = (?f k)[k := ?f k ! Suc k]" by simp
      then show ?thesis using Suc l True by (auto simp: nth_list_update)
    qed (use Suc in auto)
  qed simp
  note shifted = this[of "length argv - 1"]
  show ?thesis
  proof (rule nth_equalityI)
    fix j
    assume "j < length (remove_arg i argv)"
    then have "j < length argv - 1" by simp
    then show "remove_arg i argv ! j = (take i argv @ drop (Suc i) argv) ! j"
      using assms shifted[of j] by (simp add: remove_arg_def nth_append)
  qed (use assms in simp)
qed

abbreviation (input) enroll_flags :: "string set" where
  "enroll_flags \<equiv> {''--quiet'', ''--reset''}"

lemma enroll_args_eq:
  assumes "i \<le> length argv"
  shows "enroll_args i argv q r =
    (if ''--help'' \<in> set (drop i argv) \<or> ''-h'' \<in> set (drop i argv) then None
     else Some (take i argv @ filter (\<lambda>a. a \<notin> enroll_flags) (drop i argv),
       q \<or> ''--quiet'' \<in> set (drop i argv), r \<or> ''--reset'' \<in> set (drop i argv)))"
  using assms
proof (induction i argv q r rule: enroll_args.induct)
  case (1 i argv q r)
  show ?case
  proof (cases "i < length argv")
    case True
    have d: "drop i argv = argv ! i # drop (Suc i) argv" using True by (rule Cons_nth_drop_Suc[symmetric])
    have t: "take (Suc i) argv = take i argv @ [argv ! i]" using True by (rule take_Suc_conv_app_nth)
    have m: "take i (remove_arg i argv) = take i argv" "drop i (remove_arg i argv) = drop (Suc i) argv"
      using True by (simp_all add: remove_arg_eq)
    have l: "i \<le> length (remove_arg i argv)" using True by simp
    show ?thesis using 1 True unfolding m l d t
      by (subst enroll_args.simps) (auto simp: m l d t)
  next
    case False
    then show ?thesis using "1.prems" by (subst enroll_args.simps) simp
  qed
qed

subsection \<open>The search, as a specification\<close>

definition signed_at :: "u8 list \<Rightarrow> nat \<Rightarrow> bool" where
  "signed_at bl p \<longleftrightarrow> (\<forall>j<26. bl ! (p + j) = config_b2sum_sign ! j)"

text \<open>
  The loop finds the first place where the signature ends below the bound: between turns the
  last \<open>checked_count\<close> bytes match, and no earlier place does.
\<close>

lemma search_loop_eq:
  assumes "c \<le> i" "c < 26" "\<forall>j<c. bl ! (i - c + j) = config_b2sum_sign ! j"
  shows "search_loop bl bound i c = map_option (\<lambda>p. p + 26) (find (signed_at bl) [i - c..<bound - 25])"
  using assms
proof (induction bl bound i c rule: search_loop.induct)
  case (1 bl bound i c)
  let ?p = "i - c"
  have i: "i = ?p + c" using "1.prems"(1) by simp
  show ?case
  proof (cases "i < bound")
    case False
    then have "[?p..<bound - 25] = []" using "1.prems"(1,2) by auto
    then have "find (signed_at bl) [?p..<bound - 25] = None" by (simp only: find.simps)
    then show ?thesis using False by (subst search_loop.simps) simp
  next
    case b: True
    show ?thesis
    proof (cases "bl ! i = config_b2sum_sign ! c")
      case False
      then have "\<not> signed_at bl ?p" using "1.prems"(2) i unfolding signed_at_def by metis
      then have f: "find (signed_at bl) [?p..<bound - 25] = find (signed_at bl) [Suc ?p..<bound - 25]"
        by (cases "?p < bound - 25") (simp_all add: upt_rec)
      show ?thesis
      proof (cases "0 < c")
        case True
        then show ?thesis using "1.IH"(1)[OF b False True] False b f by (subst search_loop.simps) simp
      next
        case c: False
        then show ?thesis using "1.IH"(2)[OF b False c] False b f by (subst search_loop.simps) simp
      qed
    next
      case True
      have m: "\<forall>j<Suc c. bl ! (?p + j) = config_b2sum_sign ! j" using "1.prems"(3) True i by (metis less_antisym)
      show ?thesis
      proof (cases "Suc c = 26")
        case e: True
        then have "signed_at bl ?p" using m unfolding signed_at_def by simp
        moreover have "?p < bound - 25" using b e i by simp
        ultimately have "find (signed_at bl) [?p..<bound - 25] = Some ?p" by (simp add: upt_rec)
        then show ?thesis using b True e i by (subst search_loop.simps) simp
      next
        case False
        then show ?thesis using "1.IH"(3)[OF b _ False] True b m "1.prems"(1,2) by (subst search_loop.simps) simp
      qed
    qed
  qed
qed

lemma find_checksum_eq:
  "154 \<le> length bl \<Longrightarrow> find_checksum bl = map_option (\<lambda>p. p + 26) (find (signed_at bl) [0..<length bl - 178])"
  using search_loop_eq[of 0 0 bl "length bl - 154 + 1"] by (simp add: find_checksum_def)

subsection \<open>Enrolling\<close>

lemma find_upt_Some: "find P [0..<n] = Some p \<longleftrightarrow> p < n \<and> P p \<and> (\<forall>q<p. \<not> P q)"
proof -
  have "find P [0..<n] = Some p \<longleftrightarrow> (\<exists>i<n. P i \<and> p = i \<and> (\<forall>q<i. \<not> P q))" by (auto simp: find_Some_iff)
  then show ?thesis by auto
qed

definition enrolled :: "u8 list \<Rightarrow> u8 list \<Rightarrow> u8 list option" where
  "enrolled digest bl = map_option (\<lambda>p. splice_at (p + 26) digest bl) (find (signed_at bl) [0..<length bl - 178])"

lemma splice_128: "p < length bl - 178 \<Longrightarrow> length digest = 128 \<Longrightarrow> length (splice_at (p + 26) digest bl) = length bl"
  by (simp add: splice_at_def)

text \<open>The signature stays the first one when the checksum behind it changes.\<close>

lemma signed_at_splice:
  assumes "q \<le> p" "p < length bl - 178" "length digest = 128"
  shows "signed_at (splice_at (p + 26) digest bl) q = signed_at bl q"
proof -
  have "splice_at (p + 26) digest bl ! (q + j) = bl ! (q + j)" if "j < 26" for j
    using assms that by (simp add: splice_at_def nth_append)
  then show ?thesis by (simp add: signed_at_def)
qed

lemma enrolled_again:
  assumes "enrolled x bl = Some bl'" "length x = 128" "length y = 128"
  shows "enrolled y bl' = enrolled y bl"
proof -
  obtain p where p: "find (signed_at bl) [0..<length bl - 178] = Some p" "bl' = splice_at (p + 26) x bl"
    using assms(1) by (auto simp: enrolled_def)
  then have f: "p < length bl - 178" "signed_at bl p" "\<forall>q<p. \<not> signed_at bl q" by (simp_all add: find_upt_Some)
  have l: "length bl' = length bl" using splice_128[OF f(1) assms(2)] p(2) by simp
  have "find (signed_at bl') [0..<length bl' - 178] = Some p"
    unfolding find_upt_Some l using f signed_at_splice[OF _ f(1) assms(2)] p(2) by simp
  moreover have "splice_at (p + 26) y bl' = splice_at (p + 26) y bl"
    using f(1) assms(2,3) unfolding p(2) by (simp add: splice_at_def)
  ultimately show ?thesis using p(1) by (simp add: enrolled_def)
qed

definition good_sum :: "string \<Rightarrow> bool" where
  "good_sum digest \<longleftrightarrow> length digest = 128 \<and> list_all is_hex digest"

text \<open>The command with all its checks, in terms of the checksum that is written.\<close>

lemma enroll_config_eq:
  assumes "\<forall>n. lib n" "name \<notin> {''--help'', ''-h'', ''--quiet'', ''--reset''}" "files name = Some bl" "154 \<le> length bl"
  shows "good_sum digest \<Longrightarrow> enroll_config files lib [cmd, name, digest] =
      (case enrolled (ascii digest) bl of None \<Rightarrow> (False, None) | Some bl' \<Rightarrow> (True, Some (name, bl')))"
    "enroll_config files lib [cmd, name, ''--reset''] =
      (case enrolled (replicate 128 48) bl of None \<Rightarrow> (False, None) | Some bl' \<Rightarrow> (True, Some (name, bl')))"
proof -
  have f: "digest \<notin> {''--help'', ''-h'', ''--quiet'', ''--reset''}" if "good_sum digest" using that by (auto simp: good_sum_def)
  show "enroll_config files lib [cmd, name, digest] =
      (case enrolled (ascii digest) bl of None \<Rightarrow> (False, None) | Some bl' \<Rightarrow> (True, Some (name, bl')))" if "good_sum digest"
  proof -
    have "enroll_args 1 [cmd, name, digest] False False = Some ([cmd, name, digest], False, False)"
      using assms(2) f[OF that] by (subst enroll_args_eq) auto
    then show ?thesis using assms(1,3,4) that
      by (simp add: enroll_config_def find_checksum_eq enrolled_def good_sum_def option.case_eq_if map_option_case)
  qed
  have "enroll_args 1 [cmd, name, ''--reset''] False False = Some ([cmd, name], False, True)"
    using assms(2) by (subst enroll_args_eq) auto
  then show "enroll_config files lib [cmd, name, ''--reset''] =
      (case enrolled (replicate 128 48) bl of None \<Rightarrow> (False, None) | Some bl' \<Rightarrow> (True, Some (name, bl')))"
    using assms(1,3,4) by (simp add: enroll_config_def find_checksum_eq enrolled_def option.case_eq_if map_option_case)
qed

text \<open>
  Enrolling a checksum: given a checksum of 128 hexadecimal digits and a boot loader
  whose first signature starts at \<open>p\<close> with at least 179 bytes from there to the end of the
  file, the tool writes the checksum behind the signature and changes nothing else.
\<close>

theorem enroll_writes_checksum:
  assumes "\<forall>n. lib n" "name \<notin> {''--help'', ''-h'', ''--quiet'', ''--reset''}" "files name = Some bl" "good_sum digest"
    and "signed_at bl p" "p + 179 \<le> length bl" "\<forall>q<p. \<not> signed_at bl q"
  shows "\<exists>bl'. enroll_config files lib [cmd, name, digest] = (True, Some (name, bl')) \<and> length bl' = length bl \<and>
    take 128 (drop (p + 26) bl') = ascii digest \<and> (\<forall>x<length bl. \<not> (p + 26 \<le> x \<and> x < p + 154) \<longrightarrow> bl' ! x = bl ! x)"
proof -
  have f: "find (signed_at bl) [0..<length bl - 178] = Some p" using assms(5-7) by (simp add: find_upt_Some)
  have l: "length (ascii digest) = 128" using assms(4) by (simp add: good_sum_def ascii_def)
  have len: "154 \<le> length bl" using assms(6) by simp
  let ?b = "splice_at (p + 26) (ascii digest) bl"
  have "enroll_config files lib [cmd, name, digest] = (True, Some (name, ?b))"
    using enroll_config_eq(1)[of lib name files bl, OF assms(1-3) len assms(4), of cmd] f by (simp add: enrolled_def)
  moreover have "length ?b = length bl" using assms(6) l by (intro splice_128) simp_all
  moreover have "take 128 (drop (p + 26) ?b) = ascii digest" using assms(6) l by (simp add: splice_at_def)
  moreover have "?b ! x = bl ! x" if "x < length bl" "\<not> (p + 26 \<le> x \<and> x < p + 154)" for x
    using assms(6) l that by (auto simp: splice_at_def nth_append min_def)
  ultimately show ?thesis by blast
qed

lemma length_sign [simp]: "length config_b2sum_sign = 26"
  by (simp add: config_b2sum_sign_def ascii_def)

lemma signed_at_start: "signed_at (config_b2sum_sign @ xs) 0"
  by (simp add: signed_at_def nth_append)

text \<open>The smallest boot loader file in which a signature at the start is found.\<close>

definition signed_example :: "u8 list" where
  "signed_example = config_b2sum_sign @ replicate 153 0"

lemma signed_example_at: "length signed_example = 179" "signed_at signed_example 0" "good_sum (replicate 128 CHR ''a'')"
  by (simp_all add: signed_example_def signed_at_start good_sum_def is_hex_def list_all_iff)

theorem enroll_writes_checksum_witness:
  "\<exists>bl'. enroll_config [''limine'' \<mapsto> signed_example] (\<lambda>_. True) [''enroll-config'', ''limine'', replicate 128 CHR ''a''] =
     (True, Some (''limine'', bl')) \<and> take 128 (drop 26 bl') = ascii (replicate 128 CHR ''a'')"
proof -
  have "(\<forall>n. (\<lambda>_. True) (n :: nat)) \<and> ''limine'' \<notin> {''--help'', ''-h'', ''--quiet'', ''--reset''}" by simp
  then show ?thesis
    using enroll_writes_checksum[of "\<lambda>_. True" "''limine''" "[''limine'' \<mapsto> signed_example]" signed_example "replicate 128 CHR ''a''" 0 "''enroll-config''"]
      signed_example_at by auto
qed

text \<open>
  Enrolling and resetting are independent of what was enrolled before: enrolling a
  second checksum, or resetting, gives the same file as doing so on the original one.
\<close>

theorem enroll_overwrites:
  assumes "\<forall>n. lib n" "name \<notin> {''--help'', ''-h'', ''--quiet'', ''--reset''}" "files name = Some bl" "good_sum digest"
    and "enroll_config files lib [cmd, name, digest] = (True, Some (name, bl'))"
  shows "enroll_config (files(name \<mapsto> bl')) lib [cmd, name, ''--reset''] = enroll_config files lib [cmd, name, ''--reset''] \<and>
    (good_sum digest' \<longrightarrow> enroll_config (files(name \<mapsto> bl')) lib [cmd, name, digest'] = enroll_config files lib [cmd, name, digest'])"
proof -
  have f: "digest \<notin> {''--help'', ''-h'', ''--quiet'', ''--reset''}" using assms(4) by (auto simp: good_sum_def)
  have "enroll_args 1 [cmd, name, digest] False False = Some ([cmd, name, digest], False, False)"
    using assms(2) f by (subst enroll_args_eq) auto
  then have len: "154 \<le> length bl" using assms(3,5) by (simp add: enroll_config_def split: if_splits)
  then have e: "enrolled (ascii digest) bl = Some bl'"
    using enroll_config_eq(1)[of lib name files bl, OF assms(1-3) len assms(4), of cmd] assms(5) by (simp split: option.splits)
  have a: "length (ascii digest) = 128" "good_sum digest' \<longrightarrow> length (ascii digest') = 128" using assms(4) by (simp_all add: good_sum_def ascii_def)
  have l: "154 \<le> length bl'" using e len a(1) splice_128 by (auto simp: enrolled_def find_upt_Some)
  have f: "(files(name \<mapsto> bl')) name = Some bl'" by simp
  show ?thesis
    using enroll_config_eq[of lib name "files(name \<mapsto> bl')" bl', OF assms(1,2) f l] enroll_config_eq[of lib name files bl, OF assms(1-3) len] enrolled_again[OF e a(1)] a(2) by simp
qed

theorem enroll_overwrites_witness:
  "\<exists>bl'. enroll_config [''limine'' \<mapsto> bl'] (\<lambda>_. True) [''enroll-config'', ''limine'', ''--reset''] =
     enroll_config [''limine'' \<mapsto> signed_example] (\<lambda>_. True) [''enroll-config'', ''limine'', ''--reset''] \<and> bl' \<noteq> signed_example"
proof -
  let ?a = "replicate 128 CHR ''a''" and ?f = "[''limine'' \<mapsto> signed_example]"
  have n: "''limine'' \<notin> {''--help'', ''-h'', ''--quiet'', ''--reset''}" by simp
  have "find (signed_at signed_example) [0..<length signed_example - 178] = Some 0"
    using signed_example_at by (simp add: find_upt_Some)
  then have e: "enroll_config ?f (\<lambda>_. True) [''enroll-config'', ''limine'', ?a] = (True, Some (''limine'', splice_at 26 (ascii ?a) signed_example))"
    using enroll_config_eq(1)[of "\<lambda>_. True" "''limine''" ?f signed_example ?a] n signed_example_at by (simp add: enrolled_def)
  have "splice_at 26 (ascii ?a) signed_example ! 26 \<noteq> signed_example ! 26"
    by (simp add: splice_at_def nth_append signed_example_def ascii_def)
  then show ?thesis using enroll_overwrites[of "\<lambda>_. True" "''limine''" ?f signed_example ?a "''enroll-config''", OF _ n _ _ e, of ?a]
      signed_example_at(3) by (intro exI[of _ "splice_at 26 (ascii ?a) signed_example"]) auto
qed

text \<open>
  C28. The search stops too early. The bound of the loop is meant for the start of the
  signature but is tested against the byte that is compared, so a signature that starts in
  the last 178 bytes of the file is not found, although there is room for the checksum
  behind it: the command fails and the file is not written.
\<close>

theorem enroll_misses_late_signature:
  assumes "\<forall>n. lib n" "name \<notin> {''--help'', ''-h'', ''--quiet'', ''--reset''}" "files name = Some bl" "good_sum digest" "154 \<le> length bl"
    and "\<forall>q. signed_at bl q \<longrightarrow> length bl < q + 179"
  shows "enroll_config files lib [cmd, name, digest] = (False, None)"
proof -
  have "find (signed_at bl) [0..<length bl - 178] = None" using assms(6) by (auto simp: find_None_iff)
  then show ?thesis using enroll_config_eq(1)[of lib name files bl, OF assms(1-3,5,4), of cmd] by (simp add: enrolled_def)
qed

theorem enroll_misses_late_signature_witness:
  "signed_at (config_b2sum_sign @ replicate 128 48) 0 \<and>
   enroll_config [''limine'' \<mapsto> config_b2sum_sign @ replicate 128 48] (\<lambda>_. True) [''enroll-config'', ''limine'', replicate 128 CHR ''a''] = (False, None)"
proof -
  let ?b = "config_b2sum_sign @ replicate 128 48" and ?a = "replicate 128 CHR ''a''"
  have l: "length ?b = 154" by simp
  have "signed_at ?b 0" by (rule signed_at_start)
  moreover have n: "''limine'' \<notin> {''--help'', ''-h'', ''--quiet'', ''--reset''}" by simp
  moreover have "enroll_config [''limine'' \<mapsto> ?b] (\<lambda>_. True) [''enroll-config'', ''limine'', ?a] = (False, None)"
    using enroll_misses_late_signature[of "\<lambda>_. True" "''limine''" "[''limine'' \<mapsto> ?b]" ?b ?a "''enroll-config''"] n l signed_example_at(3) by simp
  ultimately show ?thesis by blast
qed

end
