(* ===== verification/Lim_Numbers.thy ===== *)
theory Lim_Numbers
  imports Lim_Uninstall
begin

unbundle bit_operations_syntax

section \<open>Byte order and disk addresses\<close>

text \<open>
  \<open>endswap16\<close> to \<open>endswap64\<close> reverse the bytes of a number, and the three bytes of \<open>lba2chs\<close>
  decode to the block address they were made from.
\<close>

subsection \<open>Byte order\<close>

lemma byte_masks:
  "(0x00ff :: u16) = mask 8" "(0xff00 :: u16) = push_bit 8 (mask 8)"
  "(0x000000ff :: u32) = mask 8" "(0x0000ff00 :: u32) = push_bit 8 (mask 8)"
  "(0x00ff0000 :: u32) = push_bit 16 (mask 8)" "(0xff000000 :: u32) = push_bit 24 (mask 8)"
  "(0x00000000000000ff :: u64) = mask 8" "(0x000000000000ff00 :: u64) = push_bit 8 (mask 8)"
  "(0x0000000000ff0000 :: u64) = push_bit 16 (mask 8)" "(0x00000000ff000000 :: u64) = push_bit 24 (mask 8)"
  "(0x000000ff00000000 :: u64) = push_bit 32 (mask 8)" "(0x0000ff0000000000 :: u64) = push_bit 40 (mask 8)"
  "(0x00ff000000000000 :: u64) = push_bit 48 (mask 8)" "(0xff00000000000000 :: u64) = push_bit 56 (mask 8)"
  by (simp_all add: mask_numeral push_bit_numeral)

lemma endswap_bits:
  assumes "j < 8"
  shows "r < 2 \<Longrightarrow> bit (endswap16 w16) (8 * r + j) \<longleftrightarrow> bit w16 (8 * (1 - r) + j)"
    "r < 4 \<Longrightarrow> bit (endswap32 w32) (8 * r + j) \<longleftrightarrow> bit w32 (8 * (3 - r) + j)"
    "r < 8 \<Longrightarrow> bit (endswap64 w64) (8 * r + j) \<longleftrightarrow> bit w64 (8 * (7 - r) + j)"
proof -
  show "bit (endswap16 w16) (8 * r + j) \<longleftrightarrow> bit w16 (8 * (1 - r) + j)" if "r < 2"
  proof -
    have "r \<in> {0, 1}" using that by auto
    then show ?thesis using assms by (elim insertE emptyE; simp add: endswap16_def byte_masks bit_simps)
  qed
  show "bit (endswap32 w32) (8 * r + j) \<longleftrightarrow> bit w32 (8 * (3 - r) + j)" if "r < 4"
  proof -
    have "r \<in> {0, 1, 2, 3}" using that by auto
    then show ?thesis using assms by (elim insertE emptyE; simp add: endswap32_def byte_masks bit_simps)
  qed
  show "bit (endswap64 w64) (8 * r + j) \<longleftrightarrow> bit w64 (8 * (7 - r) + j)" if "r < 8"
  proof -
    have "r \<in> {0, 1, 2, 3, 4, 5, 6, 7}" using that by auto
    then show ?thesis using assms by (elim insertE emptyE; simp add: endswap64_def byte_masks bit_simps)
  qed
qed

lemma word_eq_by_bytes:
  assumes "LENGTH('a) = 8 * n" "\<And>r j. r < n \<Longrightarrow> j < 8 \<Longrightarrow> bit v (8 * r + j) = bit w (8 * r + j)"
  shows "v = (w :: 'a::len word)"
proof (rule bit_word_eqI)
  fix k
  assume "k < LENGTH('a)"
  then have "k div 8 < n" using assms(1) by (simp add: less_mult_imp_div_less mult.commute)
  then show "bit v k = bit w k" using assms(2)[of "k div 8" "k mod 8"] by simp
qed

lemma bit_reversed_bytes:
  assumes "LENGTH('a) = 8 * n" "r < n" "j < 8"
  shows "bit (le_at n 0 (rev (le_bytes n (w :: 'a::len word))) :: 'a word) (8 * r + j) \<longleftrightarrow> bit w (8 * (n - 1 - r) + j)"
proof -
  have "(8 * r + j) div 8 = r" "(8 * r + j) mod 8 = j" "8 * r + j < 8 * n" using assms(2,3) by simp_all
  then show ?thesis using assms by (simp add: bit_le_at rev_nth le_bytes_def bit_simps)
qed

text \<open>Swapping the ends of a number reverses its bytes, so doing it twice changes nothing.\<close>

theorem endswap_reverses_bytes:
  "endswap16 w16 = le_at 2 0 (rev (le_bytes 2 w16)) \<and> endswap32 w32 = le_at 4 0 (rev (le_bytes 4 w32)) \<and>
   endswap64 w64 = le_at 8 0 (rev (le_bytes 8 w64)) \<and> endswap64 (endswap64 w64) = w64"
proof (intro conjI)
  show "endswap16 w16 = le_at 2 0 (rev (le_bytes 2 w16))"
    by (rule word_eq_by_bytes[of 2]) (simp_all add: endswap_bits bit_reversed_bytes)
  show "endswap32 w32 = le_at 4 0 (rev (le_bytes 4 w32))"
    by (rule word_eq_by_bytes[of 4]) (simp_all add: endswap_bits bit_reversed_bytes)
  show "endswap64 w64 = le_at 8 0 (rev (le_bytes 8 w64))"
    by (rule word_eq_by_bytes[of 8]) (simp_all add: endswap_bits bit_reversed_bytes)
  show "endswap64 (endswap64 w64) = w64"
    by (rule word_eq_by_bytes[of 8]) (simp_all add: endswap_bits)
qed

subsection \<open>Cylinders, heads and sectors\<close>

definition chs_cylinder :: "u8 list \<Rightarrow> nat" where
  "chs_cylinder chs = unat (chs ! 2) + 4 * unat (chs ! 1 AND 0xc0)"

definition chs_lba :: "u8 list \<Rightarrow> nat" where
  "chs_lba chs = (chs_cylinder chs * 255 + unat (chs ! 0)) * 63 + (unat (chs ! 1 AND 0x3f) - 1)"

lemma chs_middle:
  assumes "c < 1024" "s < 64"
  shows "(ucast (drop_bit 2 (of_nat c :: u64) AND 0xc0) OR ucast ((of_nat s :: u64) AND 0x3f) :: u8) AND 0x3f = of_nat s"
    "unat ((ucast (drop_bit 2 (of_nat c :: u64) AND 0xc0) OR ucast ((of_nat s :: u64) AND 0x3f) :: u8) AND 0xc0) = c div 256 * 64"
proof -
  have m: "(0x3f :: u64) = mask 6" "(0x3f :: u8) = mask 6" "(0xc0 :: u64) = push_bit 6 (mask 2)" "(0xc0 :: u8) = push_bit 6 (mask 2)"
    by (simp_all add: mask_numeral push_bit_numeral)
  let ?w = "ucast (drop_bit 2 (of_nat c :: u64) AND 0xc0) OR ucast ((of_nat s :: u64) AND 0x3f) :: u8"
  have "take_bit 6 s = s" using assms(2) by (simp add: take_bit_nat_eq_self_iff)
  then have s: "\<not> bit s k" if "6 \<le> k" for k using bit_take_bit_iff[of 6 s k] that by simp
  show "?w AND 0x3f = of_nat s" unfolding m
    using s by (intro bit_word_eqI) (auto simp: bit_simps not_less[symmetric])
  have "c div 256 * 64 = push_bit 6 (drop_bit 8 c)" by (simp add: push_bit_eq_mult drop_bit_eq_div)
  then have "?w AND 0xc0 = of_nat (c div 256 * 64)" unfolding m
    using s by (intro bit_word_eqI) (auto simp: bit_simps)
  then show "unat (?w AND 0xc0) = c div 256 * 64" using assms(1) by (simp add: unat_of_nat del: of_nat_mult)
qed

text \<open>Decoding: an address below the limit of the format is recovered from its three bytes; the others become the largest triple.\<close>

theorem lba2chs_decodes:
  "if unat lba < 63 * 255 * 1024
   then chs_lba (lba2chs lba) = unat lba \<and> unat (lba2chs lba ! 1 AND 0x3f) \<in> {1..63} \<and> unat (lba2chs lba ! 0) < 255
   else lba2chs lba = [0xfe, 0xff, 0xff]"
proof (cases "unat lba < 63 * 255 * 1024")
  case True
  let ?c = "unat lba div 16065" and ?h = "unat lba div 63 mod 255" and ?s = "unat lba mod 63 + 1"
  have n: "?c < 1024" "?s < 64" using True by (simp_all add: div_less_iff_less_mult)
  have conv: "x = of_nat (unat x)" for x :: u64 by simp
  have w: "lba div (255 * 63) = of_nat ?c" "(lba div 63) mod 255 = of_nat ?h" "lba mod 63 + 1 = of_nat ?s"
    using conv[of "lba div (255 * 63)"] conv[of "(lba div 63) mod 255"] conv[of "lba mod 63"] by (simp_all add: unat_div unat_mod)
  have small: "\<not> 63 * 255 * 1024 < lba" "\<not> 1024 \<le> (of_nat ?c :: u64)"
    using True n(1) by (simp_all add: word_less_nat_alt word_le_nat_alt unat_of_nat)
  let ?m = "ucast (drop_bit 2 (of_nat ?c :: u64) AND 0xc0) OR ucast ((of_nat ?s :: u64) AND 0x3f) :: u8"
  have l: "lba2chs lba = [ucast (of_nat ?h :: u64), ?m, ucast (of_nat ?c :: u64)]"
    unfolding lba2chs_def Let_def w using small by simp
  have h: "unat (ucast (of_nat ?h :: u64) :: u8) = ?h" "unat (ucast (of_nat ?c :: u64) :: u8) = ?c mod 256"
    "unat (of_nat ?s :: u8) = ?s" using n
    by (simp_all add: unsigned_ucast_eq unat_of_nat take_bit_eq_mod del: of_nat_Suc of_nat_add)
  have "?c * 255 + ?h = unat lba div 63" using div_mult_mod_eq[of "unat lba div 63" 255] by (simp add: div_mult2_eq[symmetric])
  moreover have "?c mod 256 + 4 * (?c div 256 * 64) = ?c" by (simp add: mult.commute)
  ultimately have "chs_lba (lba2chs lba) = unat lba div 63 * 63 + unat lba mod 63"
    using chs_middle[OF n] h unfolding l chs_lba_def chs_cylinder_def by simp
  moreover have "unat lba mod 63 < 63" by simp
  ultimately show ?thesis using True chs_middle(1)[OF n] h unfolding l by (simp add: less_Suc_eq_le[symmetric])
next
  case False
  then have "63 * 255 * 1024 \<le> unat lba" by simp
  then have "1024 \<le> unat lba div 16065" using div_le_mono[of "63 * 255 * 1024" "unat lba" 16065] by simp
  then show ?thesis using False by (simp add: lba2chs_def Let_def word_le_nat_alt unat_div)
qed

end
