(* ===== verification/Spec2Isabelle.thy ===== *)
theory Spec2Isabelle
  imports Nya_Pfa_Range Nya_Pfa_Init Nya_Pager_Boot Nya_Slab_Boot Nya_Heap Nya_Keyboard_Decode Nya_Tty_Safe
    Nya_Stdio_Text Nya_Acpi Nya_Kernel Lim_Gpt Lim_Iso Lim_Memory Lim_Tool Lim_Numbers
begin

text \<open>
  \<^bold>\<open>NyaOS, a 64-bit hobby kernel: a verification library.\<close>

  NyaOS boots through the Limine protocol into \<open>kernel_main\<close> (\<open>kernel/kernel/kernel.c\<close>), which
  loads the segment table, opens a framebuffer terminal, sets up the page frame allocator,
  the page tables, the interrupt table, the slab allocator, the local and I/O APIC, and
  finally the PS/2 controller and the keyboard; from then on it halts between interrupts.
  Paths below are relative to \<open>src/\<close>; \<open>A/\<close> is \<open>kernel/arch/x86_64/\<close>.

  \<^bold>\<open>Parts and theories.\<close>

  \<^item> \<open>Nya_Prelude\<close>: machine words, the datatype \<open>fault\<close> (out-of-bounds access, null pointer,
    division by zero, missing \<open>return\<close>, bad variable argument), results \<open>res = fault + 'a\<close>, and
    the counted loops \<open>for_range\<close> and \<open>find_range\<close>. \<open>Nya_Memory\<close>: byte memory with
    little-endian loads and stores.
  \<^item> \<open>Nya_Pfa\<close>, \<open>Nya_Pfa_Range\<close>, \<open>Nya_Pfa_Init\<close>: the page frame allocator \<open>A/pfa.c\<close>. Single
    frames are proved against the locale \<open>frame_source\<close> (an allocator that hands out what is
    free), interpreted for \<open>kalloc_frame_int\<close> and for the prefetching \<open>kalloc_frame\<close>; ranges of
    frames and the set-up of the bitmap follow.
  \<^item> \<open>Nya_Pager\<close>, \<open>Nya_Pager_Map\<close>, \<open>Nya_Pager_Boot\<close>: the page tables of \<open>A/pager.c\<close>. The
    specification is the address translation of the processor (\<open>mmu\<close>).
  \<^item> \<open>Nya_String\<close>: \<open>libc/string\<close> and \<open>libc/ctype\<close>. \<open>Nya_Stdio\<close>, \<open>Nya_Stdio_Text\<close>: \<open>printf\<close> and
    its relatives in \<open>libc/stdio\<close>. \<open>Nya_Heap\<close>: \<open>libc/stdlib/heap.c\<close> and \<open>itoa.c\<close>.
  \<^item> \<open>Nya_Slab_Table\<close>, \<open>Nya_Slab\<close>, \<open>Nya_Slab_Alloc\<close>, \<open>Nya_Slab_Boot\<close>: \<open>A/slab.c\<close>. The hash table
    implements the locale \<open>buffer_table\<close> (a finite map); a slab of small objects is a stack of
    free buffers; the last theory follows \<open>slab_alloc_init\<close> to the first \<open>kmalloc\<close>.
  \<^item> \<open>Nya_Hw\<close>: port and memory-mapped I/O, CPUID and model-specific registers
    (\<open>kernel/include/kernel/io.h\<close>, \<open>system.h\<close>). The driver theories use it: \<open>Nya_Pic\<close>
    (\<open>A/pic.c\<close>), \<open>Nya_Apic\<close> and \<open>Nya_Acpi\<close> (\<open>A/apic.c\<close>, \<open>A/ioapic.c\<close>, \<open>rsdt.h\<close>), \<open>Nya_Ps2\<close> (\<open>A/drivers/ps2.c\<close>,
    \<open>serial.c\<close>), \<open>Nya_Keyboard\<close> and \<open>Nya_Keyboard_Decode\<close> (\<open>A/drivers/keyboard.c\<close>).
  \<^item> \<open>Nya_Descriptors\<close>: \<open>A/gdt.c\<close> and \<open>A/idt.c\<close>. \<open>Nya_Tty\<close>, \<open>Nya_Tty_Safe\<close>: \<open>A/tty.c\<close>.
  \<^item> \<open>Nya_Kernel\<close>: interrupt dispatch (\<open>A/isr.c\<close>), the boot requests and \<open>kernel_main\<close>; this
    theory composes the components in the order of the code.
  \<^item> The tool that writes the boot loader to the disk image, \<open>limine-binary/limine.c\<close>:
    \<open>Lim_Device\<close> (block cache, undo log), \<open>Lim_Install\<close> (\<open>bios_install\<close>), \<open>Lim_Tool\<close>
    (\<open>enroll_config\<close>, \<open>version\<close>, \<open>main\<close>). \<open>Lim_Cache\<close> and \<open>Lim_Undo\<close> prove the cache and the log
    correct; \<open>Lim_Atomic\<close> states what an installation relies on as the locales \<open>looking_on\<close> and
    \<open>transaction\<close> and interprets them on the log; \<open>Lim_Uninstall\<close> takes the log through its
    file; \<open>Lim_Boot\<close>, \<open>Lim_Gpt\<close> and \<open>Lim_Iso\<close> say what is on the device afterwards, for an MBR
    disk, a GPT disk and a hybrid ISO image that is converted; \<open>Lim_Memory\<close> adds the
    blocks of the log and interprets \<open>transaction\<close> on their ownership; \<open>Lim_Numbers\<close> treats byte
    order and disk addresses.

  \<^bold>\<open>How the code is rendered.\<close> The static variables of a file are a record, each function a
  definition of the same name that maps the state to a result and a new state. A value of
  \<open>fault\<close> stands for what the C program must not do. A loop over data of known length is
  structural recursion; a loop whose end depends on memory or on a device is a
  \<open>partial_function (option)\<close> in which \<open>None\<close> is a call that never returns, so no fuel is
  chosen anywhere. Integers keep their width. A device is the sequence of its answers
  (\<open>answer\<close>), and what the program does to it is the list \<open>events\<close>; the theorems that
  interpret these events (the 8259, the I/O APIC) carry the data sheet as a small machine.
  The bitmap of the frame allocator, the page-table cells and the byte memory of the heaps
  are separate parts of the state: that they do not overlap is the division of the memory
  map that \<open>pfa_init\<close> makes, and it is not derived here.

  \<^bold>\<open>What is shown.\<close> The memory allocators never hand out the same memory twice under the
  stated conditions, and the exceptions to that are theorems as well (runs of frames across
  a bitmap word, requests that leave less than a header); the size caches that
  \<open>slab_alloc_init\<close> sets up cannot grow, so that the first \<open>kmalloc\<close> faults. Mapping a page changes exactly its
  translation, and \<open>paging_init\<close> maps the kernel and the direct map. The hash table is a map,
  the keyboard decoder implements an abstract keyboard on the scan codes of normal keys, the
  terminal stays inside the framebuffer, every device interrupt is acknowledged exactly
  once, the gates enter the kernel code segment, the I/O APIC is programmed as the ACPI
  table asks for, and polling a device ends exactly when the
  device answers. An installation of the boot loader happens completely or leaves no trace,
  can be undone from its file, touches no partition but the one meant for it, and releases
  every block of its log once; only a broken file of undo data makes the tool free a block
  twice or run past its array. A hybrid ISO image gets an MBR that describes its partitions;
  with blocks of 4096 bytes the conversion destroys the file system of the image.

  \<^bold>\<open>Not modelled.\<close> The assembly files (\<open>A/*.S\<close>) and the linker script: the addresses of the
  interrupt stubs and of the kernel image are parameters, and loading a table or enabling
  SSE is an event. The arithmetic of \<open>double\<close> in \<open>printf\<close> is a parameter. The headers
  \<open>multiboot.h\<close>, \<open>multiboot2.h\<close> and most of \<open>limine.h\<close> declare structures nothing reads;
  \<open>math.h\<close> and \<open>stdlib.h\<close> declare functions that have no definition in the repository. Of
  \<open>limine.c\<close>: messages and usage texts and the Windows build; its embedded image
  \<open>limine-bios-hdd.h\<close> is a parameter. The outcomes of its library calls are a parameter too;
  the theorems on the contents of the device are about runs in which these calls succeed as
  far as the device allows.
\<close>

section \<open>Properties that span components\<close>

subsection \<open>Interrupts\<close>

lemma handle_keyboard_events:
  assumes "handle_keyboard kb s = Inr (kb', t)"
  shows "\<exists>v es. events t = events s @ In 0x60 v # es \<and> (\<forall>e\<in>set es. \<exists>f as. e = Printf f as)"
proof -
  obtain es where "events t = events (snd (inb 0x60 s)) @ es" "\<forall>e\<in>set es. \<exists>f as. e = Printf f as"
    using on_scancode_events[of "fst (inb 0x60 s)" kb "snd (inb 0x60 s)" kb' t] assms
    by (auto simp: handle_keyboard_def recv_def split: prod.splits)
  then show ?thesis by (simp add: inb_run)
qed

lemma handle_keyboard_total: "kb_inv kb \<Longrightarrow> \<exists>r. handle_keyboard kb s = Inr r"
  using on_scancode_cases[of kb "fst (recv s)" "snd (recv s)"] by (auto simp: handle_keyboard_def split: prod.splits)

lemma irq_range: "(v :: u64) \<le> 0x30 \<Longrightarrow> v = 0x30 \<or> v \<le> 0x2f"
proof -
  assume "v \<le> 0x30"
  then have "unat v \<le> 48" by (simp add: word_le_nat_alt)
  then have "unat v = 48 \<or> unat v \<le> 47" by linarith
  then show ?thesis by (auto simp: word_le_nat_alt word_unat_eq_iff)
qed

text \<open>The end-of-interrupt write.\<close>

definition eoi :: "machine \<Rightarrow> hwev" where
  "eoi m = MmioWrite (apic_offset (mapic m) + 0xB0) 0"

lemma send_eoi_events: "events (send_eoi (mapic m) s) = events s @ [eoi m]"
  by (simp add: send_eoi_def write_reg_def mmio_write_def eoi_def)

text \<open>
  C8. Every interrupt from a device, the timer included, is acknowledged exactly once, as
  the last thing its handler does, and the interrupted code goes on; every other exception
  is reported and halts the processor without an acknowledgement.
\<close>

theorem interrupts_acknowledged:
  assumes "kb_inv (mkb m)"
  shows "(0x20 \<le> vector regs \<and> vector regs \<le> 0x30 \<longrightarrow>
      (\<exists>m' es. exception_handler regs cr2 m = Inr (Resumed m') \<and> events (mhw m') = events (mhw m) @ es @ [eoi m] \<and> eoi m \<notin> set es)) \<and>
    (\<not> (0x20 \<le> vector regs \<and> vector regs \<le> 0x30) \<longrightarrow>
      (\<exists>m' es. exception_handler regs cr2 m = Inr (Halted m') \<and> mkb m' = mkb m \<and> events (mhw m') = events (mhw m) @ es \<and>
        hd es = Printf ''\<newline>*** EXCEPTION %llu\<newline>'' [vector regs] \<and> eoi m \<notin> set es))"
proof (intro conjI impI)
  assume v: "0x20 \<le> vector regs \<and> vector regs \<le> 0x30"
  obtain kb t where k: "handle_keyboard (mkb m) (mhw m) = Inr (kb, t)" using handle_keyboard_total[OF assms] by fastforce
  obtain w es where e: "events t = events (mhw m) @ In 0x60 w # es" "\<forall>e\<in>set es. \<exists>f as. e = Printf f as"
    using handle_keyboard_events[OF k] by blast
  have "eoi m \<notin> set es" "eoi m \<noteq> In 0x60 w" using e(2) by (auto simp: eoi_def)
  consider "vector regs = 0x30" | "vector regs \<le> 0x2f" "vector regs = 0x21" | "vector regs \<le> 0x2f" "vector regs \<noteq> 0x21" "vector regs \<noteq> 0x30"
    using v by (metis irq_range)
  then show "\<exists>m' es. exception_handler regs cr2 m = Inr (Resumed m') \<and> events (mhw m') = events (mhw m) @ es @ [eoi m] \<and> eoi m \<notin> set es"
  proof cases
    case 2
    have "exception_handler regs cr2 m = Inr (Resumed (m\<lparr>mkb := kb, mhw := send_eoi (mapic m) t\<rparr>))"
      using 2 k by (simp add: exception_handler_def Let_def)
    then show ?thesis using e \<open>eoi m \<notin> set es\<close> \<open>eoi m \<noteq> In 0x60 w\<close>
      by (intro exI[of _ "m\<lparr>mkb := kb, mhw := send_eoi (mapic m) t\<rparr>"] exI[of _ "In 0x60 w # es"]) (auto simp: send_eoi_events)
  qed (use v in \<open>auto simp: exception_handler_def handle_serial_def send_eoi_events Let_def intro!: exI[of _ "[]"]\<close>)
next
  assume v: "\<not> (0x20 \<le> vector regs \<and> vector regs \<le> 0x30)"
  then have "\<not> (0x20 \<le> vector regs \<and> vector regs \<le> 0x2f)" "vector regs \<noteq> 0x30" by (auto dest: order_trans[of _ "0x2f" "0x30"])
  then show "\<exists>m' es. exception_handler regs cr2 m = Inr (Halted m') \<and> mkb m' = mkb m \<and> events (mhw m') = events (mhw m) @ es \<and>
        hd es = Printf ''\<newline>*** EXCEPTION %llu\<newline>'' [vector regs] \<and> eoi m \<notin> set es"
    by (auto simp: exception_handler_def Let_def kprintf_def page_fault_def emit_def eoi_def)
qed

definition machine_example :: machine where
  "machine_example = \<lparr>mhw = hw_example\<lparr>answer := (\<lambda>_. 0x1c)\<rparr>, mkb = keyboard_boot\<lparr>key_down_handler := Some KeyDown\<rparr>,
     mapic = \<lparr>apic_offset = 0xfee00000, apager = kpager ht_example\<rparr>, mgdt = gdt_boot tss0, midt = idt_boot, mheap = ht_example,
     mtty = tty_example\<rparr>"

definition regs_example :: "u64 \<Rightarrow> registers" where
  "regs_example v = \<lparr>r15 = 0, r14 = 0, r13 = 0, r12 = 0, r11 = 0, r10 = 0, r9 = 0, r8 = 0, rbp = 0, rdi = 0, rsi = 0, rdx = 0, rcx = 0,
     rbx = 0, rax = 0, vector = v, error_code = 0, rip = 0, cs = 0, rflags = 0, rsp = 0, rss = 0\<rparr>"

lemma machine_example_kb: "kb_inv (mkb machine_example)" "state (mkb machine_example) = READY"
  by (simp_all add: kb_inv_def machine_example_def keyboard_boot_def key_values)

theorem interrupts_acknowledged_witness:
  "\<exists>m' es. exception_handler (regs_example 0x21) 0 machine_example = Inr (Resumed m') \<and>
     events (mhw m') = es @ [MmioWrite 0xfee000B0 0]"
  using interrupts_acknowledged[OF machine_example_kb(1), of "regs_example 0x21" 0]
  by (auto simp: regs_example_def eoi_def machine_example_def hw_example_def)



subsection \<open>Segments and gates\<close>

text \<open>
  C31. The two descriptor tables fit together: after \<open>gdt_init\<close> and \<open>idt_init\<close> the selector of
  each of the 256 gates names the entry of the segment table that describes the 64-bit code
  segment of the kernel (present, ring 0, executable, long mode), and the gate enters the
  stub of its vector.
\<close>

theorem gates_enter_kernel_code:
  assumes "length (gdt g) = 9" "length stubs = 256" "length (idt d) = 256" "length (vectors d) = 256"
  shows "\<exists>g' d' s' t'. gdt_init ga ta g s = Inr (g', s') \<and> idt_init stubs ia d s' = Inr (d', t') \<and>
    (\<forall>v<256. let e = gdt g' ! (unat (ss (idt d' ! v)) div 8)
       in unat (ss (idt d' ! v)) mod 8 = 0 \<and> access_byte e = 0x9a \<and> seg_flags e = 0xa \<and> gate_offset (idt d' ! v) = stubs ! v)"
proof -
  let ?d = "d\<lparr>idtr_base := ia, idtr_limit := 4095\<rparr>"
  have loop: "for_range (idt_vector stubs) 0 256 ?d =
      Inr (?d\<lparr>idt := map (\<lambda>v. idt_descriptor (stubs ! v) 0x8e) [0..<256], vectors := replicate 256 True\<rparr>)"
    using idt_loop[of stubs ?d 0 256] assms by simp
  have sel: "unat (ss (idt_descriptor i 0x8e)) = 16" for i by (simp add: idt_descriptor_def)
  have fl: "seg_flags (gdt_record 0 0xfffff 0x9a 0xa) = 0xa" by (simp add: gdt_record_decode)
  show ?thesis unfolding gdt_init_run[OF assms(1)] idt_init_def
    using loop sel fl by (simp add: gate_offset_descriptor gdt_record_decode(4) Let_def)
qed

theorem gates_enter_kernel_code_witness:
  "\<exists>g' d' s' t'. gdt_init 0x1000 0x2000 (gdt_boot tss0) hw_example = Inr (g', s') \<and>
     idt_init (map of_nat [4096..<4352]) 0x5000 idt_boot s' = Inr (d', t') \<and> gate_offset (idt d' ! 14) = 4110"
proof -
  have l: "length (gdt (gdt_boot tss0)) = 9" "length (map of_nat [4096..<4352] :: u64 list) = 256" "length (idt idt_boot) = 256"
    "length (vectors idt_boot) = 256" by (simp_all add: gdt_boot_def idt_boot_def)
  have n: "(map of_nat [4096..<4352] :: u64 list) ! 14 = 4110" "(14 :: nat) < 256" by (simp_all del: upt_Suc)
  show ?thesis using gates_enter_kernel_code[OF l, of "0x1000" "0x2000" hw_example "0x5000"] n unfolding Let_def by metis
qed

end
